(* ===== verification/Prelude.thy ===== *)
theory Prelude
  imports Main "HOL-Library.Word"
begin

text \<open>
  Shared vocabulary of the development: the widths of the program's integers, bytes and
  their conversion to characters, little-endian encodings of machine words (the layout that
  \<^verbatim>\<open>_packet << (uint)x\<close> produces on the x86 targets of the build), the two collections
  of simplification rules the component theories use, and generic list lemmas.
\<close>

unbundle bit_operations_syntax

named_theorems codec_simps \<open>encodings and decodings of words, strings and streams\<close>
named_theorems frame_simps \<open>fields an operation leaves unchanged\<close>

section \<open>Machine types\<close>

type_synonym u8 = "8 word"
type_synonym u16 = "16 word"
type_synonym u32 = "32 word"
type_synonym u64 = "64 word"
type_synonym bytes = "u8 list"

text \<open>
  What a C++ run of the code can do instead of returning: follow a null pointer, use memory
  outside an array or buffer, follow a pointer to an object that was deleted, or divide by zero.
  \<open>NoFuel\<close> is no behaviour of the code: it marks a recursion of the model that ran out of its bound.
\<close>

datatype fault = NullDeref | OutOfBounds | Dangling | DivByZero | NoFuel

text \<open>A call that may fault: \<open>Inl\<close> the fault, \<open>Inr\<close> the result.\<close>

type_synonym 'a res = "fault + 'a"

fun bind_res :: "'a res \<Rightarrow> ('a \<Rightarrow> 'b res) \<Rightarrow> 'b res" where
  "bind_res (Inl f) k = Inl f"
| "bind_res (Inr x) k = k x"

lemma bind_res_Inr_iff: "bind_res m k = Inr y \<longleftrightarrow> (\<exists>x. m = Inr x \<and> k x = Inr y)"
  by (cases m) auto

lemma bind_res_assoc [simp]: "bind_res (bind_res m k) h = bind_res m (\<lambda>x. bind_res (k x) h)"
  by (cases m) auto

section \<open>Bytes and characters\<close>

definition byte_of :: "char \<Rightarrow> u8" where
  "byte_of c = word_of_nat (of_char c)"

definition char_of_byte :: "u8 \<Rightarrow> char" where
  "char_of_byte b = char_of (unat b)"

definition NUL :: char where
  "NUL = CHR 0x00"

lemma unat_bound: "unat (a :: u8) < 256" "unat (b :: u16) < 65536" "unat (c :: u32) < 4294967296"
    "unat (d :: u64) < 18446744073709551616"
  using unsigned_less [of a] unsigned_less [of b] unsigned_less [of c] unsigned_less [of d]
  by simp_all

lemma unat_byte_of [simp]: "unat (byte_of c) = of_char c"
  by (simp add: byte_of_def unat_of_nat)

lemma char_of_byte_of [simp, codec_simps]: "char_of_byte (byte_of c) = c"
  by (simp add: char_of_byte_def)

lemma byte_of_char_of [simp, codec_simps]: "byte_of (char_of_byte b) = b"
proof -
  have "unat b < 256" by (rule unat_bound)
  then show ?thesis by (simp add: byte_of_def char_of_byte_def of_char_of)
qed

lemma byte_of_inject [simp]: "byte_of c = byte_of d \<longleftrightarrow> c = d"
  by (metis char_of_byte_of)

lemma byte_of_NUL [simp]: "byte_of NUL = 0"
  by (simp add: byte_of_def NUL_def)

lemma byte_of_eq_0 [simp]: "byte_of c = 0 \<longleftrightarrow> c = NUL"
  by (metis byte_of_NUL byte_of_inject)

lemma char_of_byte_eq_NUL [simp]: "char_of_byte b = NUL \<longleftrightarrow> b = 0"
  by (metis byte_of_char_of byte_of_eq_0)

section \<open>Little-endian words\<close>

text \<open>
  \<open>le n x\<close> is the object representation of the low \<open>n\<close> bytes of \<open>x\<close>, \<open>of_le bs\<close> the word
  read back from such bytes. All the widths are instances of one definition on \<open>nat\<close>.
\<close>

fun le_nat :: "nat \<Rightarrow> nat \<Rightarrow> bytes" where
  "le_nat 0 x = []"
| "le_nat (Suc n) x = word_of_nat x # le_nat n (x div 256)"

fun of_le_nat :: "bytes \<Rightarrow> nat" where
  "of_le_nat [] = 0"
| "of_le_nat (b # bs) = unat b + 256 * of_le_nat bs"

lemma length_le_nat [simp, codec_simps]: "length (le_nat n x) = n"
  by (induction n arbitrary: x) auto

lemma of_le_nat_bound: "of_le_nat bs < 256 ^ length bs"
proof (induction bs)
  case Nil
  show ?case by simp
next
  case (Cons b bs)
  have "unat b < 256" by (rule unat_bound)
  moreover have "of_le_nat bs + 1 \<le> 256 ^ length bs" using Cons by simp
  ultimately have "unat b + 256 * of_le_nat bs < 256 * 256 ^ length bs" by linarith
  then show ?case by simp
qed

lemma of_le_le_nat [codec_simps]: "of_le_nat (le_nat n x) = x mod 256 ^ n"
proof (induction n arbitrary: x)
  case 0
  show ?case by simp
next
  case (Suc n)
  have "unat (word_of_nat x :: u8) = x mod 256" by (simp add: unat_of_nat)
  then show ?case
    using Suc.IH [of "x div 256"] by (simp add: mod_mult2_eq ac_simps)
qed

lemma le_of_le_nat [codec_simps]: "length bs = n \<Longrightarrow> le_nat n (of_le_nat bs) = bs"
proof (induction bs arbitrary: n)
  case Nil
  then show ?case by simp
next
  case (Cons b bs)
  have b: "unat b < 256" by (rule unat_bound)
  then have "(unat b + 256 * of_le_nat bs) div 256 = of_le_nat bs" by simp
  moreover have "(word_of_nat (unat b + 256 * of_le_nat bs) :: u8) = b"
  proof -
    have "(256 :: u8) = 0" by simp
    then have "256 * (word_of_nat (of_le_nat bs) :: u8) = 0" by (simp only: mult_zero_left)
    then show ?thesis by simp
  qed
  ultimately show ?case using Cons by auto
qed

definition le16 :: "u16 \<Rightarrow> bytes" where "le16 x = le_nat 2 (unat x)"
definition le32 :: "u32 \<Rightarrow> bytes" where "le32 x = le_nat 4 (unat x)"
definition le64 :: "u64 \<Rightarrow> bytes" where "le64 x = le_nat 8 (unat x)"

definition of_le16 :: "bytes \<Rightarrow> u16" where "of_le16 bs = word_of_nat (of_le_nat bs)"
definition of_le32 :: "bytes \<Rightarrow> u32" where "of_le32 bs = word_of_nat (of_le_nat bs)"
definition of_le64 :: "bytes \<Rightarrow> u64" where "of_le64 bs = word_of_nat (of_le_nat bs)"

lemma length_le [simp, codec_simps]:
  "length (le16 a) = 2" "length (le32 b) = 4" "length (le64 c) = 8"
  by (simp_all add: le16_def le32_def le64_def)

lemma of_le16_le16 [simp, codec_simps]: "of_le16 (le16 x) = x"
  using unat_bound(2) [of x] by (simp add: of_le16_def le16_def of_le_le_nat)

lemma of_le32_le32 [simp, codec_simps]: "of_le32 (le32 x) = x"
  using unat_bound(3) [of x] by (simp add: of_le32_def le32_def of_le_le_nat)

lemma of_le64_le64 [simp, codec_simps]: "of_le64 (le64 x) = x"
  using unat_bound(4) [of x] by (simp add: of_le64_def le64_def of_le_le_nat)

lemma le32_of_le32 [codec_simps]: "length bs = 4 \<Longrightarrow> le32 (of_le32 bs) = bs"
  using of_le_nat_bound [of bs]
  by (simp add: of_le32_def le32_def unat_of_nat le_of_le_nat)

lemma le16_of_le16 [codec_simps]: "length bs = 2 \<Longrightarrow> le16 (of_le16 bs) = bs"
  using of_le_nat_bound [of bs]
  by (simp add: of_le16_def le16_def unat_of_nat le_of_le_nat)

lemma le16_inject [simp]: "le16 x = le16 y \<longleftrightarrow> x = y"
  by (metis of_le16_le16)

lemma le32_inject [simp]: "le32 x = le32 y \<longleftrightarrow> x = y"
  by (metis of_le32_le32)

text \<open>The byte order functions of the C library on a little-endian host.\<close>

definition htonl :: "u32 \<Rightarrow> u32" where "htonl x = of_le32 (rev (le32 x))"
definition htons :: "u16 \<Rightarrow> u16" where "htons x = of_le16 (rev (le16 x))"

lemma le_hton: "le32 (htonl a) = rev (le32 a)" "le16 (htons b) = rev (le16 b)"
  by (simp_all add: htonl_def htons_def le32_of_le32 le16_of_le16)

section \<open>Lists\<close>

lemma take_append_exact: "length xs = n \<Longrightarrow> take n (xs @ ys) = xs"
  by simp

lemma drop_append_exact: "length xs = n \<Longrightarrow> drop n (xs @ ys) = ys"
  by simp

lemma takeWhile_all: "(\<And>x. x \<in> set xs \<Longrightarrow> P x) \<Longrightarrow> takeWhile P xs = xs"
  by (simp add: takeWhile_eq_all_conv)

lemma takeWhile_stop: "(\<And>x. x \<in> set xs \<Longrightarrow> P x) \<Longrightarrow> \<not> P y \<Longrightarrow> takeWhile P (xs @ y # ys) = xs"
  by (simp add: takeWhile_append takeWhile_tail)

end
