(* ===== verification/Containers.thy ===== *)
theory Containers
  imports Prelude
begin

text \<open>
  The three standard containers the caches are built from, as lists the kernel can evaluate.
  \<^item> \<^verbatim>\<open>std::unordered_map<K, V, Hash, Equal>\<close>: association lists searched with the map's own
    \<open>Equal\<close> predicate (\<open>ufind\<close>, \<open>uset\<close>, \<open>uerase\<close>); the laws hold for any equivalence and are
    proved once in the locale \<open>key_equiv\<close>.
  \<^item> \<^verbatim>\<open>std::map<K, V, Less>\<close>: association lists kept in the order of \<open>Less\<close> (\<open>ofind\<close>, \<open>oset\<close>,
    \<open>oerase\<close>); the laws hold for any strict weak order (locale \<open>strict_weak\<close>), which gives a key
    equivalence (\<open>sublocale\<close>).
  \<^item> \<^verbatim>\<open>std::set<T*>\<close>: strictly sorted lists of addresses.
  The insertion order of an association list stands for the bucket order of an
  \<^verbatim>\<open>unordered_map\<close>; no lemma about look-ups depends on it.
\<close>

section \<open>Hash maps with a key equivalence\<close>

fun ufind :: "('k \<Rightarrow> 'k \<Rightarrow> bool) \<Rightarrow> ('k \<times> 'v) list \<Rightarrow> 'k \<Rightarrow> 'v option" where
  "ufind eq [] k = None"
| "ufind eq ((k', v) # m) k = (if eq k' k then Some v else ufind eq m k)"

fun uset :: "('k \<Rightarrow> 'k \<Rightarrow> bool) \<Rightarrow> ('k \<times> 'v) list \<Rightarrow> 'k \<Rightarrow> 'v \<Rightarrow> ('k \<times> 'v) list" where
  "uset eq [] k v = [(k, v)]"
| "uset eq ((k', v') # m) k v = (if eq k' k then (k', v) # m else (k', v') # uset eq m k v)"

fun uerase :: "('k \<Rightarrow> 'k \<Rightarrow> bool) \<Rightarrow> ('k \<times> 'v) list \<Rightarrow> 'k \<Rightarrow> ('k \<times> 'v) list" where
  "uerase eq [] k = []"
| "uerase eq ((k', v) # m) k = (if eq k' k then m else (k', v) # uerase eq m k)"

fun udistinct :: "('k \<Rightarrow> 'k \<Rightarrow> bool) \<Rightarrow> ('k \<times> 'v) list \<Rightarrow> bool" where
  "udistinct eq [] = True"
| "udistinct eq ((k, v) # m) = (list_all (\<lambda>p. \<not> eq k (fst p)) m \<and> udistinct eq m)"

lemma ufind_SomeD: "ufind eq m k = Some v \<Longrightarrow> \<exists>k'. (k', v) \<in> set m \<and> eq k' k"
  by (induction eq m k rule: ufind.induct) (auto split: if_splits)

lemma ufind_None_iff: "ufind eq m k = None \<longleftrightarrow> (\<forall>p \<in> set m. \<not> eq (fst p) k)"
  by (induction eq m k rule: ufind.induct) auto

lemma set_uerase_subset: "set (uerase eq m k) \<subseteq> set m"
  by (induction eq m k rule: uerase.induct) auto

lemma set_uset_subset: "set (uset eq m k v) \<subseteq> {p. \<exists>k' v'. p = (k', v') \<and> (k' = k \<or> k' \<in> fst ` set m) \<and> (v' = v \<or> (k', v') \<in> set m)}"
  by (induction eq m k v rule: uset.induct) (auto 0 4 simp: image_iff)

lemma uset_entryD: "(a, b) \<in> set (uset eq m k v) \<Longrightarrow> b = v \<or> (a, b) \<in> set m"
  by (induction eq m k v rule: uset.induct) (auto split: if_splits)

lemma uset_memberD: "p \<in> set (uset eq m k v) \<Longrightarrow> p \<in> set m \<or> snd p = v \<and> (fst p = k \<or> eq (fst p) k)"
  by (induction eq m k v rule: uset.induct) (auto split: if_splits)

lemma fst_set_uset: "fst ` set (uset eq m k v) \<subseteq> insert k (fst ` set m)"
  by (induction eq m k v rule: uset.induct) auto

lemma uerase_absent: "ufind eq m k = None \<Longrightarrow> uerase eq m k = m"
  by (induction eq m k rule: ufind.induct) (auto split: if_splits)

lemma length_uerase_present:
  "ufind eq m k = Some v \<Longrightarrow> Suc (length (uerase eq m k)) = length m"
  by (induction eq m k rule: ufind.induct) (auto split: if_splits)

lemma length_uset:
  "length (uset eq m k v) = (if ufind eq m k = None then Suc (length m) else length m)"
  by (induction eq m k v rule: uset.induct) auto

locale key_equiv =
  fixes eq :: "'k \<Rightarrow> 'k \<Rightarrow> bool"
  assumes eq_refl [simp]: "eq a a"
    and eq_sym: "eq a b \<Longrightarrow> eq b a"
    and eq_trans: "eq a b \<Longrightarrow> eq b c \<Longrightarrow> eq a c"
begin

lemma eq_cong: "eq k k' \<Longrightarrow> eq x k \<longleftrightarrow> eq x k'"
  using eq_sym eq_trans by blast

lemma eq_congL: "eq k k' \<Longrightarrow> eq k x \<longleftrightarrow> eq k' x"
  using eq_sym eq_trans by blast

lemma ufind_cong: "eq k k' \<Longrightarrow> ufind eq m k = ufind eq m k'"
  by (induction m) (auto simp: eq_cong [of k k'])

lemma ufind_uset_same: "eq k k' \<Longrightarrow> ufind eq (uset eq m k v) k' = Some v"
proof (induction m)
  case Nil
  then show ?case by simp
next
  case (Cons p m)
  then show ?case using eq_cong [OF Cons.prems, of "fst p"] by (cases p) auto
qed

lemma ufind_uset_other: "\<not> eq k k' \<Longrightarrow> ufind eq (uset eq m k v) k' = ufind eq m k'"
proof (induction m)
  case Nil
  then show ?case by simp
next
  case (Cons p m)
  then have "eq (fst p) k \<Longrightarrow> \<not> eq (fst p) k'" using eq_sym eq_trans by blast
  then show ?case using Cons by (cases p) auto
qed

lemma ufind_uset: "ufind eq (uset eq m k v) k' = (if eq k k' then Some v else ufind eq m k')"
  by (simp add: ufind_uset_same ufind_uset_other)

lemma ufind_uerase_other: "\<not> eq k k' \<Longrightarrow> ufind eq (uerase eq m k) k' = ufind eq m k'"
proof (induction m)
  case Nil
  then show ?case by simp
next
  case (Cons p m)
  then have "eq (fst p) k \<Longrightarrow> \<not> eq (fst p) k'" using eq_sym eq_trans by blast
  then show ?case using Cons by (cases p) auto
qed

lemma udistinct_no_match:
  "list_all (\<lambda>p. \<not> eq a (fst p)) m \<Longrightarrow> eq a k \<Longrightarrow> ufind eq m k = None"
  by (auto simp: ufind_None_iff list_all_iff dest: eq_sym eq_trans)

lemma ufind_uerase_same: "udistinct eq m \<Longrightarrow> eq k k' \<Longrightarrow> ufind eq (uerase eq m k) k' = None"
proof (induction m)
  case Nil
  then show ?case by simp
next
  case (Cons p m)
  obtain a b where p: "p = (a, b)" by (cases p)
  show ?case
  proof (cases "eq a k")
    case True
    from True Cons.prems(2) have "eq a k'" by (rule eq_trans)
    with Cons.prems(1) p have "ufind eq m k' = None" by (auto intro: udistinct_no_match)
    with True p show ?thesis by simp
  next
    case False
    then have "\<not> eq a k'" using Cons.prems(2) eq_cong by blast
    with False Cons p show ?thesis by simp
  qed
qed

lemma ufind_uerase:
  "udistinct eq m \<Longrightarrow> ufind eq (uerase eq m k) k' = (if eq k k' then None else ufind eq m k')"
  by (simp add: ufind_uerase_same ufind_uerase_other)

lemma udistinct_uset: "udistinct eq m \<Longrightarrow> udistinct eq (uset eq m k v)"
proof (induction m)
  case Nil
  then show ?case by simp
next
  case (Cons p m)
  obtain a b where p: "p = (a, b)" by (cases p)
  have *: "\<not> eq a k \<Longrightarrow> list_all (\<lambda>q. \<not> eq a (fst q)) m
      \<Longrightarrow> list_all (\<lambda>q. \<not> eq a (fst q)) (uset eq m k v)"
    using fst_set_uset [of eq m k v] by (fastforce simp: list_all_iff image_subset_iff)
  show ?case using Cons * p by auto
qed

lemma udistinct_uerase: "udistinct eq m \<Longrightarrow> udistinct eq (uerase eq m k)"
proof (induction m)
  case Nil
  then show ?case by simp
next
  case (Cons p m)
  then show ?case
    using set_uerase_subset [of eq m k] by (cases p) (auto simp: list_all_iff)
qed

lemma ufind_memberI: "udistinct eq m \<Longrightarrow> (k, v) \<in> set m \<Longrightarrow> ufind eq m k = Some v"
proof (induction m)
  case Nil
  then show ?case by simp
next
  case (Cons p m)
  then show ?case by (cases p) (auto simp: list_all_iff dest: eq_sym)
qed

end

text \<open>Keys compared with \<^verbatim>\<open>==\<close> (integer keys).\<close>

interpretation keq: key_equiv "(=)"
  by unfold_locales auto

section \<open>Ordered maps\<close>

definition incomparable :: "('k \<Rightarrow> 'k \<Rightarrow> bool) \<Rightarrow> 'k \<Rightarrow> 'k \<Rightarrow> bool" where
  "incomparable lt a b \<longleftrightarrow> \<not> lt a b \<and> \<not> lt b a"

definition ofind :: "('k \<Rightarrow> 'k \<Rightarrow> bool) \<Rightarrow> ('k \<times> 'v) list \<Rightarrow> 'k \<Rightarrow> 'v option" where
  "ofind lt m k = ufind (incomparable lt) m k"

fun oset :: "('k \<Rightarrow> 'k \<Rightarrow> bool) \<Rightarrow> ('k \<times> 'v) list \<Rightarrow> 'k \<Rightarrow> 'v \<Rightarrow> ('k \<times> 'v) list" where
  "oset lt [] k v = [(k, v)]"
| "oset lt ((k', v') # m) k v =
     (if lt k k' then (k, v) # (k', v') # m
      else if lt k' k then (k', v') # oset lt m k v
      else (k', v) # m)"

definition osorted :: "('k \<Rightarrow> 'k \<Rightarrow> bool) \<Rightarrow> ('k \<times> 'v) list \<Rightarrow> bool" where
  "osorted lt m \<longleftrightarrow> sorted_wrt (\<lambda>p q. lt (fst p) (fst q)) m"

lemma fst_set_oset: "fst ` set (oset lt m k v) \<subseteq> insert k (fst ` set m)"
  by (induction lt m k v rule: oset.induct) auto

locale strict_weak =
  fixes lt :: "'k \<Rightarrow> 'k \<Rightarrow> bool"
  assumes lt_irrefl: "\<not> lt a a"
    and lt_trans: "lt a b \<Longrightarrow> lt b c \<Longrightarrow> lt a c"
    and incomp_trans: "incomparable lt a b \<Longrightarrow> incomparable lt b c \<Longrightarrow> incomparable lt a c"
begin

sublocale key_equiv "incomparable lt"
proof
  show "incomparable lt a a" for a by (simp add: incomparable_def lt_irrefl)
  show "incomparable lt a b \<Longrightarrow> incomparable lt b a" for a b by (simp add: incomparable_def)
  show "incomparable lt a b \<Longrightarrow> incomparable lt b c \<Longrightarrow> incomparable lt a c" for a b c
    by (rule incomp_trans)
qed

lemma lt_congR: "incomparable lt a b \<Longrightarrow> lt c a \<longleftrightarrow> lt c b"
  by (metis incomp_trans incomparable_def lt_trans)

lemma ofind_oset_same: "incomparable lt k k' \<Longrightarrow> ofind lt (oset lt m k v) k' = Some v"
proof (induction m)
  case Nil
  then show ?case by (simp add: ofind_def)
next
  case (Cons p m)
  obtain a b where p: "p = (a, b)" by (cases p)
  have "lt a k \<Longrightarrow> \<not> incomparable lt a k'"
    using lt_congR [OF Cons.prems, of a] by (simp add: incomparable_def)
  moreover have "\<not> lt a k \<Longrightarrow> \<not> lt k a \<Longrightarrow> incomparable lt a k'"
    using Cons.prems incomp_trans [of a k k'] by (auto simp: incomparable_def [of lt a k])
  ultimately show ?case using Cons p by (auto simp: ofind_def)
qed

lemma ofind_oset_other: "\<not> incomparable lt k k' \<Longrightarrow> ofind lt (oset lt m k v) k' = ofind lt m k'"
proof (induction m)
  case Nil
  then show ?case by (simp add: ofind_def)
next
  case (Cons p m)
  obtain a b where p: "p = (a, b)" by (cases p)
  have "\<not> lt a k \<Longrightarrow> \<not> lt k a \<Longrightarrow> \<not> incomparable lt a k'"
    using Cons.prems by (metis eq_sym eq_trans incomparable_def)
  then show ?case using Cons p by (auto simp: ofind_def)
qed

lemma ofind_oset: "ofind lt (oset lt m k v) k' = (if incomparable lt k k' then Some v else ofind lt m k')"
  by (simp add: ofind_oset_same ofind_oset_other)

lemma oset_last: "(\<And>p. p \<in> set m \<Longrightarrow> lt (fst p) k) \<Longrightarrow> oset lt m k v = m @ [(k, v)]"
proof (induction m)
  case Nil
  then show ?case by simp
next
  case (Cons p m)
  obtain a b where p: "p = (a, b)" by (cases p)
  have "lt a k" using Cons.prems [of p] p by simp
  then have "\<not> lt k a" using lt_irrefl lt_trans by blast
  then show ?case using Cons p \<open>lt a k\<close> by simp
qed

lemma osorted_oset: "osorted lt m \<Longrightarrow> osorted lt (oset lt m k v)"
proof (induction m)
  case Nil
  then show ?case by (simp add: osorted_def)
next
  case (Cons p m)
  obtain a b where p: "p = (a, b)" by (cases p)
  have "lt a k \<Longrightarrow> \<forall>q \<in> set m. lt a (fst q) \<Longrightarrow> \<forall>q \<in> set (oset lt m k v). lt a (fst q)"
    using fst_set_oset [of lt m k v] by (fastforce simp: image_subset_iff)
  then show ?case using Cons p lt_trans by (fastforce simp: osorted_def)
qed

end

section \<open>Sets of addresses\<close>

fun set_insert :: "'a::linorder \<Rightarrow> 'a list \<Rightarrow> 'a list" where
  "set_insert x [] = [x]"
| "set_insert x (y # ys) = (if x < y then x # y # ys else if x = y then y # ys else y # set_insert x ys)"

definition set_erase :: "'a \<Rightarrow> 'a list \<Rightarrow> 'a list" where
  "set_erase x xs = filter (\<lambda>y. y \<noteq> x) xs"

lemma set_set_insert [simp]: "set (set_insert x xs) = insert x (set xs)"
  by (induction x xs rule: set_insert.induct) auto

lemma set_set_erase [simp]: "set (set_erase x xs) = set xs - {x}"
  by (auto simp: set_erase_def)

lemma sorted_set_insert: "sorted_wrt (<) xs \<Longrightarrow> sorted_wrt (<) (set_insert x xs)"
  by (induction x xs rule: set_insert.induct) auto

lemma sorted_set_erase: "sorted_wrt (<) xs \<Longrightarrow> sorted_wrt (<) (set_erase x xs)"
  by (simp add: set_erase_def sorted_wrt_filter)

lemma length_set_insert:
  "sorted_wrt (<) xs \<Longrightarrow> length (set_insert x xs) = (if x \<in> set xs then length xs else Suc (length xs))"
  by (induction x xs rule: set_insert.induct) auto

end
