(* ===== verification/CText.thy ===== *)
theory CText
  imports Containers
begin

text \<open>
  C strings and the text helpers: \<^verbatim>\<open>_STR\<close> of \<^verbatim>\<open>src/common/utils/Memory.cpp\<close> (the POSIX
  build: \<^verbatim>\<open>strcasecmp\<close> and friends), the hash and comparison functors of
  \<^verbatim>\<open>src/blitzd/cache/CacheFunc.h\<close>, \<^verbatim>\<open>Utils::Reverse\<close> of
  \<^verbatim>\<open>src/common/utils/DataConv.h\<close> and \<^verbatim>\<open>Text::SeperateString\<close> of
  \<^verbatim>\<open>src/common/text/Parser.cpp\<close>. A \<^verbatim>\<open>std::string\<close> is a list of characters,
  \<open>c_str s\<close> what a function that stops at the first NUL sees of it. The lemmas show that
  case-insensitive comparison is an equivalence and a strict weak order, that the hash agrees
  with it, and what the splitter returns.
\<close>

section \<open>C strings\<close>

definition c_str :: "string \<Rightarrow> string" where
  "c_str s = takeWhile (\<lambda>c. c \<noteq> NUL) s"

lemma NUL_notin_c_str [simp]: "NUL \<notin> set (c_str s)"
  by (auto simp: c_str_def dest: set_takeWhileD)

lemma c_str_id: "NUL \<notin> set s \<Longrightarrow> c_str s = s"
  unfolding c_str_def by (rule takeWhile_all) auto

lemma c_str_c_str [simp]: "c_str (c_str s) = c_str s"
  by (simp add: c_str_id)

text \<open>\<^verbatim>\<open>std::tolower\<close> and \<^verbatim>\<open>toupper\<close> in the \<^verbatim>\<open>"C"\<close> locale.\<close>

definition tolower :: "char \<Rightarrow> char" where
  "tolower c = (if 65 \<le> (of_char c :: nat) \<and> (of_char c :: nat) \<le> 90
                then char_of ((of_char c :: nat) + 32) else c)"

definition toupper :: "char \<Rightarrow> char" where
  "toupper c = (if 97 \<le> (of_char c :: nat) \<and> (of_char c :: nat) \<le> 122
                then char_of ((of_char c :: nat) - 32) else c)"

lemma of_char_tolower:
  "(of_char (tolower c) :: nat) =
     (if 65 \<le> (of_char c :: nat) \<and> (of_char c :: nat) \<le> 90 then of_char c + 32 else of_char c)"
  by (simp add: tolower_def of_char_of)

lemma tolower_idem [simp]: "tolower (tolower c) = tolower c"
  by (simp add: tolower_def of_char_of)

lemma of_char_eq_0 [simp]: "(of_char c :: nat) = 0 \<longleftrightarrow> c = NUL"
proof -
  have "(of_char NUL :: nat) = 0" by (simp add: NUL_def)
  then show ?thesis by (metis of_char_eq_iff)
qed

lemma tolower_NUL [simp]: "tolower c = NUL \<longleftrightarrow> c = NUL"
  using of_char_tolower [of c] by (auto simp flip: of_char_eq_0 split: if_splits)

text \<open>\<^verbatim>\<open>strcasecmp\<close>: the difference of the first lower-cased characters that differ.\<close>

fun strcasecmp :: "string \<Rightarrow> string \<Rightarrow> int" where
  "strcasecmp [] [] = 0"
| "strcasecmp [] (y # ys) = - int (of_char (tolower y))"
| "strcasecmp (x # xs) [] = int (of_char (tolower x))"
| "strcasecmp (x # xs) (y # ys) =
     (if tolower x = tolower y then strcasecmp xs ys
      else int (of_char (tolower x)) - int (of_char (tolower y)))"

definition generic_strcmpia :: "string \<Rightarrow> string \<Rightarrow> int" where
  "generic_strcmpia s1 s2 = strcasecmp (c_str s1) (c_str s2)"

definition CompareInCaseEqual :: "string \<Rightarrow> string \<Rightarrow> bool" where
  "CompareInCaseEqual s1 s2 \<longleftrightarrow> generic_strcmpia s1 s2 = 0"

definition CompareInCaseLess :: "string \<Rightarrow> string \<Rightarrow> bool" where
  "CompareInCaseLess s1 s2 \<longleftrightarrow> generic_strcmpia s1 s2 < 0"

text \<open>
  \<^verbatim>\<open>LowerCaseHash\<close>: \<^verbatim>\<open>char\<close> is signed on the targets, so \<^verbatim>\<open>std::tolower(*p)\<close> is the
  lower-cased character sign-extended to 64 bits.
\<close>

definition char_to_size :: "char \<Rightarrow> u64" where
  "char_to_size c = signed_take_bit 7 (word_of_nat (of_char c))"

definition LowerCaseHash :: "string \<Rightarrow> u64" where
  "LowerCaseHash s = fold (\<lambda>c r. push_bit 5 r XOR char_to_size (tolower c)) s 5181"

definition fold_case :: "string \<Rightarrow> string" where
  "fold_case s = map tolower (c_str s)"

section \<open>Case-insensitive comparison\<close>

lemma strcasecmp_eq_0:
  "NUL \<notin> set s \<Longrightarrow> NUL \<notin> set t \<Longrightarrow> strcasecmp s t = 0 \<longleftrightarrow> map tolower s = map tolower t"
  by (induction s t rule: strcasecmp.induct) auto

lemma strcasecmp_less:
  "NUL \<notin> set s \<Longrightarrow> NUL \<notin> set t \<Longrightarrow>
   strcasecmp s t < 0 \<longleftrightarrow> (map (\<lambda>c. of_char (tolower c)) s, map (\<lambda>c. of_char (tolower c)) t) \<in> lexord {(a :: nat, b). a < b}"
proof (induction s t rule: strcasecmp.induct)
  case (2 y ys)
  then have "tolower y \<noteq> NUL" by auto
  then show ?case by (simp flip: of_char_eq_0)
qed auto

lemma strcasecmp_antisym: "strcasecmp s t = - strcasecmp t s"
  by (induction s t rule: strcasecmp.induct) auto

lemma strcmpi_eq_0: "generic_strcmpia s t = 0 \<longleftrightarrow> fold_case s = fold_case t"
  by (simp add: generic_strcmpia_def fold_case_def strcasecmp_eq_0)

lemma CompareInCaseEqual_iff: "CompareInCaseEqual s t \<longleftrightarrow> fold_case s = fold_case t"
  by (simp add: CompareInCaseEqual_def strcmpi_eq_0)

interpretation ci: key_equiv CompareInCaseEqual
  by unfold_locales (auto simp: CompareInCaseEqual_iff)

definition ci_key :: "string \<Rightarrow> nat list" where
  "ci_key s = map of_char (fold_case s)"

lemma CompareInCaseLess_iff:
  "CompareInCaseLess s t \<longleftrightarrow> (ci_key s, ci_key t) \<in> lexord {(a, b). a < b}"
  by (simp add: CompareInCaseLess_def generic_strcmpia_def strcasecmp_less ci_key_def fold_case_def
      comp_def)

lemma ci_key_inject: "ci_key s = ci_key t \<longleftrightarrow> fold_case s = fold_case t"
  unfolding ci_key_def by (rule inj_map_eq_map) (simp add: inj_def)

lemma incomparable_ci: "incomparable CompareInCaseLess s t \<longleftrightarrow> fold_case s = fold_case t"
proof -
  have "(u, v) \<in> lexord {(a :: nat, b). a < b} \<or> u = v \<or> (v, u) \<in> lexord {(a, b). a < b}" for u v
    by (rule lexord_linear) auto
  moreover have "(u, u) \<notin> lexord {(a :: nat, b). a < b}" for u
    by (rule lexord_irreflexive) auto
  ultimately show ?thesis
    unfolding incomparable_def CompareInCaseLess_iff by (metis ci_key_inject)
qed

interpretation cil: strict_weak CompareInCaseLess
proof
  show "\<not> CompareInCaseLess a a" for a
    using incomparable_ci [of a a] by (simp add: incomparable_def)
  show "CompareInCaseLess a b \<Longrightarrow> CompareInCaseLess b c \<Longrightarrow> CompareInCaseLess a c" for a b c
    unfolding CompareInCaseLess_iff by (rule lexord_trans) (auto simp: trans_def)
  show "incomparable CompareInCaseLess a b \<Longrightarrow> incomparable CompareInCaseLess b c
      \<Longrightarrow> incomparable CompareInCaseLess a c" for a b c
    by (simp add: incomparable_ci)
qed

text \<open>The contract of \<^verbatim>\<open>unordered_map\<close>: equal keys have equal hashes.\<close>

lemma LowerCaseHash_map: "LowerCaseHash s = fold (\<lambda>c r. push_bit 5 r XOR char_to_size c) (map tolower s) 5181"
  by (simp add: LowerCaseHash_def fold_map comp_def)

lemma hash_contract:
  "NUL \<notin> set s \<Longrightarrow> NUL \<notin> set t \<Longrightarrow> CompareInCaseEqual s t \<Longrightarrow> LowerCaseHash s = LowerCaseHash t"
  by (simp add: CompareInCaseEqual_iff fold_case_def c_str_id LowerCaseHash_map)

section \<open>Byte order\<close>

definition Reverse :: "u32 \<Rightarrow> u32" where
  "Reverse n = push_bit 24 (n AND 0xFF) OR push_bit 8 (n AND 0xFF00)
     OR drop_bit 8 (n AND 0xFF0000) OR drop_bit 24 (n AND 0xFF000000)"

lemma le_nat_4:
  "le_nat 4 x = [word_of_nat x, word_of_nat (x div 256), word_of_nat (x div 256\<^sup>2),
     word_of_nat (x div 256 ^ 3)]"
proof -
  have "(4::nat) = Suc (Suc (Suc (Suc 0)))" by simp
  then have "le_nat 4 x = le_nat (Suc (Suc (Suc (Suc 0)))) x" by (rule arg_cong)
  then show ?thesis by (simp add: div_mult2_eq [symmetric])
qed

lemma le32_bytes:
  "le32 x = [ucast x, ucast (drop_bit 8 x), ucast (drop_bit 16 x), ucast (drop_bit 24 x)]"
proof -
  have of_nat_ucast: "(word_of_nat (unat y) :: u8) = ucast y" for y :: u32
    by transfer (simp add: take_bit_eq_mod)
  have "(word_of_nat (unat x div 256 ^ k) :: u8) = ucast (drop_bit (8 * k) x)" for k
  proof -
    have "unat x div 256 ^ k = unat (drop_bit (8 * k) x)"
      by (simp only: unat_drop_bit_eq drop_bit_eq_div [of _ "unat x"] power_mult) simp
    then show ?thesis by (simp only: of_nat_ucast)
  qed
  from this [of 1] this [of 2] this [of 3] show ?thesis
    by (simp add: le32_def le_nat_4 of_nat_ucast)
qed

lemma byte_bit_cases:
  assumes "bit v 0 = bit w 0" "bit v 1 = bit w 1" "bit v 2 = bit w 2" "bit v 3 = bit w 3"
    "bit v 4 = bit w 4" "bit v 5 = bit w 5" "bit v 6 = bit w 6" "bit v 7 = bit w 7"
  shows "(v::u8) = w"
proof (rule bit_word_eqI)
  fix n assume "n < LENGTH(8)"
  then have "n \<in> {0, 1, 2, 3, 4, 5, 6, 7}" by (simp, arith)
  then show "bit v n = bit w n" using assms by (elim insertE emptyE) (simp_all only:)
qed

lemma le32_Reverse: "le32 (Reverse n) = rev (le32 n)"
  unfolding le32_bytes rev.simps append.simps list.inject
  by (intro conjI refl byte_bit_cases; simp add: Reverse_def bit_simps)

lemma bit_u8_beyond [simp]: "8 \<le> n \<Longrightarrow> \<not> bit (b :: u8) n"
  by (auto dest: bit_imp_le_length)

lemma Reverse_Reverse: "Reverse (Reverse n) = n"
proof -
  have "le32 (Reverse (Reverse n)) = le32 n" by (simp add: le32_Reverse)
  then show ?thesis by simp
qed

section \<open>Splitting text\<close>

text \<open>
  \<^verbatim>\<open>SeperateString\<close> keeps an offset \<^verbatim>\<open>off\<close> into \<^verbatim>\<open>str\<close>; the model keeps the suffix
  \<^verbatim>\<open>str[off..]\<close>. \<open>skip\<close> is its inner loop over repeated delimiters, \<open>seperate\<close> the
  \<^verbatim>\<open>find\<close> loop with the final token.
\<close>

definition skip :: "char \<Rightarrow> string \<Rightarrow> string" where
  "skip d s = dropWhile (\<lambda>c. c = d) s"

function seperate :: "char \<Rightarrow> string \<Rightarrow> string list" where
  "seperate d s =
     (if d \<in> set s
      then takeWhile (\<lambda>c. c \<noteq> d) s # seperate d (skip d (tl (dropWhile (\<lambda>c. c \<noteq> d) s)))
      else if s \<noteq> [] then [s] else [])"
  by pat_completeness auto
termination
proof (relation "measure (\<lambda>(d, s). length s)")
  show "wf (measure (\<lambda>(d, s). length s))" by simp
next
  fix d :: char and s :: string
  assume "d \<in> set s"
  then have "dropWhile (\<lambda>c. c \<noteq> d) s \<noteq> []" by (auto simp: dropWhile_eq_Nil_conv)
  moreover have "length (dropWhile (\<lambda>c. c \<noteq> d) s) \<le> length s" by (rule length_dropWhile_le)
  moreover have "length (skip d u) \<le> length u" for u unfolding skip_def by (rule length_dropWhile_le)
  moreover have "length (tl u) < length u" if "u \<noteq> []" for u :: string using that by simp
  ultimately have "length (skip d (tl (dropWhile (\<lambda>c. c \<noteq> d) s))) < length s"
    by (meson order_le_less_trans order_less_le_trans)
  then show "((d, skip d (tl (dropWhile (\<lambda>c. c \<noteq> d) s))), d, s) \<in> measure (\<lambda>(d, s). length s)"
    by simp
qed

declare seperate.simps [simp del]

definition SeperateString :: "string list \<Rightarrow> string \<Rightarrow> char \<Rightarrow> nat \<Rightarrow> string list" where
  "SeperateString result str delimiter off = result @ seperate delimiter (skip delimiter (drop off str))"

text \<open>The reference: cut at every delimiter, empty fields included.\<close>

fun fields :: "char \<Rightarrow> string \<Rightarrow> string list" where
  "fields d [] = [[]]"
| "fields d (c # s) =
     (if c = d then [] # fields d s else (c # hd (fields d s)) # tl (fields d s))"

lemma fields_nonempty [simp]: "fields d s \<noteq> []"
  by (cases s) auto

lemma fields_none: "d \<notin> set s \<Longrightarrow> fields d s = [s]"
  by (induction s) auto

lemma fields_step: "d \<notin> set t \<Longrightarrow> fields d (t @ d # u) = t # fields d u"
  by (induction t) auto

lemma fields_skip: "filter (\<lambda>t. t \<noteq> []) (fields d (skip d s)) = filter (\<lambda>t. t \<noteq> []) (fields d s)"
  by (induction s) (auto simp: skip_def)

lemma seperate_fields: "(\<forall>u. s \<noteq> d # u) \<Longrightarrow> seperate d s = filter (\<lambda>t. t \<noteq> []) (fields d s)"
proof (induction d s rule: seperate.induct)
  case (1 d s)
  show ?case
  proof (cases "d \<in> set s")
    case False
    then show ?thesis by (simp add: seperate.simps [of d s] fields_none)
  next
    case True
    then obtain t u where s: "s = t @ d # u" and t: "d \<notin> set t"
      by (meson split_list_first)
    have tw: "takeWhile (\<lambda>c. c \<noteq> d) s = t"
      using t s by (metis (mono_tags, lifting) takeWhile_stop)
    have dw: "dropWhile (\<lambda>c. c \<noteq> d) s = d # u"
      using t s by (metis (mono_tags, lifting) dropWhile_append2 dropWhile.simps(2))
    have "\<forall>v. skip d u \<noteq> d # v"
      unfolding skip_def by (metis (mono_tags, lifting) hd_dropWhile list.distinct(1) list.sel(1))
    then have "seperate d (skip d u) = filter (\<lambda>t. t \<noteq> []) (fields d u)"
      using "1.IH" [OF True] dw by (simp add: fields_skip)
    moreover have "t \<noteq> []" using "1.prems" s by auto
    ultimately show ?thesis
      using True tw dw fields_step [OF t] unfolding s seperate.simps [of d "t @ d # u"] by simp
  qed
qed

text \<open>
  C16. Splitting appends exactly the non-empty fields between delimiters, in order: no token is
  lost, none is empty and none holds a delimiter.
\<close>

theorem SeperateString_fields:
  "SeperateString r s d off = r @ filter (\<lambda>t. t \<noteq> []) (fields d (drop off s))"
proof -
  have "\<forall>v. skip d u \<noteq> d # v" for u
    unfolding skip_def by (metis (mono_tags, lifting) hd_dropWhile list.distinct(1) list.sel(1))
  then show ?thesis by (simp add: SeperateString_def seperate_fields fields_skip)
qed

end
