(* ===== verification/ByteStream.thy ===== *)
theory ByteStream
  imports CText
begin

text \<open>
  \<^verbatim>\<open>Utils::Stream\<close> (src/common/utils/Stream.h), the byte buffer with a read position that
  every packet is parsed from and built in. One definition per member function.

  Sizes are natural numbers: every length added to a position is the size of a type or of a
  buffer in memory, so those sums stay below \<^verbatim>\<open>SIZE_MAX\<close>. \<open>stream_ok\<close> (position within the
  buffer) is the class invariant. A read from a stream that is too short leaves the rest of
  the destination as it was, so the reading operations take the destination's old contents.
\<close>

record stream =
  spos :: nat
  sbuf :: bytes

definition stream_ok :: "stream \<Rightarrow> bool" where
  "stream_ok s \<longleftrightarrow> spos s \<le> length (sbuf s)"

section \<open>Operations\<close>

definition Stream_empty :: stream where
  "Stream_empty = \<lparr>spos = 0, sbuf = []\<rparr>"

definition Stream_bytes :: "bytes \<Rightarrow> stream" where
  "Stream_bytes v = \<lparr>spos = 0, sbuf = v\<rparr>"

definition stream_size :: "stream \<Rightarrow> nat" where
  "stream_size s = length (sbuf s)"

definition stream_left :: "stream \<Rightarrow> nat" where
  "stream_left s = (if spos s \<le> length (sbuf s) then length (sbuf s) - spos s
                    else 2 ^ 64 - (spos s - length (sbuf s)))"

definition stream_isempty :: "stream \<Rightarrow> bool" where
  "stream_isempty s \<longleftrightarrow> sbuf s = []"

definition stream_reset :: "stream \<Rightarrow> stream" where
  "stream_reset s = s\<lparr>spos := 0\<rparr>"

definition stream_clear :: "stream \<Rightarrow> stream" where
  "stream_clear s = stream_reset (s\<lparr>sbuf := []\<rparr>)"

fun first_index :: "u8 \<Rightarrow> nat \<Rightarrow> bytes \<Rightarrow> nat" where
  "first_index b i [] = 2 ^ 64 - 1"
| "first_index b i (x # xs) = (if x = b then i else first_index b (Suc i) xs)"

definition first_of :: "u8 \<Rightarrow> stream \<Rightarrow> nat" where
  "first_of b s = first_index b 0 (sbuf s)"

definition pop_front :: "nat \<Rightarrow> stream \<Rightarrow> stream" where
  "pop_front n s = (if n \<ge> length (sbuf s) then s\<lparr>sbuf := []\<rparr> else s\<lparr>sbuf := drop n (sbuf s)\<rparr>)"

definition stream_remove :: "nat \<Rightarrow> nat \<Rightarrow> stream \<Rightarrow> stream" where
  "stream_remove p n s =
     (if p \<ge> length (sbuf s) then s
      else let n = (if p + n > length (sbuf s) then length (sbuf s) - p else n)
           in s\<lparr>sbuf := take p (sbuf s) @ drop (p + n) (sbuf s)\<rparr>)"

definition append_zero :: "nat \<Rightarrow> stream \<Rightarrow> stream" where
  "append_zero n s = (if n > 0 then s\<lparr>sbuf := sbuf s @ replicate n 0\<rparr> else s)"

definition stream_append :: "bytes \<Rightarrow> stream \<Rightarrow> stream" where
  "stream_append v s = s\<lparr>sbuf := sbuf s @ v\<rparr>"

definition stream_prepend :: "bytes \<Rightarrow> stream \<Rightarrow> stream" where
  "stream_prepend v s = s\<lparr>sbuf := v @ sbuf s\<rparr>"

text \<open>
  \<^verbatim>\<open>read(buf, len)\<close> with \<open>old\<close> the \<^verbatim>\<open>len\<close> bytes at \<^verbatim>\<open>buf\<close>: the new contents of \<^verbatim>\<open>buf\<close>, the
  returned count and the stream.
\<close>

definition stream_read :: "stream \<Rightarrow> bytes \<Rightarrow> bytes \<times> nat \<times> stream" where
  "stream_read s old =
     (let n = (if spos s + length old > length (sbuf s) then length (sbuf s) - spos s else length old)
      in if n = 0 then (old, 0, s)
         else (take n (drop (spos s) (sbuf s)) @ drop n old, n, s\<lparr>spos := spos s + n\<rparr>))"

text \<open>\<^verbatim>\<open>operator>>(T&)\<close> at the widths the program uses, and on \<^verbatim>\<open>std::vector<byte>\<close>.\<close>

definition get_bytes :: "bytes \<Rightarrow> stream \<Rightarrow> bytes \<times> stream" where
  "get_bytes old s = (case stream_read s old of (v, n, s') \<Rightarrow> (v, s'))"

definition get8 :: "u8 \<Rightarrow> stream \<Rightarrow> u8 \<times> stream" where
  "get8 old s = (case get_bytes [old] s of (v, s') \<Rightarrow> (hd v, s'))"

definition get16 :: "u16 \<Rightarrow> stream \<Rightarrow> u16 \<times> stream" where
  "get16 old s = (case get_bytes (le16 old) s of (v, s') \<Rightarrow> (of_le16 v, s'))"

definition get32 :: "u32 \<Rightarrow> stream \<Rightarrow> u32 \<times> stream" where
  "get32 old s = (case get_bytes (le32 old) s of (v, s') \<Rightarrow> (of_le32 v, s'))"

definition get64 :: "u64 \<Rightarrow> stream \<Rightarrow> u64 \<times> stream" where
  "get64 old s = (case get_bytes (le64 old) s of (v, s') \<Rightarrow> (of_le64 v, s'))"

text \<open>\<^verbatim>\<open>operator>>(std::string&)\<close>: up to the next zero byte or the end of the buffer.\<close>

definition get_str :: "stream \<Rightarrow> string \<times> stream" where
  "get_str s =
     (let v = takeWhile (\<lambda>b. b \<noteq> 0) (drop (spos s) (sbuf s)); n = spos s + length v
      in (map char_of_byte v,
          if n = length (sbuf s) then s\<lparr>spos := n\<rparr> else s\<lparr>spos := n + 1\<rparr>))"

definition put8 :: "u8 \<Rightarrow> stream \<Rightarrow> stream" where "put8 v = stream_append [v]"
definition put16 :: "u16 \<Rightarrow> stream \<Rightarrow> stream" where "put16 v = stream_append (le16 v)"
definition put32 :: "u32 \<Rightarrow> stream \<Rightarrow> stream" where "put32 v = stream_append (le32 v)"
definition put64 :: "u64 \<Rightarrow> stream \<Rightarrow> stream" where "put64 v = stream_append (le64 v)"

text \<open>\<^verbatim>\<open>operator<<\<close> of a \<^verbatim>\<open>std::string\<close> (the whole string) and of a \<^verbatim>\<open>char*\<close> (up to its NUL).\<close>

definition str_bytes :: "string \<Rightarrow> bytes" where
  "str_bytes v = map byte_of v @ [0]"

definition put_str :: "string \<Rightarrow> stream \<Rightarrow> stream" where
  "put_str v = stream_append (str_bytes v)"

definition put_cstr :: "string \<Rightarrow> stream \<Rightarrow> stream" where
  "put_cstr v = stream_append (str_bytes (c_str v))"

text \<open>
  The counted vectors of the templates on \<^verbatim>\<open>std::vector<T>\<close>; \<open>get\<close> and \<open>put\<close> are the element
  transfers, \<open>z\<close> the value \<^verbatim>\<open>resize\<close> fills the new elements with.
\<close>

definition put_vec :: "('a \<Rightarrow> stream \<Rightarrow> stream) \<Rightarrow> 'a list \<Rightarrow> stream \<Rightarrow> stream" where
  "put_vec put v s = fold put v (put32 (word_of_nat (length v)) s)"

fun get_many :: "('a \<Rightarrow> stream \<Rightarrow> 'a \<times> stream) \<Rightarrow> 'a \<Rightarrow> nat \<Rightarrow> stream \<Rightarrow> 'a list \<times> stream" where
  "get_many get z 0 s = ([], s)"
| "get_many get z (Suc n) s =
     (case get z s of (x, s') \<Rightarrow> (case get_many get z n s' of (xs, s'') \<Rightarrow> (x # xs, s'')))"

definition get_vec ::
  "('a \<Rightarrow> stream \<Rightarrow> 'a \<times> stream) \<Rightarrow> 'a \<Rightarrow> u32 \<Rightarrow> stream \<Rightarrow> 'a list \<times> stream" where
  "get_vec get z old s = (case get32 old s of (n, s') \<Rightarrow> get_many get z (unat n) s')"

definition stream_skip :: "u32 \<Rightarrow> stream \<Rightarrow> stream" where
  "stream_skip n s = (let p = spos s + unat n in
     s\<lparr>spos := if p > length (sbuf s) then length (sbuf s) else p\<rparr>)"

definition stream_back :: "u32 \<Rightarrow> stream \<Rightarrow> stream" where
  "stream_back n s = s\<lparr>spos := if spos s < unat n then 0 else spos s - unat n\<rparr>"

section \<open>The unread part\<close>

definition rest :: "stream \<Rightarrow> bytes" where
  "rest s = drop (spos s) (sbuf s)"

definition adv :: "nat \<Rightarrow> stream \<Rightarrow> stream" where
  "adv n s = s\<lparr>spos := spos s + n\<rparr>"

lemma rest_adv [simp, codec_simps]: "rest (adv n s) = drop n (rest s)"
  by (simp add: rest_def adv_def add.commute)

lemma adv_adv [simp, codec_simps]: "adv n (adv m s) = adv (m + n) s"
  by (simp add: adv_def add.assoc)

lemma adv_0 [simp, codec_simps]: "adv 0 s = s"
  by (simp add: adv_def)

lemma rest_Stream_bytes [simp, codec_simps]: "rest (Stream_bytes v) = v"
  by (simp add: rest_def Stream_bytes_def)

lemma length_rest: "stream_ok s \<Longrightarrow> length (rest s) = stream_left s"
  by (simp add: rest_def stream_ok_def stream_left_def)

lemma stream_ok_adv: "stream_ok s \<Longrightarrow> n \<le> length (rest s) \<Longrightarrow> stream_ok (adv n s)"
  by (simp add: rest_def stream_ok_def adv_def)

lemma get_bytes_eq:
  assumes "stream_ok s"
  shows "get_bytes old s =
    (let n = min (length old) (length (rest s)) in (take n (rest s) @ drop n old, adv n s))"
  using assms
  by (auto simp: get_bytes_def stream_read_def stream_ok_def rest_def adv_def Let_def min_def)

lemma get_bytes_full: "rest s = v @ r \<Longrightarrow> length old = length v \<Longrightarrow> get_bytes old s = (v, adv (length v) s)"
  by (cases "spos s \<le> length (sbuf s)")
    (auto simp: get_bytes_def stream_read_def rest_def adv_def Let_def
      dest: arg_cong [where f = length])

lemma length_get_bytes [simp]: "length (fst (get_bytes old s)) = length old"
  by (auto simp: get_bytes_def stream_read_def Let_def)

text \<open>A read from a stream that is too short takes what there is and keeps the old tail.\<close>

lemma get32_short:
  assumes "stream_ok s" and "length (rest s) < 4"
  shows "le32 (fst (get32 old s)) = rest s @ drop (length (rest s)) (le32 old)"
    and "rest (snd (get32 old s)) = []"
proof -
  have g: "get_bytes (le32 old) s =
      (rest s @ drop (length (rest s)) (le32 old), adv (length (rest s)) s)"
    using assms by (simp add: get_bytes_eq min_def Let_def)
  then show "rest (snd (get32 old s)) = []" by (simp add: get32_def)
  have "length (rest s @ drop (length (rest s)) (le32 old)) = 4" using assms(2) by simp
  then show "le32 (fst (get32 old s)) = rest s @ drop (length (rest s)) (le32 old)"
    using g by (simp add: get32_def le32_of_le32)
qed

section \<open>The class invariant\<close>

lemma stream_ok_get_bytes: "stream_ok s \<Longrightarrow> stream_ok (snd (get_bytes old s))"
  by (simp add: get_bytes_eq Let_def stream_ok_adv)

lemma stream_ok_get:
  assumes "stream_ok s"
  shows "stream_ok (snd (get8 a s))" "stream_ok (snd (get16 b s))"
    "stream_ok (snd (get32 c s))" "stream_ok (snd (get64 d s))"
  using stream_ok_get_bytes [OF assms, of "[a]"] stream_ok_get_bytes [OF assms, of "le16 b"]
    stream_ok_get_bytes [OF assms, of "le32 c"] stream_ok_get_bytes [OF assms, of "le64 d"]
  by (simp_all add: get8_def get16_def get32_def get64_def case_prod_beta)

lemma stream_ok_get_str: "stream_ok s \<Longrightarrow> stream_ok (snd (get_str s))"
  using length_takeWhile_le [of "\<lambda>b. b \<noteq> 0" "rest s"]
  by (auto simp: get_str_def stream_ok_def Let_def rest_def)

lemma stream_ok_append: "stream_ok s \<Longrightarrow> stream_ok (stream_append v s)"
  by (simp add: stream_ok_def stream_append_def)

lemmas put_defs = put8_def put16_def put32_def put64_def put_str_def put_cstr_def

lemma stream_ok_put:
  assumes "stream_ok s"
  shows "stream_ok (put8 a s)" "stream_ok (put16 b s)" "stream_ok (put32 c s)"
    "stream_ok (put64 d s)" "stream_ok (put_str t s)" "stream_ok (put_cstr t s)"
    "stream_ok (append_zero n s)" "stream_ok (stream_prepend v s)"
  using assms
  by (simp_all add: put_defs stream_append_def append_zero_def stream_prepend_def stream_ok_def)

lemma stream_ok_move:
  assumes "stream_ok s"
  shows "stream_ok (stream_skip n s)" "stream_ok (stream_back n s)"
    "stream_ok (stream_reset s)" "stream_ok (stream_clear s)"
  using assms
  by (auto simp: stream_ok_def stream_skip_def stream_back_def stream_reset_def
      stream_clear_def Let_def)

text \<open>
  \<open>pop_front\<close> and \<open>remove\<close> do not move the position: they keep the invariant on a stream that
  is only appended to and cut, as the receive buffers are.
\<close>

lemma stream_ok_cut:
  assumes "spos s = 0"
  shows "stream_ok (pop_front n s)" "stream_ok (stream_remove p n s)"
    "spos (pop_front n s) = 0" "spos (stream_remove p n s) = 0"
  using assms by (simp_all add: stream_ok_def pop_front_def stream_remove_def Let_def)

lemma sbuf_pop_front [simp, codec_simps]: "sbuf (pop_front n s) = drop n (sbuf s)"
  by (simp add: pop_front_def)

lemma sbuf_remove [simp, codec_simps]:
  "sbuf (stream_remove p n s) = take p (sbuf s) @ drop (p + n) (sbuf s)"
  by (auto simp: stream_remove_def Let_def)

lemma first_index_found:
  "b \<in> set xs \<Longrightarrow> first_index b i xs = i + length (takeWhile (\<lambda>x. x \<noteq> b) xs)"
  by (induction b i xs rule: first_index.induct) auto

lemma first_index_absent: "b \<notin> set xs \<Longrightarrow> first_index b i xs = 2 ^ 64 - 1"
  by (induction b i xs rule: first_index.induct) auto

section \<open>Round trips\<close>

text \<open>
  The contract between a writer and a reader of one kind of field: reading where \<open>enc x\<close> stands
  gives \<open>x\<close> and moves past it. \<open>ok\<close> says which values have such an encoding.
\<close>

locale field_codec =
  fixes enc :: "'a \<Rightarrow> bytes"
    and dec :: "'a \<Rightarrow> stream \<Rightarrow> 'a \<times> stream"
    and ok :: "'a \<Rightarrow> bool"
  assumes dec_enc: "ok x \<Longrightarrow> rest s = enc x @ r \<Longrightarrow> dec old s = (x, adv (length (enc x)) s)"
begin

lemma get_many_enc:
  "(\<And>x. x \<in> set xs \<Longrightarrow> ok x) \<Longrightarrow> rest s = concat (map enc xs) @ r \<Longrightarrow>
     get_many dec z (length xs) s = (xs, adv (length (concat (map enc xs))) s)"
proof (induction xs arbitrary: s)
  case Nil
  then show ?case by simp
next
  case (Cons x xs)
  have "dec z s = (x, adv (length (enc x)) s)"
    using Cons.prems by (intro dec_enc [where r = "concat (map enc xs) @ r"]) simp_all
  moreover have "rest (adv (length (enc x)) s) = concat (map enc xs) @ r"
    using Cons.prems(2) by simp
  ultimately show ?case using Cons.IH [of "adv (length (enc x)) s"] Cons.prems(1) by simp
qed

lemma enc_inject: "ok x \<Longrightarrow> ok y \<Longrightarrow> enc x @ r = enc y @ r' \<Longrightarrow> x = y \<and> r = r'"
  using dec_enc [of x "Stream_bytes (enc x @ r)" r x] dec_enc [of y "Stream_bytes (enc x @ r)" r' x]
  by simp

end

interpretation c8: field_codec "\<lambda>x. [x]" get8 "\<lambda>_. True"
proof
  fix x s r old assume "rest s = [x] @ r"
  then show "get8 old s = (x, adv (length [x]) s)"
    using get_bytes_full [of s "[x]" r "[old]"] by (simp add: get8_def)
qed

interpretation c16: field_codec le16 get16 "\<lambda>_. True"
proof
  fix x s r old assume "rest s = le16 x @ r"
  then show "get16 old s = (x, adv (length (le16 x)) s)"
    using get_bytes_full [of s "le16 x" r "le16 old"] by (simp add: get16_def)
qed

interpretation c32: field_codec le32 get32 "\<lambda>_. True"
proof
  fix x s r old assume "rest s = le32 x @ r"
  then show "get32 old s = (x, adv (length (le32 x)) s)"
    using get_bytes_full [of s "le32 x" r "le32 old"] by (simp add: get32_def)
qed

interpretation c64: field_codec le64 get64 "\<lambda>_. True"
proof
  fix x s r old assume "rest s = le64 x @ r"
  then show "get64 old s = (x, adv (length (le64 x)) s)"
    using get_bytes_full [of s "le64 x" r "le64 old"] by (simp add: get64_def)
qed

text \<open>Strings: those without a NUL of their own come back.\<close>

interpretation cstr: field_codec str_bytes "\<lambda>_. get_str" "\<lambda>x. NUL \<notin> set x"
proof
  fix x s r and old :: string
  assume x: "NUL \<notin> set x" and r: "rest s = str_bytes x @ r"
  have "takeWhile (\<lambda>b. b \<noteq> 0) (map byte_of x @ 0 # r) = map byte_of x"
    using x by (intro takeWhile_stop) auto
  then have t: "takeWhile (\<lambda>b. b \<noteq> 0) (rest s) = map byte_of x"
    using r by (simp add: str_bytes_def)
  have "spos s + length x < length (sbuf s)"
    using arg_cong [OF r, of length] by (simp add: rest_def str_bytes_def)
  then show "get_str s = (x, adv (length (str_bytes x)) s)"
    using t by (simp add: get_str_def rest_def adv_def str_bytes_def Let_def comp_def)
qed

text \<open>Fields that follow each other: the rule a packet's decoder is unfolded with.\<close>

lemmas get_put = c8.dec_enc [OF TrueI] c16.dec_enc [OF TrueI] c32.dec_enc [OF TrueI]
  c64.dec_enc [OF TrueI] cstr.dec_enc

lemma sbuf_put [simp, codec_simps]:
  "sbuf (put8 a s) = sbuf s @ [a]" "sbuf (put16 b s) = sbuf s @ le16 b"
  "sbuf (put32 c s) = sbuf s @ le32 c" "sbuf (put64 d s) = sbuf s @ le64 d"
  "sbuf (put_str t s) = sbuf s @ str_bytes t" "sbuf (put_cstr t s) = sbuf s @ str_bytes (c_str t)"
  "sbuf (stream_append v s) = sbuf s @ v" "sbuf (append_zero n s) = sbuf s @ replicate n 0"
  "sbuf (stream_prepend v s) = v @ sbuf s" "sbuf Stream_empty = []"
  by (simp_all add: put_defs stream_append_def append_zero_def stream_prepend_def Stream_empty_def)

lemma spos_put [simp, frame_simps]:
  "spos (put8 a s) = spos s" "spos (put16 b s) = spos s" "spos (put32 c s) = spos s"
  "spos (put64 d s) = spos s" "spos (put_str t s) = spos s" "spos (put_cstr t s) = spos s"
  "spos (stream_append v s) = spos s" "spos (append_zero n s) = spos s"
  "spos (stream_prepend v s) = spos s" "spos Stream_empty = 0"
  by (simp_all add: put_defs stream_append_def append_zero_def stream_prepend_def Stream_empty_def)

lemma sbuf_fold_put32: "sbuf (fold put32 v s) = sbuf s @ concat (map le32 v)"
  by (induction v arbitrary: s) auto

lemma spos_fold_put32: "spos (fold put32 v s) = spos s"
  by (induction v arbitrary: s) auto

text \<open>
  A message as a list of fields of any kinds, written with \<^verbatim>\<open>operator<<\<close> in order and read back
  with \<^verbatim>\<open>operator>>\<close> into destinations of the same kinds.
\<close>

datatype fld = F8 u8 | F16 u16 | F32 u32 | F64 u64 | FStr string | FBytes bytes

fun put_fld :: "fld \<Rightarrow> stream \<Rightarrow> stream" where
  "put_fld (F8 v) = put8 v"
| "put_fld (F16 v) = put16 v"
| "put_fld (F32 v) = put32 v"
| "put_fld (F64 v) = put64 v"
| "put_fld (FStr v) = put_str v"
| "put_fld (FBytes v) = stream_append v"

fun get_fld :: "fld \<Rightarrow> stream \<Rightarrow> fld \<times> stream" where
  "get_fld (F8 old) s = map_prod F8 id (get8 old s)"
| "get_fld (F16 old) s = map_prod F16 id (get16 old s)"
| "get_fld (F32 old) s = map_prod F32 id (get32 old s)"
| "get_fld (F64 old) s = map_prod F64 id (get64 old s)"
| "get_fld (FStr old) s = map_prod FStr id (get_str s)"
| "get_fld (FBytes old) s = map_prod FBytes id (get_bytes old s)"

fun get_flds :: "fld list \<Rightarrow> stream \<Rightarrow> fld list \<times> stream" where
  "get_flds [] s = ([], s)"
| "get_flds (f # fs) s =
     (case get_fld f s of (v, s') \<Rightarrow> (case get_flds fs s' of (vs, s'') \<Rightarrow> (v # vs, s'')))"

text \<open>A destination fits a value: the same kind, the same length for a byte array; no NUL in strings.\<close>

fun fits :: "fld \<Rightarrow> fld \<Rightarrow> bool" where
  "fits (F8 _) (F8 _) = True"
| "fits (F16 _) (F16 _) = True"
| "fits (F32 _) (F32 _) = True"
| "fits (F64 _) (F64 _) = True"
| "fits (FStr _) (FStr v) = (NUL \<notin> set v)"
| "fits (FBytes old) (FBytes v) = (length old = length v)"
| "fits _ _ = False"

fun fld_bytes :: "fld \<Rightarrow> bytes" where
  "fld_bytes (F8 v) = [v]"
| "fld_bytes (F16 v) = le16 v"
| "fld_bytes (F32 v) = le32 v"
| "fld_bytes (F64 v) = le64 v"
| "fld_bytes (FStr v) = str_bytes v"
| "fld_bytes (FBytes v) = v"

lemma put_fld_eq: "put_fld f s = stream_append (fld_bytes f) s"
  by (cases f) (simp_all add: put_defs)

lemma put_flds_eq: "fold put_fld fs s = stream_append (concat (map fld_bytes fs)) s"
  by (induction fs arbitrary: s) (simp_all add: put_fld_eq stream_append_def)

lemma get_fld_eq: "fits old f \<Longrightarrow> rest s = fld_bytes f @ r \<Longrightarrow> get_fld old s = (f, adv (length (fld_bytes f)) s)"
  by (cases "(old, f)" rule: fits.cases) (simp_all add: get_put get_bytes_full)

lemma get_flds_eq:
  "list_all2 fits olds fs \<Longrightarrow> rest s = concat (map fld_bytes fs) @ r \<Longrightarrow>
    get_flds olds s = (fs, adv (length (concat (map fld_bytes fs))) s)"
proof (induction olds fs arbitrary: s rule: list_all2_induct)
  case Nil
  then show ?case by simp
next
  case (Cons old olds f fs)
  have "get_fld old s = (f, adv (length (fld_bytes f)) s)"
    using Cons by (intro get_fld_eq) auto
  then show ?case using Cons.IH [of "adv (length (fld_bytes f)) s"] Cons.prems by simp
qed

text \<open>
  C14. Whatever fields are written to a stream whose contents have been read, reading them back
  into destinations of the same kinds returns them all and consumes the stream exactly.
\<close>

theorem fields_round_trip:
  assumes "stream_ok s" and "stream_left s = 0" and "list_all2 fits olds fs"
  shows "fst (get_flds olds (fold put_fld fs s)) = fs \<and>
    stream_left (snd (get_flds olds (fold put_fld fs s))) = 0"
proof -
  let ?b = "concat (map fld_bytes fs)" and ?s = "fold put_fld fs s"
  have e: "rest s = []" using assms(1,2) by (metis length_0_conv length_rest)
  then have p: "spos s = length (sbuf s)" using assms(1) by (simp add: rest_def stream_ok_def)
  then have "rest ?s = ?b @ []" by (simp add: put_flds_eq rest_def)
  from get_flds_eq [OF assms(3) this] have g: "get_flds olds ?s = (fs, adv (length ?b) ?s)" .
  show ?thesis
    unfolding g using p by (simp add: put_flds_eq stream_left_def adv_def)
qed

theorem fields_round_trip_witness:
  "fst (get_flds [F32 0, FStr [], F8 7, FBytes [0, 0]]
     (fold put_fld [F32 0xDEADBEEF, FStr ''War3'', F8 1, FBytes [5, 6]] Stream_empty))
   = [F32 0xDEADBEEF, FStr ''War3'', F8 1, FBytes [5, 6]]"
  by (rule fields_round_trip [THEN conjunct1]) (simp_all add: stream_ok_def stream_left_def Stream_empty_def NUL_def)

end
