(* ===== verification/Crc.thy ===== *)
theory Crc
  imports ByteStream
begin

text \<open>
  \<^verbatim>\<open>Crypto::CRC32\<close> (src/common/crypto/Crc32.cpp): the table its constructor fills, the
  table-driven checksum and the checksum of a file. The lemmas show that the table-driven loop
  is the bit-by-bit division it stands for.
\<close>

definition poly :: u32 where
  "poly = 0xEDB88320"

definition crc_bit :: "u32 \<Rightarrow> u32" where
  "crc_bit crc = (if crc AND 1 \<noteq> 0 then drop_bit 1 crc XOR poly else drop_bit 1 crc)"

definition crc32_table :: "u32 list" where
  "crc32_table = map (\<lambda>i. (crc_bit ^^ 8) (word_of_nat i)) [0..<256]"

fun crc_loop :: "bytes \<Rightarrow> u32 \<Rightarrow> u32" where
  "crc_loop [] crc = crc"
| "crc_loop (b # data) crc =
     crc_loop data (drop_bit 8 crc XOR crc32_table ! unat (ucast b XOR (crc AND 0xFF)))"

definition CalcData :: "bytes \<Rightarrow> u32 \<Rightarrow> u32" where
  "CalcData data initial = NOT (crc_loop data initial)"

text \<open>
  \<^verbatim>\<open>CalcFile\<close>: \<open>file\<close> is what \<^verbatim>\<open>FileStream::Open\<close> finds (None: it fails) and \<open>alloc n\<close> whether
  \<^verbatim>\<open>_MEM.Alloc(n)\<close> returns memory. The size is cut to 32 bits.
\<close>

definition CalcFile :: "(u32 \<Rightarrow> bool) \<Rightarrow> bytes option \<Rightarrow> u32" where
  "CalcFile alloc file =
     (case file of None \<Rightarrow> 0
      | Some d \<Rightarrow> let size = (word_of_nat (length d) :: u32)
                  in if alloc size then CalcData (take (unat size) d) 0xFFFFFFFF else 0)"

section \<open>The bitwise reference\<close>

fun crc_bits :: "bytes \<Rightarrow> u32 \<Rightarrow> u32" where
  "crc_bits [] crc = crc"
| "crc_bits (b # data) crc = crc_bits data ((crc_bit ^^ 8) (crc XOR ucast b))"

lemma crc_bit_alt: "crc_bit x = drop_bit 1 x XOR (if bit x 0 then poly else 0)"
  by (simp add: crc_bit_def and_one_eq bit_0 odd_iff_mod_2_eq_one)

lemma crc_bit_xor: "crc_bit (x XOR y) = crc_bit x XOR crc_bit y"
  by (rule bit_word_eqI) (auto simp: crc_bit_alt bit_simps)

lemma crc_steps_xor: "(crc_bit ^^ n) (x XOR y) = (crc_bit ^^ n) x XOR (crc_bit ^^ n) y"
  by (induction n) (simp_all add: crc_bit_xor)

lemma crc_steps_high:
  "(\<And>j. j < n \<Longrightarrow> \<not> bit x j) \<Longrightarrow> (crc_bit ^^ n) x = drop_bit n x"
proof (induction n)
  case 0
  show ?case by simp
next
  case (Suc n)
  have "\<not> bit (drop_bit n x) 0" using Suc.prems [of n] by (simp add: bit_simps)
  then show ?case using Suc by (simp add: crc_bit_alt)
qed

lemma table_entry: "crc32_table ! unat (x AND 0xFF) = (crc_bit ^^ 8) (x AND 0xFF)"
proof -
  have "unat (x AND 0xFF) < 256"
  proof -
    have "(0xFF :: u32) = mask 8" by (simp add: mask_eq_exp_minus_1)
    then have "x AND 0xFF = take_bit 8 x" by (simp only: take_bit_eq_mask)
    then show ?thesis by (simp only: unsigned_take_bit_eq take_bit_eq_mod [of 8 "unat x"]) simp
  qed
  then show ?thesis by (simp add: crc32_table_def)
qed

lemma crc_byte:
  "drop_bit 8 crc XOR crc32_table ! unat (ucast b XOR (crc AND 0xFF)) = (crc_bit ^^ 8) (crc XOR ucast b)"
  for b :: u8
proof -
  let ?x = "crc XOR ucast b" and ?hi = "crc AND NOT 0xFF"
  have ff: "(0xFF :: u32) = mask 8" by (simp add: mask_eq_exp_minus_1)
  have b8: "bit b j \<Longrightarrow> j < 8" for j using bit_imp_le_length [of b j] by simp
  have c32: "bit crc (8 + j) \<Longrightarrow> j < 24" for j using bit_imp_le_length [of crc "8 + j"] by simp
  have lo: "ucast b XOR (crc AND 0xFF) = ?x AND 0xFF" and x: "?x = ?hi XOR (?x AND 0xFF)"
    unfolding ff by (auto intro!: bit_word_eqI simp: bit_simps dest: b8)
  have "(crc_bit ^^ 8) ?hi = drop_bit 8 ?hi"
    unfolding ff by (rule crc_steps_high) (simp add: bit_simps)
  also have "\<dots> = drop_bit 8 crc"
    unfolding ff by (rule bit_word_eqI) (auto simp: bit_simps dest: c32)
  finally show ?thesis
    unfolding lo table_entry by (metis crc_steps_xor x)
qed

lemma crc_loop_bits: "crc_loop data crc = crc_bits data crc"
  by (induction data crc rule: crc_loop.induct) (simp_all add: crc_byte)

text \<open>C15. The table-driven checksum of a buffer is the bit-by-bit one, for every start value.\<close>

theorem CalcData_bitwise: "CalcData data initial = NOT (crc_bits data initial)"
  by (simp add: CalcData_def crc_loop_bits)

end
