(* ===== verification/World.thy ===== *)
theory World
  imports ByteStream
begin

text \<open>
  The state of a running server as one record: the objects of the caches (users, channels,
  games), the connected clients, the lookup maps over them, what has been sent and what has
  been executed on the database. Objects live in lists, an address is an index; a deleted
  object leaves \<open>None\<close>. A NULL pointer is \<open>None\<close>, any other pointer \<open>Some\<close> an address.

  \<open>env\<close> collects what the program gets from outside: the C library's random numbers and clock,
  the contents of memory that was not initialised, files, and the answers of SQLite.

  An operation is a function from the state to a fault or a result with the new state; the
  combinators below compose operations the way statements follow each other. \<open>wp\<close> is the
  weakest precondition of an operation that must not fault.
\<close>

section \<open>Objects\<close>

record friend_t =
  mutual :: bool
  fuser :: "nat option"

record user_item =
  u_dirty :: bool
  u_id :: u32
  u_username :: string
  u_mail :: string
  u_salt :: bytes
  u_verifier :: bytes
  u_passwd :: bytes
  u_flag :: u32
  u_friend_dirty :: bool
  u_friend_list :: "friend_t list"
  u_data_map :: "(string \<times> string) list"

record channel_item =
  ch_connset :: "nat list"
  ch_name :: string
  ch_short :: string
  ch_gameid :: u32
  ch_flag :: u32
  ch_maxUser :: u32
  ch_byCountry :: bool
  ch_byIndex :: bool
  ch_spawned :: bool

record game_item =
  g_name :: string
  g_flag :: u32
  g_stime :: u32
  g_type :: u32
  g_option :: u32
  g_ladder :: u32
  g_passwd :: string
  g_stat :: string
  g_broadcast :: bool
  g_host :: "nat option"
  g_connlist :: "nat list"

datatype stage = CONNECTED | BNET | BNET_LOGGEDIN | FILETRANS | FILERAW | BAAL

record client =
  c_stage :: stage
  c_platform :: u32
  c_gameid :: u32
  c_version :: u32
  c_gamelang :: u32
  c_natip :: u32
  c_tzone :: u32
  c_locale :: u32
  c_language :: u32
  c_gameIp :: u32
  c_gamePort :: u16
  c_check_sid :: u32
  c_checkTick :: u32
  c_latency :: u32
  c_protocolVer :: u8
  c_session :: u32
  c_token :: u32
  c_flag :: u32
  c_countryab :: string
  c_country :: string
  c_user :: "nat option"
  c_game :: "nat option"
  c_channel :: "nat option"
  c_stats :: string
  c_server_proof :: bytes
  c_client_proof :: bytes
  c_dnd :: string
  c_away :: string
  c_lastWhisper :: string

record realm_item =
  r_name :: string
  r_desc :: string
  r_port :: u16
  r_ip :: u32

record file_item =
  f_data :: bytes
  f_ft :: u64

section \<open>The state\<close>

record world =
  users :: "user_item list"
  next_uid :: u32
  user_count :: u32
  name_map :: "(string \<times> nat) list"
  id_map :: "(u32 \<times> nat) list"
  channels :: "channel_item list"
  channelmap :: "(string \<times> nat) list"
  game_channelmap :: "(u32 \<times> nat list) list"
  games :: "game_item option list"
  game_map :: "(string \<times> nat) list"
  clients :: "client option list"
  clientMap :: "(string \<times> nat) list"
  tokenMap :: "(u32 \<times> nat) list"
  current_session :: u32
  realmMap :: "(string \<times> realm_item) list"
  file_map :: "(string \<times> file_item) list"
  newsmap :: "(u32 \<times> string) list"
  motd :: string
  sent :: "(nat \<times> bytes) list"
  closing :: "nat list"
  sql :: "string list"
  nrand :: nat
  nticks :: nat
  ngmp :: nat
  udp_sent :: "(u32 \<times> u16 \<times> bytes) list"

datatype column = CNull | CInt int | CFloat u64 | CText string | CBlob bytes

record env =
  c_rand :: "nat \<Rightarrow> u32"
  c_ticks :: "nat \<Rightarrow> u32"
  uninit :: "string \<Rightarrow> nat \<Rightarrow> u8"
  disk :: "string \<Rightarrow> (bytes \<times> u64) option"
  sql_exec :: "string list \<Rightarrow> string \<Rightarrow> bool"
  sql_query :: "string list \<Rightarrow> string \<Rightarrow> column list list option"
  time_now :: u32
  fmt_real :: "u64 \<Rightarrow> string"

text \<open>The contents of an uninitialised local or member array of \<open>n\<close> bytes.\<close>

definition fresh :: "env \<Rightarrow> string \<Rightarrow> nat \<Rightarrow> bytes" where
  "fresh e v n = map (uninit e v) [0..<n]"

definition fresh32 :: "env \<Rightarrow> string \<Rightarrow> u32" where
  "fresh32 e v = of_le32 (fresh e v 4)"

definition fresh16 :: "env \<Rightarrow> string \<Rightarrow> u16" where
  "fresh16 e v = of_le16 (fresh e v 2)"

definition fresh8 :: "env \<Rightarrow> string \<Rightarrow> u8" where
  "fresh8 e v = uninit e v 0"

definition fresh64 :: "env \<Rightarrow> string \<Rightarrow> u64" where
  "fresh64 e v = of_le64 (fresh e v 8)"

section \<open>Operations on the state\<close>

type_synonym 'a M = "world \<Rightarrow> ('a \<times> world) res"

definition ret :: "'a \<Rightarrow> 'a M" where
  "ret x w = Inr (x, w)"

definition fail :: "fault \<Rightarrow> 'a M" where
  "fail f w = Inl f"

definition bind :: "'a M \<Rightarrow> ('a \<Rightarrow> 'b M) \<Rightarrow> 'b M" where
  "bind m k w = (case m w of Inl f \<Rightarrow> Inl f | Inr (x, w') \<Rightarrow> k x w')"

definition seq :: "'a M \<Rightarrow> 'b M \<Rightarrow> 'b M" where
  "seq m n = bind m (\<lambda>_. n)"

definition gets :: "(world \<Rightarrow> 'a) \<Rightarrow> 'a M" where
  "gets f w = Inr (f w, w)"

definition modify :: "(world \<Rightarrow> world) \<Rightarrow> unit M" where
  "modify f w = Inr ((), f w)"

definition whenM :: "bool \<Rightarrow> unit M \<Rightarrow> unit M" where
  "whenM b m = (if b then m else ret ())"

primrec forM :: "'a list \<Rightarrow> ('a \<Rightarrow> unit M) \<Rightarrow> unit M" where
  "forM [] k = ret ()"
| "forM (x # xs) k = seq (k x) (forM xs k)"

text \<open>Pointers: following NULL and following a pointer to a deleted object are faults.\<close>

definition the_ptr :: "nat option \<Rightarrow> nat M" where
  "the_ptr p = (case p of None \<Rightarrow> fail NullDeref | Some a \<Rightarrow> ret a)"

definition client_at :: "nat \<Rightarrow> client M" where
  "client_at a w = (if a < length (clients w)
     then case clients w ! a of None \<Rightarrow> Inl Dangling | Some c \<Rightarrow> Inr (c, w) else Inl Dangling)"

definition user_at :: "nat \<Rightarrow> user_item M" where
  "user_at a w = (if a < length (users w) then Inr (users w ! a, w) else Inl Dangling)"

definition channel_at :: "nat \<Rightarrow> channel_item M" where
  "channel_at a w = (if a < length (channels w) then Inr (channels w ! a, w) else Inl Dangling)"

definition game_at :: "nat \<Rightarrow> game_item M" where
  "game_at a w = (if a < length (games w)
     then case games w ! a of None \<Rightarrow> Inl Dangling | Some g \<Rightarrow> Inr (g, w) else Inl Dangling)"

definition upd_client :: "nat \<Rightarrow> (client \<Rightarrow> client) \<Rightarrow> unit M" where
  "upd_client a f = bind (client_at a) (\<lambda>c. modify (\<lambda>w. w\<lparr>clients := (clients w)[a := Some (f c)]\<rparr>))"

definition upd_user :: "nat \<Rightarrow> (user_item \<Rightarrow> user_item) \<Rightarrow> unit M" where
  "upd_user a f = bind (user_at a) (\<lambda>u. modify (\<lambda>w. w\<lparr>users := (users w)[a := f u]\<rparr>))"

definition upd_channel :: "nat \<Rightarrow> (channel_item \<Rightarrow> channel_item) \<Rightarrow> unit M" where
  "upd_channel a f =
     bind (channel_at a) (\<lambda>c. modify (\<lambda>w. w\<lparr>channels := (channels w)[a := f c]\<rparr>))"

definition upd_game :: "nat \<Rightarrow> (game_item \<Rightarrow> game_item) \<Rightarrow> unit M" where
  "upd_game a f = bind (game_at a) (\<lambda>g. modify (\<lambda>w. w\<lparr>games := (games w)[a := Some (f g)]\<rparr>))"

text \<open>\<^verbatim>\<open>TcpClient::Send\<close>: the bytes are queued on the client's connection.\<close>

definition Send :: "nat \<Rightarrow> bytes \<Rightarrow> unit M" where
  "Send a v = bind (client_at a) (\<lambda>_. modify (\<lambda>w. w\<lparr>sent := sent w @ [(a, v)]\<rparr>))"

text \<open>\<^verbatim>\<open>GetRandom32\<close> (three values of \<^verbatim>\<open>rand\<close>, taken from left to right) and \<^verbatim>\<open>GetTicks\<close>.\<close>

definition rand32 :: "env \<Rightarrow> nat \<Rightarrow> u32" where
  "rand32 e n = (c_rand e n AND 0xFFF) + push_bit 12 (c_rand e (n + 1) AND 0xFFF)
     + push_bit 24 (c_rand e (n + 2) AND 0xFF)"

definition GetRandom32 :: "env \<Rightarrow> u32 M" where
  "GetRandom32 e w = Inr (rand32 e (nrand w), w\<lparr>nrand := nrand w + 3\<rparr>)"

definition GetTicks :: "env \<Rightarrow> u32 M" where
  "GetTicks e w = Inr (c_ticks e (nticks w), w\<lparr>nticks := nticks w + 1\<rparr>)"

lemma bind_ret [simp]: "bind (ret x) k = k x"
  by (simp add: bind_def ret_def fun_eq_iff)

lemma bind_assoc: "bind (bind m k) h = bind m (\<lambda>x. bind (k x) h)"
  by (auto simp: bind_def fun_eq_iff split: sum.splits)

section \<open>Weakest preconditions\<close>

definition wp :: "'a M \<Rightarrow> ('a \<Rightarrow> world \<Rightarrow> bool) \<Rightarrow> world \<Rightarrow> bool" where
  "wp m Q w = (case m w of Inl _ \<Rightarrow> False | Inr (x, w') \<Rightarrow> Q x w')"

named_theorems wps \<open>weakest preconditions of the operations\<close>

lemma wp_ret [wps, simp]: "wp (ret x) Q w = Q x w"
  by (simp add: wp_def ret_def)

lemma wp_ret_eta [simp]: "wp (ret x) Q = Q x"
  by (simp add: fun_eq_iff)

lemma wp_fail [wps, simp]: "wp (fail f) Q w = False"
  by (simp add: wp_def fail_def)

lemma wp_bind [wps, simp]: "wp (bind m k) Q w = wp m (\<lambda>x. wp (k x) Q) w"
  by (auto simp: wp_def bind_def split: sum.splits)

lemma wp_seq [wps, simp]: "wp (seq m n) Q w = wp m (\<lambda>_. wp n Q) w"
  by (simp add: seq_def)

lemma wp_gets [wps, simp]: "wp (gets f) Q w = Q (f w) w"
  by (simp add: wp_def gets_def)

lemma wp_modify [wps, simp]: "wp (modify f) Q w = Q () (f w)"
  by (simp add: wp_def modify_def)

lemma wp_whenM [wps, simp]: "wp (whenM b m) Q w = (if b then wp m Q w else Q () w)"
  by (simp add: whenM_def)

lemma wp_the_ptr [wps, simp]: "wp (the_ptr p) Q w = (case p of None \<Rightarrow> False | Some a \<Rightarrow> Q a w)"
  by (simp add: the_ptr_def split: option.split)

lemma wp_if: "wp (if b then m else n) Q w = (if b then wp m Q w else wp n Q w)"
  by simp

lemma wp_run: "wp m Q w \<longleftrightarrow> (\<exists>x w'. m w = Inr (x, w') \<and> Q x w')"
  by (auto simp: wp_def split: sum.splits)

lemma wp_mono: "wp m Q w \<Longrightarrow> (\<And>x w'. Q x w' \<Longrightarrow> R x w') \<Longrightarrow> wp m R w"
  by (auto simp: wp_run)

lemma wp_run_mono: "wp m Q w \<Longrightarrow> (\<And>x w'. m w = Inr (x, w') \<Longrightarrow> Q x w' \<Longrightarrow> R x w') \<Longrightarrow> wp m R w"
  by (auto simp: wp_run)

lemma wp_conj: "wp m Q w \<Longrightarrow> wp m R w \<Longrightarrow> wp m (\<lambda>x w'. Q x w' \<and> R x w') w"
  by (auto simp: wp_run)

lemma wp_seqI: "wp m (\<lambda>_. R) w \<Longrightarrow> (\<And>v. R v \<Longrightarrow> wp n Q v) \<Longrightarrow> wp (seq m n) Q w"
  unfolding wp_seq by (rule wp_mono)

lemma wp_bindI: "wp m R w \<Longrightarrow> (\<And>x v. R x v \<Longrightarrow> wp (k x) Q v) \<Longrightarrow> wp (bind m k) Q w"
  unfolding wp_bind by (rule wp_mono)

lemma wp_forM_inv:
  assumes "I w" and "\<And>x v. x \<in> set xs \<Longrightarrow> I v \<Longrightarrow> wp (k x) (\<lambda>_. I) v"
  shows "wp (forM xs k) (\<lambda>_. I) w"
  using assms
proof (induction xs arbitrary: w)
  case Nil
  then show ?case by simp
next
  case (Cons x xs)
  have "wp (k x) (\<lambda>_. I) w" using Cons.prems by simp
  then show ?case
    unfolding forM.simps wp_seq by (rule wp_mono) (rule Cons.IH, use Cons.prems(2) in auto)
qed

text \<open>
  \<open>sf F m Q w\<close>: from \<open>w\<close> the operation either faults with one of the faults \<open>F\<close> or ends with \<open>Q\<close>.
  With no fault allowed this is \<open>wp\<close>.
\<close>

definition sf :: "fault set \<Rightarrow> 'a M \<Rightarrow> ('a \<Rightarrow> world \<Rightarrow> bool) \<Rightarrow> world \<Rightarrow> bool" where
  "sf F m Q w = (case m w of Inl f \<Rightarrow> f \<in> F | Inr (x, w') \<Rightarrow> Q x w')"

lemma sf_none: "sf {} m Q w = wp m Q w"
  by (simp add: sf_def wp_def split: sum.split)

lemma sf_of_wp: "wp m Q w \<Longrightarrow> sf F m Q w"
  by (auto simp: sf_def wp_def split: sum.splits)

lemma sf_ret [simp]: "sf F (ret x) Q w = Q x w"
  by (simp add: sf_def ret_def)

lemma sf_fail [simp]: "sf F (fail f) Q w = (f \<in> F)"
  by (simp add: sf_def fail_def)

lemma sf_bind [simp]: "sf F (bind m k) Q w = sf F m (\<lambda>x. sf F (k x) Q) w"
  by (auto simp: sf_def bind_def split: sum.splits)

lemma sf_seq [simp]: "sf F (seq m n) Q w = sf F m (\<lambda>_. sf F n Q) w"
  by (simp add: seq_def)

lemma sf_gets [simp]: "sf F (gets f) Q w = Q (f w) w"
  by (simp add: sf_def gets_def)

lemma sf_modify [simp]: "sf F (modify f) Q w = Q () (f w)"
  by (simp add: sf_def modify_def)

lemma sf_whenM [simp]: "sf F (whenM b m) Q w = (if b then sf F m Q w else Q () w)"
  by (simp add: whenM_def)

lemma sf_the_ptr [simp]: "sf F (the_ptr p) Q w = (case p of None \<Rightarrow> NullDeref \<in> F | Some a \<Rightarrow> Q a w)"
  by (simp add: the_ptr_def split: option.split)

lemma sf_run: "sf F m Q w \<longleftrightarrow> (\<exists>f\<in>F. m w = Inl f) \<or> (\<exists>x w'. m w = Inr (x, w') \<and> Q x w')"
  by (auto simp: sf_def split: sum.splits)

lemma sf_mono: "sf F m Q w \<Longrightarrow> (\<And>x w'. Q x w' \<Longrightarrow> R x w') \<Longrightarrow> sf F m R w"
  by (auto simp: sf_run)

lemma sf_more: "sf F m Q w \<Longrightarrow> F \<subseteq> F' \<Longrightarrow> sf F' m Q w"
  by (auto simp: sf_run)

lemma sf_bindI: "sf F m R w \<Longrightarrow> (\<And>x v. R x v \<Longrightarrow> sf F (k x) Q v) \<Longrightarrow> sf F (bind m k) Q w"
  unfolding sf_bind by (rule sf_mono)

lemma sf_seqI: "sf F m (\<lambda>_. R) w \<Longrightarrow> (\<And>v. R v \<Longrightarrow> sf F n Q v) \<Longrightarrow> sf F (seq m n) Q w"
  unfolding sf_seq by (rule sf_mono)

lemma sf_forM_inv:
  assumes "I w" and "\<And>x v. x \<in> set xs \<Longrightarrow> I v \<Longrightarrow> sf F (k x) (\<lambda>_. I) v"
  shows "sf F (forM xs k) (\<lambda>_. I) w"
  using assms
proof (induction xs arbitrary: w)
  case Nil
  then show ?case by simp
next
  case (Cons x xs)
  have "sf F (k x) (\<lambda>_. I) w" using Cons.prems by simp
  then show ?case
    unfolding forM.simps sf_seq by (rule sf_mono) (rule Cons.IH, use Cons.prems(2) in auto)
qed

text \<open>
  A component whose requests keep an invariant and do not fault: any sequence of requests runs to
  the end and leaves the invariant.
\<close>

locale safe_ops =
  fixes inv :: "world \<Rightarrow> bool" and step :: "'r \<Rightarrow> unit M"
  assumes step_ok: "inv w \<Longrightarrow> wp (step r) (\<lambda>_. inv) w"
begin

lemma run_ok: "inv w \<Longrightarrow> wp (forM rs step) (\<lambda>_. inv) w"
  by (rule wp_forM_inv) (simp_all add: step_ok)

lemma run_result: "inv w \<Longrightarrow> \<exists>v. forM rs step w = Inr ((), v) \<and> inv v"
  using run_ok by (auto simp: wp_run)

end

text \<open>The same for requests that may also end in one of the faults \<open>F\<close>.\<close>

locale guarded_ops =
  fixes F :: "fault set" and inv :: "world \<Rightarrow> bool" and step :: "'r \<Rightarrow> unit M"
  assumes step_guarded: "inv w \<Longrightarrow> sf F (step r) (\<lambda>_. inv) w"
begin

lemma run_guarded: "inv w \<Longrightarrow> sf F (forM rs step) (\<lambda>_. inv) w"
  by (rule sf_forM_inv) (simp_all add: step_guarded)

lemma run_outcome: "inv w \<Longrightarrow> (\<exists>f\<in>F. forM rs step w = Inl f) \<or> (\<exists>v. forM rs step w = Inr ((), v) \<and> inv v)"
  using run_guarded [of w rs] by (auto simp: sf_run)

end

definition live_client :: "world \<Rightarrow> nat \<Rightarrow> bool" where
  "live_client w a \<longleftrightarrow> a < length (clients w) \<and> clients w ! a \<noteq> None"

definition the_client :: "world \<Rightarrow> nat \<Rightarrow> client" where
  "the_client w a = the (clients w ! a)"

definition live_game :: "world \<Rightarrow> nat \<Rightarrow> bool" where
  "live_game w a \<longleftrightarrow> a < length (games w) \<and> games w ! a \<noteq> None"

definition the_game :: "world \<Rightarrow> nat \<Rightarrow> game_item" where
  "the_game w a = the (games w ! a)"

lemma wp_client_at [wps, simp]: "wp (client_at a) Q w = (live_client w a \<and> Q (the_client w a) w)"
  by (auto simp: wp_def client_at_def live_client_def the_client_def split: option.splits)

lemma wp_user_at [wps, simp]: "wp (user_at a) Q w = (a < length (users w) \<and> Q (users w ! a) w)"
  by (simp add: wp_def user_at_def)

lemma wp_channel_at [wps, simp]:
  "wp (channel_at a) Q w = (a < length (channels w) \<and> Q (channels w ! a) w)"
  by (simp add: wp_def channel_at_def)

lemma wp_game_at [wps, simp]: "wp (game_at a) Q w = (live_game w a \<and> Q (the_game w a) w)"
  by (auto simp: wp_def game_at_def live_game_def the_game_def split: option.splits)

lemma wp_upd_client [wps, simp]: "wp (upd_client a f) Q w =
    (live_client w a \<and> Q () (w\<lparr>clients := (clients w)[a := Some (f (the_client w a))]\<rparr>))"
  by (simp add: upd_client_def)

lemma wp_upd_user [wps, simp]: "wp (upd_user a f) Q w =
    (a < length (users w) \<and> Q () (w\<lparr>users := (users w)[a := f (users w ! a)]\<rparr>))"
  by (simp add: upd_user_def)

lemma wp_upd_channel [wps, simp]: "wp (upd_channel a f) Q w =
    (a < length (channels w) \<and> Q () (w\<lparr>channels := (channels w)[a := f (channels w ! a)]\<rparr>))"
  by (simp add: upd_channel_def)

lemma wp_upd_game [wps, simp]: "wp (upd_game a f) Q w =
    (live_game w a \<and> Q () (w\<lparr>games := (games w)[a := Some (f (the_game w a))]\<rparr>))"
  by (simp add: upd_game_def)

lemma wp_Send [wps, simp]: "wp (Send a v) Q w = (live_client w a \<and> Q () (w\<lparr>sent := sent w @ [(a, v)]\<rparr>))"
  by (simp add: Send_def)

lemma wp_GetRandom32 [wps, simp]: "wp (GetRandom32 e) Q w = Q (rand32 e (nrand w)) (w\<lparr>nrand := nrand w + 3\<rparr>)"
  by (simp add: wp_def GetRandom32_def)

lemma wp_GetTicks [wps, simp]: "wp (GetTicks e) Q w = Q (c_ticks e (nticks w)) (w\<lparr>nticks := nticks w + 1\<rparr>)"
  by (simp add: wp_def GetTicks_def)

lemma sf_objects [simp]:
  "live_client w a \<Longrightarrow> sf F (client_at a) Q w = Q (the_client w a) w"
  "p < length (users w) \<Longrightarrow> sf F (user_at p) R w = R (users w ! p) w"
  "ch < length (channels w) \<Longrightarrow> sf F (channel_at ch) S w = S (channels w ! ch) w"
  "live_game w g \<Longrightarrow> sf F (game_at g) T w = T (the_game w g) w"
  by (auto simp: sf_def client_at_def live_client_def the_client_def user_at_def channel_at_def
      game_at_def live_game_def the_game_def split: option.splits)

lemma live_client_upd [simp, frame_simps]:
  "live_client (w\<lparr>clients := (clients w)[a := Some c]\<rparr>) b \<longleftrightarrow> (live_client w b \<or> a = b \<and> a < length (clients w))"
  by (cases "a = b") (auto simp: live_client_def)

lemma the_client_upd [simp, frame_simps]:
  "live_client w a \<Longrightarrow> the_client (w\<lparr>clients := (clients w)[a := Some c]\<rparr>) b = (if a = b then c else the_client w b)"
  by (auto simp: the_client_def live_client_def nth_list_update)

lemma live_game_upd [simp, frame_simps]:
  "live_game (w\<lparr>games := (games w)[a := Some c]\<rparr>) b \<longleftrightarrow> (live_game w b \<or> a = b \<and> a < length (games w))"
  by (cases "a = b") (auto simp: live_game_def)

lemma the_game_upd [simp, frame_simps]:
  "live_game w a \<Longrightarrow> the_game (w\<lparr>games := (games w)[a := Some c]\<rparr>) b = (if a = b then c else the_game w b)"
  by (auto simp: the_game_def live_game_def nth_list_update)

text \<open>Reading clients and games after a change to another part of the state.\<close>

lemma live_frame [simp, frame_simps]:
  "live_client (w\<lparr>sent := s\<rparr>) a = live_client w a" "live_client (w\<lparr>users := us\<rparr>) a = live_client w a"
  "live_client (w\<lparr>channels := cs\<rparr>) a = live_client w a" "live_client (w\<lparr>games := gs\<rparr>) a = live_client w a"
  "live_client (w\<lparr>game_map := gm\<rparr>) a = live_client w a" "live_client (w\<lparr>clientMap := cm\<rparr>) a = live_client w a"
  "live_client (w\<lparr>tokenMap := tm\<rparr>) a = live_client w a"
  "live_game (w\<lparr>sent := s\<rparr>) a = live_game w a" "live_game (w\<lparr>users := us\<rparr>) a = live_game w a"
  "live_game (w\<lparr>channels := cs\<rparr>) a = live_game w a" "live_game (w\<lparr>clients := xs\<rparr>) a = live_game w a"
  "live_game (w\<lparr>game_map := gm\<rparr>) a = live_game w a" "live_game (w\<lparr>clientMap := cm\<rparr>) a = live_game w a"
  "live_game (w\<lparr>tokenMap := tm\<rparr>) a = live_game w a"
  by (simp_all add: live_client_def live_game_def)

lemma the_frame [simp, frame_simps]:
  "the_client (w\<lparr>sent := s\<rparr>) a = the_client w a" "the_client (w\<lparr>users := us\<rparr>) a = the_client w a"
  "the_client (w\<lparr>channels := cs\<rparr>) a = the_client w a" "the_client (w\<lparr>games := gs\<rparr>) a = the_client w a"
  "the_client (w\<lparr>game_map := gm\<rparr>) a = the_client w a" "the_client (w\<lparr>clientMap := cm\<rparr>) a = the_client w a"
  "the_client (w\<lparr>tokenMap := tm\<rparr>) a = the_client w a"
  "the_game (w\<lparr>sent := s\<rparr>) a = the_game w a" "the_game (w\<lparr>users := us\<rparr>) a = the_game w a"
  "the_game (w\<lparr>channels := cs\<rparr>) a = the_game w a" "the_game (w\<lparr>clients := xs\<rparr>) a = the_game w a"
  "the_game (w\<lparr>game_map := gm\<rparr>) a = the_game w a" "the_game (w\<lparr>clientMap := cm\<rparr>) a = the_game w a"
  "the_game (w\<lparr>tokenMap := tm\<rparr>) a = the_game w a"
  by (simp_all add: the_client_def the_game_def)

text \<open>The state of a server that has just started: empty caches, the first user number is 1.\<close>

definition world0 :: world where
  "world0 = \<lparr>users = [], next_uid = 1, user_count = 0, name_map = [], id_map = [], channels = [], channelmap = [],
     game_channelmap = [], games = [], game_map = [], clients = [], clientMap = [], tokenMap = [], current_session = 0,
     realmMap = [], file_map = [], newsmap = [], motd = [], sent = [], closing = [], sql = [], nrand = 0, nticks = 0,
     ngmp = 0, udp_sent = []\<rparr>"

end
