(* ===== verification/Numbers.thy ===== *)
theory Numbers
  imports CText
begin

text \<open>
  \<^verbatim>\<open>Utils::NumberFormatter\<close> (src/common/utils/NumberFormatter.cpp) for the formats the server
  uses: decimal and fixed-width hexadecimal. The functions append to a string as the code
  does; the lemmas give readers that undo them.
\<close>

section \<open>Decimal\<close>

definition digit :: "nat \<Rightarrow> char" where
  "digit d = char_of (48 + d)"

fun dec_nat :: "nat \<Rightarrow> string" where
  "dec_nat n = (if n < 10 then [digit n] else dec_nat (n div 10) @ [digit (n mod 10)])"

declare dec_nat.simps [simp del]

definition dec_int :: "int \<Rightarrow> string" where
  "dec_int i = (if i < 0 then CHR ''-'' # dec_nat (nat (- i)) else dec_nat (nat i))"

text \<open>\<^verbatim>\<open>append(str, value)\<close> with \<^verbatim>\<open>%d\<close> and \<^verbatim>\<open>%lld\<close>, and with \<^verbatim>\<open>%u\<close>.\<close>

definition fmt_append :: "string \<Rightarrow> int \<Rightarrow> string" where
  "fmt_append str v = str @ dec_int v"

definition fmt_append_u :: "string \<Rightarrow> u32 \<Rightarrow> string" where
  "fmt_append_u str v = str @ dec_nat (unat v)"

definition is_digit :: "char \<Rightarrow> bool" where
  "is_digit c \<longleftrightarrow> 48 \<le> (of_char c :: nat) \<and> (of_char c :: nat) \<le> 57"

definition digit_val :: "char \<Rightarrow> nat" where
  "digit_val c = of_char c - 48"

definition read_nat :: "string \<Rightarrow> nat" where
  "read_nat s = fold (\<lambda>c n. 10 * n + digit_val c) s 0"

definition read_int :: "string \<Rightarrow> int" where
  "read_int s = (case s of c # t \<Rightarrow> if c = CHR ''-'' then - int (read_nat t) else int (read_nat s) | [] \<Rightarrow> 0)"

lemma digit_props:
  assumes "d < 10"
  shows "digit_val (digit d) = d" "is_digit (digit d)" "digit d \<noteq> CHR ''-''"
proof -
  have "(of_char (digit d) :: nat) = 48 + d" using assms by (simp add: digit_def of_char_of)
  then show "digit_val (digit d) = d" "is_digit (digit d)"
    using assms by (simp_all add: digit_val_def is_digit_def)
  show "digit d \<noteq> CHR ''-''"
  proof
    assume "digit d = CHR ''-''"
    then have "(of_char (digit d) :: nat) = of_char (CHR ''-'')" by simp
    with \<open>(of_char (digit d) :: nat) = 48 + d\<close> show False by simp
  qed
qed

lemma dec_nat_digits: "c \<in> set (dec_nat n) \<Longrightarrow> is_digit c"
proof (induction n rule: dec_nat.induct)
  case (1 n)
  then show ?case by (auto simp: dec_nat.simps [of n] digit_props split: if_splits)
qed

lemma dec_nat_nonempty [simp]: "dec_nat n \<noteq> []"
  by (simp add: dec_nat.simps)

lemma read_dec_nat: "read_nat (dec_nat n) = n"
proof (induction n rule: dec_nat.induct)
  case (1 n)
  then show ?case by (simp add: dec_nat.simps [of n] read_nat_def digit_props)
qed

lemma minus_not_digit: "\<not> is_digit (CHR ''-'')"
  by (simp add: is_digit_def)

lemma read_dec_int: "read_int (dec_int i) = i"
proof (cases "i < 0")
  case True
  then show ?thesis by (simp add: dec_int_def read_int_def read_dec_nat)
next
  case False
  obtain c t where ct: "dec_nat (nat i) = c # t" by (meson dec_nat_nonempty list.exhaust)
  then have "is_digit c" using dec_nat_digits [of c "nat i"] by simp
  then have "c \<noteq> CHR ''-''" using minus_not_digit by blast
  then show ?thesis using False ct read_dec_nat [of "nat i"] by (simp add: dec_int_def read_int_def)
qed

lemma dec_int_chars: "c \<in> set (dec_int i) \<Longrightarrow> is_digit c \<or> c = CHR ''-''"
  by (auto simp: dec_int_def dest: dec_nat_digits split: if_splits)

lemma dec_int_head: "\<exists>c t. dec_int i = c # t \<and> (is_digit c \<or> c = CHR ''-'')"
proof -
  have "dec_int i \<noteq> []" by (simp add: dec_int_def)
  then obtain c t where "dec_int i = c # t" by (cases "dec_int i") auto
  then show ?thesis using dec_int_chars [of c i] by auto
qed

lemma dec_nat_inject: "dec_nat m = dec_nat n \<longleftrightarrow> m = n"
  by (metis read_dec_nat)

lemma dec_int_inject: "dec_int i = dec_int j \<longleftrightarrow> i = j"
  by (metis read_dec_int)

section \<open>Hexadecimal\<close>

definition hex_digit :: "nat \<Rightarrow> char" where
  "hex_digit d = (if d < 10 then char_of (48 + d) else char_of (55 + d))"

text \<open>\<^verbatim>\<open>appendHex(str, value, 2)\<close> of a byte: \<^verbatim>\<open>%02X\<close>.\<close>

definition hex2 :: "u8 \<Rightarrow> string" where
  "hex2 b = [hex_digit (unat b div 16), hex_digit (unat b mod 16)]"

definition appendHex :: "string \<Rightarrow> u8 \<Rightarrow> string" where
  "appendHex str b = str @ hex2 b"

definition hex_val :: "char \<Rightarrow> nat" where
  "hex_val c = (if (of_char c :: nat) < 58 then of_char c - 48 else of_char c - 55)"

fun read_hex :: "string \<Rightarrow> bytes" where
  "read_hex (a # b # s) = word_of_nat (16 * hex_val a + hex_val b) # read_hex s"
| "read_hex _ = []"

lemma hex_digit_props:
  assumes "d < 16"
  shows "hex_val (hex_digit d) = d" "hex_digit d \<noteq> CHR 0x27"
proof -
  have "(of_char (hex_digit d) :: nat) = (if d < 10 then 48 + d else 55 + d)"
    using assms by (simp add: hex_digit_def of_char_of)
  then show "hex_val (hex_digit d) = d" by (simp add: hex_val_def)
  show "hex_digit d \<noteq> CHR 0x27"
  proof
    assume "hex_digit d = CHR 0x27"
    then have "(of_char (hex_digit d) :: nat) = of_char (CHR 0x27)" by simp
    with \<open>(of_char (hex_digit d) :: nat) = (if d < 10 then 48 + d else 55 + d)\<close> show False
      by (simp split: if_splits)
  qed
qed

lemma read_hex2: "read_hex (hex2 b @ s) = b # read_hex s"
proof -
  have "unat b div 16 < 16" using unat_bound(1) [of b] by simp
  moreover have "16 * (unat b div 16) + unat b mod 16 = unat b" by simp
  ultimately show ?thesis by (simp add: hex2_def hex_digit_props)
qed

lemma read_hex_concat: "read_hex (concat (map hex2 bs)) = bs"
  by (induction bs) (simp_all add: read_hex2)

lemma hex2_no_quote: "c \<in> set (hex2 b) \<Longrightarrow> c \<noteq> CHR 0x27"
proof -
  have "unat b div 16 < 16" using unat_bound(1) [of b] by simp
  then show "c \<in> set (hex2 b) \<Longrightarrow> c \<noteq> CHR 0x27"
    by (auto simp: hex2_def dest: hex_digit_props(2) [THEN not_sym, THEN notE, rotated])
qed

end
