(* ===== verification/Storage.thy ===== *)
theory Storage
  imports World Numbers
begin

text \<open>
  The storage interface and its SQLite implementation (src/blitzd/storage/Storage.h and
  StorageSqlite.cpp): the texts of the statements it builds and the rows it reads. What SQLite
  answers is part of \<open>env\<close>: \<open>sql_exec\<close> and \<open>sql_query\<close> are functions of the statements
  executed so far and the new one.

  \<^verbatim>\<open>DataDef\<close> is a tagged union; the accessors fault when another member is read. The value a
  query leaves for an empty blob (\<^verbatim>\<open>bVal = NULL\<close>, \<^verbatim>\<open>bSize = 0\<close>) is \<open>DBinary []\<close>.
\<close>

datatype DataDef = DUnknown | DInt int | DReal u64 | DString string | DBinary bytes

datatype DataType = TUnknown | TInt | TReal | TString | TBinary

record StructDef =
  sd_name :: string
  sd_type :: DataType
  sd_option :: u8

section \<open>Access to a value\<close>

definition lVal :: "DataDef \<Rightarrow> int M" where
  "lVal d = (case d of DInt i \<Rightarrow> ret i | _ \<Rightarrow> fail OutOfBounds)"

definition sVal :: "DataDef \<Rightarrow> string M" where
  "sVal d = (case d of DString s \<Rightarrow> ret s | _ \<Rightarrow> fail OutOfBounds)"

definition bVal :: "DataDef \<Rightarrow> bytes M" where
  "bVal d = (case d of DBinary b \<Rightarrow> ret b | _ \<Rightarrow> fail OutOfBounds)"

definition cell :: "DataDef list list \<Rightarrow> nat \<Rightarrow> nat \<Rightarrow> DataDef M" where
  "cell rows i j = (if i < length rows \<and> j < length (rows ! i) then ret (rows ! i ! j) else fail OutOfBounds)"

section \<open>Statements\<close>

fun comma :: "string list \<Rightarrow> string" where
  "comma [] = []"
| "comma [s] = s"
| "comma (s # t # ss) = s @ '', '' @ comma (t # ss)"

definition getTypeName :: "DataType \<Rightarrow> string" where
  "getTypeName t = (case t of TInt \<Rightarrow> ''INTEGER(20)'' | TReal \<Rightarrow> ''REAL'' | TString \<Rightarrow> ''TEXT'' | _ \<Rightarrow> ''BLOB'')"

definition column_text :: "StructDef \<Rightarrow> string" where
  "column_text d = sd_name d @ '' '' @ getTypeName (sd_type d)
     @ (if sd_option d AND 3 = 1 \<or> sd_option d AND 3 = 2 then []
        else if sd_option d AND 4 = 4 then '' NOT NULL'' else [])"

definition create_text :: "string \<Rightarrow> StructDef list \<Rightarrow> string" where
  "create_text tablename structs =
     (let keys = comma (map sd_name (filter (\<lambda>d. sd_option d AND 3 = 1) structs));
          unis = comma (map sd_name (filter (\<lambda>d. sd_option d AND 3 = 2) structs))
      in ''CREATE TABLE IF NOT EXISTS '' @ tablename @ '' ('' @ comma (map column_text structs)
         @ (if keys \<noteq> [] then '', PRIMARY KEY('' @ keys @ '')'' else [])
         @ (if unis \<noteq> [] then '', UNIQUE('' @ unis @ '')'' else []) @ '')'')"

text \<open>
  One value of \<^verbatim>\<open>Set\<close>. The \<^verbatim>\<open>default\<close> branch reads the members of a binary; on a value that was
  never set they are not initialised (None).
\<close>

definition literal :: "env \<Rightarrow> DataDef \<Rightarrow> string option" where
  "literal e d = (case d of
       DInt i \<Rightarrow> Some (dec_int i)
     | DReal r \<Rightarrow> Some (fmt_real e r)
     | DString s \<Rightarrow> Some (''\"'' @ s @ ''\"'')
     | DBinary b \<Rightarrow> Some (''X'' @ [CHR 0x27] @ concat (map hex2 b) @ [CHR 0x27])
     | DUnknown \<Rightarrow> None)"

definition set_text :: "env \<Rightarrow> string \<Rightarrow> string list \<Rightarrow> DataDef list \<Rightarrow> string option" where
  "set_text e tablename colnames data =
     (if list_all (\<lambda>d. literal e d \<noteq> None) (take (length colnames) data) \<and> length colnames \<le> length data
      then Some (''REPLACE INTO '' @ tablename @ '' ('' @ comma colnames @ '') VALUES (''
             @ comma (map (\<lambda>d. the (literal e d)) (take (length colnames) data)) @ '')'')
      else None)"

definition select_text :: "string \<Rightarrow> string list \<Rightarrow> string" where
  "select_text tablename colnames = ''SELECT '' @ comma colnames @ '' FROM '' @ tablename"

section \<open>Operations\<close>

definition doExec :: "env \<Rightarrow> string \<Rightarrow> bool M" where
  "doExec e q w = (let q = c_str q in Inr (sql_exec e (sql w) q, w\<lparr>sql := sql w @ [q]\<rparr>))"

fun of_column :: "column \<Rightarrow> DataDef" where
  "of_column CNull = DInt 0"
| "of_column (CInt i) = DInt i"
| "of_column (CFloat r) = DReal r"
| "of_column (CText t) = DString (c_str t)"
| "of_column (CBlob b) = DBinary b"

text \<open>\<open>result\<close> is the caller's vector: rows are appended to what it holds.\<close>

definition doQuery :: "env \<Rightarrow> string \<Rightarrow> nat \<Rightarrow> DataDef list list \<Rightarrow> (bool \<times> DataDef list list) M" where
  "doQuery e q col result w =
     (case sql_query e (sql w) (c_str q) of
        None \<Rightarrow> Inr ((False, result), w)
      | Some rows \<Rightarrow> Inr ((True, result @ map (\<lambda>r. map of_column (take col r)) rows), w))"

definition Create :: "env \<Rightarrow> bool \<Rightarrow> string \<Rightarrow> StructDef list option \<Rightarrow> bool M" where
  "Create e opened tablename structs =
     (case structs of None \<Rightarrow> ret False
      | Some ds \<Rightarrow> if opened then doExec e (create_text tablename ds) else ret False)"

definition StorageSet :: "env \<Rightarrow> string \<Rightarrow> string list \<Rightarrow> DataDef list \<Rightarrow> bool M" where
  "StorageSet e tablename colnames data =
     (case set_text e tablename colnames data of None \<Rightarrow> fail OutOfBounds | Some q \<Rightarrow> doExec e q)"

definition GetAll ::
  "env \<Rightarrow> string \<Rightarrow> string list \<Rightarrow> DataDef list list \<Rightarrow> (bool \<times> DataDef list list) M" where
  "GetAll e tablename colnames result =
     doQuery e (select_text tablename colnames) (length colnames) result"

definition GetMatch ::
  "env \<Rightarrow> string \<Rightarrow> string list \<Rightarrow> string \<Rightarrow> DataDef list list \<Rightarrow> (bool \<times> DataDef list list) M" where
  "GetMatch e tablename colnames matchcond result =
     (if c_str matchcond = [] then GetAll e tablename colnames result
      else doQuery e (select_text tablename colnames @ '' WHERE '' @ matchcond) (length colnames) result)"

definition RemoveAll :: "env \<Rightarrow> string \<Rightarrow> unit M" where
  "RemoveAll e tablename = bind (doExec e (''DELETE FROM '' @ tablename)) (\<lambda>_. ret ())"

definition RemoveMatch :: "env \<Rightarrow> string \<Rightarrow> string \<Rightarrow> unit M" where
  "RemoveMatch e tablename cond =
     (if c_str cond = [] then RemoveAll e tablename
      else bind (doExec e (''DELETE FROM '' @ tablename @ '' WHERE '' @ cond)) (\<lambda>_. ret ()))"

definition Begin :: "env \<Rightarrow> unit M" where
  "Begin e = bind (doExec e ''BEGIN'') (\<lambda>_. ret ())"

definition Commit :: "env \<Rightarrow> unit M" where
  "Commit e = bind (doExec e ''COMMIT'') (\<lambda>_. ret ())"

definition Optimize :: "env \<Rightarrow> unit M" where
  "Optimize e = bind (doExec e ''VACUUM'') (\<lambda>_. ret ())"

section \<open>Reading a statement back\<close>

text \<open>A reader of the value list of a \<^verbatim>\<open>REPLACE\<close> statement: integers, quoted texts, blobs.\<close>

definition read_literal :: "string \<Rightarrow> (DataDef \<times> string) option" where
  "read_literal s = (case s of
       [] \<Rightarrow> None
     | c # t \<Rightarrow>
         if c = CHR 0x22 then Some (DString (takeWhile (\<lambda>x. x \<noteq> CHR 0x22) t), drop 1 (dropWhile (\<lambda>x. x \<noteq> CHR 0x22) t))
         else if c = CHR ''X'' then
           Some (DBinary (read_hex (takeWhile (\<lambda>x. x \<noteq> CHR 0x27) (drop 1 t))),
                 drop 1 (dropWhile (\<lambda>x. x \<noteq> CHR 0x27) (drop 1 t)))
         else if is_digit c \<or> c = CHR ''-'' then
           Some (DInt (read_int (takeWhile (\<lambda>x. is_digit x \<or> x = CHR ''-'') s)),
                 dropWhile (\<lambda>x. is_digit x \<or> x = CHR ''-'') s)
         else None)"

fun read_values :: "nat \<Rightarrow> string \<Rightarrow> (DataDef list \<times> string) option" where
  "read_values 0 s = Some ([], s)"
| "read_values (Suc n) s = (case read_literal s of None \<Rightarrow> None
     | Some (d, t) \<Rightarrow> (case read_values n (if n = 0 then t else drop 2 t) of None \<Rightarrow> None
         | Some (ds, u) \<Rightarrow> Some (d # ds, u)))"

text \<open>Values whose text can be read back: no quotation mark inside a string, no floats.\<close>

fun plain :: "DataDef \<Rightarrow> bool" where
  "plain (DInt i) = True"
| "plain (DString s) = (CHR 0x22 \<notin> set s)"
| "plain (DBinary b) = True"
| "plain _ = False"

lemma read_quoted: "q \<notin> set s \<Longrightarrow> takeWhile (\<lambda>x. x \<noteq> q) (s @ q # r) = s \<and> drop 1 (dropWhile (\<lambda>x. x \<noteq> q) (s @ q # r)) = r"
  by (induction s) auto

lemma takeWhile_dropWhile_span:
  "(\<And>x. x \<in> set s \<Longrightarrow> P x) \<Longrightarrow> r = [] \<or> \<not> P (hd r) \<Longrightarrow> takeWhile P (s @ r) = s \<and> dropWhile P (s @ r) = r"
  by (induction s) (auto, (cases r; simp)+)

lemma read_literal_text:
  assumes "plain d" and "literal e d = Some s" and "r = [] \<or> \<not> (is_digit (hd r) \<or> hd r = CHR ''-'')"
  shows "read_literal (s @ r) = Some (d, r)"
proof (cases d)
  case (DInt i)
  obtain c t where ct: "dec_int i = c # t" and c: "is_digit c \<or> c = CHR ''-''"
    using dec_int_head by blast
  have "\<not> is_digit (CHR 0x22)" "\<not> is_digit (CHR ''X'')" by (simp_all add: is_digit_def)
  then have ne: "c \<noteq> CHR 0x22" "c \<noteq> CHR ''X''" using c by auto
  have "takeWhile (\<lambda>x. is_digit x \<or> x = CHR ''-'') (dec_int i @ r) = dec_int i \<and>
      dropWhile (\<lambda>x. is_digit x \<or> x = CHR ''-'') (dec_int i @ r) = r"
    by (rule takeWhile_dropWhile_span) (use dec_int_chars assms(3) in auto)
  moreover have "read_int (c # t) = i" using ct by (metis read_dec_int)
  moreover have "s = c # t" using assms(2) DInt ct by (simp add: literal_def)
  ultimately show ?thesis using DInt ct c ne by (simp add: read_literal_def)
next
  case (DString t)
  then show ?thesis using assms(1,2) read_quoted [of "CHR 0x22" t r]
    by (auto simp: literal_def read_literal_def)
next
  case (DBinary b)
  have "CHR 0x27 \<notin> set (concat (map hex2 b))" using hex2_no_quote by auto
  from read_quoted [OF this, of r] show ?thesis using DBinary assms(2)
    by (auto simp: literal_def read_literal_def read_hex_concat)
qed (use assms(1) in simp_all)

lemma comma_Cons: "comma (s # ss) = (if ss = [] then s else s @ '', '' @ comma ss)"
  by (cases ss) simp_all

lemma plain_literal: "plain d \<Longrightarrow> \<exists>s. literal e d = Some s"
  by (cases d) (simp_all add: literal_def)

lemma read_values_text:
  "(\<And>d. d \<in> set ds \<Longrightarrow> plain d) \<Longrightarrow>
    read_values (length ds) (comma (map (\<lambda>d. the (literal e d)) ds) @ '')'') = Some (ds, '')'')"
proof (induction ds)
  case Nil
  then show ?case by simp
next
  case (Cons d ds)
  then obtain s where s: "literal e d = Some s" using plain_literal by (meson list.set_intros(1))
  have p: "plain d" using Cons.prems by simp
  have n: "\<not> (is_digit (CHR '')'') \<or> CHR '')'' = CHR ''-'')" "\<not> (is_digit (CHR '','') \<or> CHR '','' = CHR ''-'')"
    by (simp_all add: is_digit_def)
  show ?case
  proof (cases "ds = []")
    case True
    then show ?thesis using read_literal_text [OF p s, of "'')''"] s n(1) by simp
  next
    case False
    let ?t = "comma (map (\<lambda>d. the (literal e d)) ds) @ '')''"
    have "read_literal (s @ '', '' @ ?t) = Some (d, '', '' @ ?t)"
      by (rule read_literal_text [OF p s]) (use n(2) in simp)
    then show ?thesis using False Cons s by (simp add: comma_Cons)
  qed
qed

lemma set_text_plain:
  assumes "list_all plain data" and "length colnames = length data"
  shows "set_text e tablename colnames data = Some (''REPLACE INTO '' @ tablename @ '' ('' @ comma colnames
     @ '') VALUES ('' @ comma (map (\<lambda>d. the (literal e d)) data) @ '')'')"
proof -
  have "list_all (\<lambda>d. literal e d \<noteq> None) data"
    using assms(1) plain_literal [of _ e] by (fastforce simp: list_all_iff)
  then show ?thesis using assms(2) by (simp add: set_text_def)
qed

lemma wp_doExec [wps, simp]: "wp (doExec e q) Q w = Q (sql_exec e (sql w) (c_str q)) (w\<lparr>sql := sql w @ [c_str q]\<rparr>)"
  by (simp add: wp_def doExec_def Let_def)

lemma wp_doQuery [wps, simp]: "wp (doQuery e q col result) Q w =
    (case sql_query e (sql w) (c_str q) of None \<Rightarrow> Q (False, result) w
     | Some rows \<Rightarrow> Q (True, result @ map (\<lambda>r. map of_column (take col r)) rows) w)"
  by (simp add: wp_def doQuery_def split: option.split)


definition env0 :: env where
  "env0 = \<lparr>c_rand = (\<lambda>_. 0), c_ticks = (\<lambda>_. 0), uninit = (\<lambda>_ _. 0), disk = (\<lambda>_. None),
     sql_exec = (\<lambda>_ _. True), sql_query = (\<lambda>_ _. None), time_now = 0, fmt_real = (\<lambda>_. [])\<rparr>"


lemma read_values_prefix:
  "list_all plain pre \<Longrightarrow> read_literal x = Some (d, r) \<Longrightarrow>
    read_values (Suc (length pre)) (concat (map (\<lambda>d. the (literal e d) @ '', '') pre) @ x) = Some (pre @ [d], r)"
proof (induction pre)
  case (Cons p pre)
  obtain l where l: "literal e p = Some l" using Cons.prems(1) plain_literal [of p e] by auto
  have "\<not> (is_digit (CHR '','') \<or> CHR '','' = CHR ''-'')" by (simp add: is_digit_def)
  then have "read_literal (l @ '', '' @ concat (map (\<lambda>d. the (literal e d) @ '', '') pre) @ x) =
      Some (p, '', '' @ concat (map (\<lambda>d. the (literal e d) @ '', '') pre) @ x)"
    by (intro read_literal_text [OF _ l]) (use Cons.prems(1) in auto)
  then show ?case using Cons l by simp
qed simp

lemma comma_middle: "comma (map f (pre @ d # post)) =
    concat (map (\<lambda>d. f d @ '', '') pre) @ f d @ (if post = [] then [] else '', '' @ comma (map f post))"
  by (induction pre) (simp_all add: comma_Cons)



end
