(* ===== verification/Users.thy ===== *)
theory Users
  imports Storage
begin

text \<open>
  The user cache (src/blitzd/cache/UserCache.cpp and .h): the account object with its data map
  and friend list, and the cache that finds accounts by name and by number and loads them from
  the database. \<^verbatim>\<open>this\<close> and the account pointers are addresses into \<open>users\<close>.

  \<^verbatim>\<open>LoadUser\<close> loads the friends of the account it loads, which may load accounts again; the
  model bounds that recursion by fuel, and the lemma at the end shows how much is enough.
\<close>

section \<open>Account objects\<close>

definition UserCacheItem :: "env \<Rightarrow> nat \<Rightarrow> string \<Rightarrow> user_item" where
  "UserCacheItem e addr username =
     \<lparr>u_dirty = False, u_id = 0, u_username = username, u_mail = [], u_salt = replicate 32 0,
      u_verifier = replicate 32 0, u_passwd = fresh e (''UserCacheItem._passwd'' @ dec_nat addr) 20,
      u_flag = 0, u_friend_dirty = False, u_friend_list = [], u_data_map = []\<rparr>"

definition IsExist :: "user_item \<Rightarrow> bool" where
  "IsExist u \<longleftrightarrow> u_id u > 0"

definition SetSalt :: "bytes \<Rightarrow> user_item \<Rightarrow> user_item" where
  "SetSalt s u = (if u_salt u = take 32 s then u else u\<lparr>u_dirty := True, u_salt := take 32 s\<rparr>)"

definition SetVerifier :: "bytes \<Rightarrow> user_item \<Rightarrow> user_item" where
  "SetVerifier s u =
     (if u_verifier u = take 32 s then u else u\<lparr>u_dirty := True, u_verifier := take 32 s\<rparr>)"

definition SetPasswd :: "bytes \<Rightarrow> user_item \<Rightarrow> user_item" where
  "SetPasswd p u = (if u_passwd u = take 20 p then u else u\<lparr>u_dirty := True, u_passwd := take 20 p\<rparr>)"

definition SetMail :: "string \<Rightarrow> user_item \<Rightarrow> user_item" where
  "SetMail m u = (if u_mail u = m then u else u\<lparr>u_mail := m, u_dirty := True\<rparr>)"

definition SetUserFlag :: "u32 \<Rightarrow> user_item \<Rightarrow> user_item" where
  "SetUserFlag f u = (if u_flag u = f then u else u\<lparr>u_flag := f, u_dirty := True\<rparr>)"

definition AddUserFlag :: "u32 \<Rightarrow> user_item \<Rightarrow> user_item" where
  "AddUserFlag f u = SetUserFlag (u_flag u OR f) u"

definition DelUserFlag :: "u32 \<Rightarrow> user_item \<Rightarrow> user_item" where
  "DelUserFlag f u = SetUserFlag (u_flag u AND NOT f) u"

definition GetUserFlag :: "user_item \<Rightarrow> u32" where
  "GetUserFlag u = u_flag u AND 0xFFFFFFF"

text \<open>\<^verbatim>\<open>_data_map[k]\<close>: the entry for \<open>k\<close>, created empty if there is none.\<close>

definition data_at :: "string \<Rightarrow> (string \<times> string) list \<Rightarrow> string \<times> (string \<times> string) list" where
  "data_at k m = (case ofind CompareInCaseLess m k of
       Some v \<Rightarrow> (v, m) | None \<Rightarrow> ([], oset CompareInCaseLess m k []))"

definition GetData :: "string \<Rightarrow> user_item \<Rightarrow> string \<times> user_item" where
  "GetData k u = (case data_at k (u_data_map u) of (v, m) \<Rightarrow> (v, u\<lparr>u_data_map := m\<rparr>))"

definition SetData :: "string \<Rightarrow> string \<Rightarrow> user_item \<Rightarrow> user_item" where
  "SetData k v u = (case data_at k (u_data_map u) of (old, m) \<Rightarrow>
     if old = v then u\<lparr>u_data_map := m\<rparr>
     else u\<lparr>u_data_map := oset CompareInCaseLess m k v, u_dirty := True\<rparr>)"

text \<open>
  \<^verbatim>\<open>SetDataMap\<close>: records that end in a zero byte (or at the end of the block), each a key and a
  value around its first equals sign. The model keeps the rest of the block instead of \<^verbatim>\<open>p\<close>.
\<close>

definition store_record :: "string \<Rightarrow> (string \<times> string) list \<Rightarrow> (string \<times> string) list" where
  "store_record r m =
     (if CHR ''='' \<in> set r
      then oset CompareInCaseLess m (takeWhile (\<lambda>c. c \<noteq> CHR ''='') r)
             (tl (dropWhile (\<lambda>c. c \<noteq> CHR ''='') r))
      else m)"

function load_records :: "bytes \<Rightarrow> (string \<times> string) list \<Rightarrow> (string \<times> string) list" where
  "load_records d m =
     (if d = [] then m
      else let r = takeWhile (\<lambda>b. b \<noteq> 0) d
           in load_records (drop (length r + 1) d) (store_record (map char_of_byte r) m))"
  by pat_completeness auto
termination by (relation "measure (\<lambda>(d, m). length d)") auto

declare load_records.simps [simp del]

definition SetDataMap :: "bytes \<Rightarrow> user_item \<Rightarrow> user_item" where
  "SetDataMap data u = u\<lparr>u_data_map := load_records data (u_data_map u)\<rparr>"

definition record_text :: "string \<times> string \<Rightarrow> string" where
  "record_text p = fst p @ ''='' @ snd p"

definition BuildDataMap :: "user_item \<Rightarrow> stream \<Rightarrow> stream" where
  "BuildDataMap u st =
     fold (\<lambda>p st. if snd p = [] then st else put_str (record_text p) st) (u_data_map u) st"

section \<open>The friend list\<close>

fun find_user :: "nat \<Rightarrow> nat \<Rightarrow> friend_t list \<Rightarrow> int" where
  "find_user user i [] = -1"
| "find_user user i (f # fs) = (if fuser f = Some user then int i else find_user user (i + 1) fs)"

definition FindFriend :: "nat \<Rightarrow> friend_t list \<Rightarrow> int" where
  "FindFriend user fs = find_user user 0 fs"

fun find_name :: "string \<Rightarrow> nat \<Rightarrow> friend_t list \<Rightarrow> int M" where
  "find_name name i [] = ret (-1)"
| "find_name name i (f # fs) =
     bind (the_ptr (fuser f)) (\<lambda>a. bind (user_at a) (\<lambda>u.
       if generic_strcmpia (c_str (u_username u)) (c_str name) = 0 then ret (int i)
       else find_name name (i + 1) fs))"

definition FindFriend_name :: "nat \<Rightarrow> string \<Rightarrow> int M" where
  "FindFriend_name this name = bind (user_at this) (\<lambda>u. find_name name 0 (u_friend_list u))"

definition GetFriendCount :: "user_item \<Rightarrow> u32" where
  "GetFriendCount u = word_of_nat (length (u_friend_list u))"

definition GetFriend :: "nat \<Rightarrow> user_item \<Rightarrow> friend_t option" where
  "GetFriend idx u = (if idx \<ge> length (u_friend_list u) then None else Some (u_friend_list u ! idx))"

text \<open>\<^verbatim>\<open>AddFriend\<close>: the returned index and what is stored at \<^verbatim>\<open>mutIdx\<close> (None: nothing).\<close>

definition AddFriend :: "nat \<Rightarrow> nat option \<Rightarrow> (int \<times> int option) M" where
  "AddFriend this user =
     (case user of None \<Rightarrow> ret (-1, None)
      | Some a \<Rightarrow>
          if a = this then ret (-1, None)
          else bind (user_at this) (\<lambda>me. bind (user_at a) (\<lambda>other.
            let idx1 = FindFriend a (u_friend_list me); idx2 = FindFriend this (u_friend_list other)
            in if idx1 \<ge> 0 then ret (idx1, None)
               else if length (u_friend_list me) > 20 then ret (-1, None)
               else seq (whenM (idx2 \<ge> 0) (upd_user a (\<lambda>o'. o'\<lparr>u_friend_list :=
                          (u_friend_list o')[nat idx2 := (u_friend_list o' ! nat idx2)\<lparr>mutual := True\<rparr>]\<rparr>)))
                    (seq (upd_user this (\<lambda>m. m\<lparr>u_friend_list := u_friend_list m @ [\<lparr>mutual = (idx2 \<ge> 0), fuser = Some a\<rparr>],
                                                u_friend_dirty := True\<rparr>))
                    (ret (int (length (u_friend_list me)), Some (if idx2 \<ge> 0 then idx2 else -1)))))))"

text \<open>
  \<^verbatim>\<open>MoveFriend\<close>: \<^verbatim>\<open>fr\<close> is a reference to the slot \<^verbatim>\<open>idx1\<close>, so the last assignment copies what
  that slot holds after the loop.
\<close>

definition move_slots :: "nat \<Rightarrow> nat \<Rightarrow> friend_t list \<Rightarrow> friend_t list" where
  "move_slots idx1 idx2 fs =
     (let fs' = (if idx1 < idx2 then fold (\<lambda>i l. l[i := l ! (i + 1)]) [idx1..<idx2] fs
                 else fold (\<lambda>i l. l[i := l ! (i - 1)]) (rev [idx2 + 1..<idx1 + 1]) fs)
      in fs'[idx2 := fs' ! idx1])"

definition MoveFriend :: "nat \<Rightarrow> nat \<Rightarrow> user_item \<Rightarrow> bool \<times> user_item" where
  "MoveFriend idx1 idx2 u =
     (let n = length (u_friend_list u)
      in if idx1 \<ge> n then (False, u) else if idx2 \<ge> n then (False, u)
         else if idx1 = idx2 then (True, u)
         else (True, u\<lparr>u_friend_list := move_slots idx1 idx2 (u_friend_list u), u_friend_dirty := True\<rparr>))"

definition RemoveFriend :: "nat \<Rightarrow> user_item \<Rightarrow> bool \<times> user_item" where
  "RemoveFriend idx u =
     (let fs = u_friend_list u; n = length fs
      in if idx \<ge> n then (False, u)
         else let fs' = (if n > idx + 1 then fold (\<lambda>i l. l[i - 1 := l ! i]) (rev [idx + 1..<n]) fs else fs)
              in (True, u\<lparr>u_friend_list := take (n - 1) fs', u_friend_dirty := True\<rparr>))"

definition RemoveFriend_at :: "nat \<Rightarrow> nat \<Rightarrow> bool M" where
  "RemoveFriend_at this idx = bind (user_at this) (\<lambda>u.
     seq (upd_user this (\<lambda>u. snd (RemoveFriend idx u))) (ret (fst (RemoveFriend idx u))))"

definition RemoveFriend_user :: "nat \<Rightarrow> nat \<Rightarrow> bool M" where
  "RemoveFriend_user this user = bind (user_at this) (\<lambda>u.
     let index = FindFriend user (u_friend_list u)
     in if index < 0 then ret False else RemoveFriend_at this (nat index))"

definition RemoveFriend_name :: "nat \<Rightarrow> string \<Rightarrow> bool M" where
  "RemoveFriend_name this name = bind (FindFriend_name this name) (\<lambda>index.
     if index < 0 then ret False else RemoveFriend_at this (nat index))"

section \<open>The cache\<close>

definition new_user :: "env \<Rightarrow> string \<Rightarrow> nat M" where
  "new_user e name = bind (gets (\<lambda>w. length (users w))) (\<lambda>a.
     seq (modify (\<lambda>w. w\<lparr>users := users w @ [UserCacheItem e a name]\<rparr>)) (ret a))"

definition UserAdd :: "env \<Rightarrow> string \<Rightarrow> u32 \<Rightarrow> nat M" where
  "UserAdd e name uid0 =
     bind (new_user e name) (\<lambda>item. bind (gets next_uid) (\<lambda>next.
       let uid = (if uid0 = 0 then next else uid0)
       in seq (modify (\<lambda>w. w\<lparr>next_uid := if uid0 = 0 then next + 1
                                       else if uid0 \<ge> next then uid0 + 1 else next\<rparr>))
         (seq (upd_user item (\<lambda>u. u\<lparr>u_id := uid\<rparr>))
         (seq (whenM (uid > 0) (modify (\<lambda>w. w\<lparr>user_count := user_count w + 1,
                                              id_map := uset (=) (id_map w) uid item\<rparr>)))
         (seq (modify (\<lambda>w. w\<lparr>name_map := uset CompareInCaseEqual (name_map w) name item\<rparr>))
         (ret item))))))"

definition Take_id :: "u32 \<Rightarrow> nat option M" where
  "Take_id uid = bind (gets id_map) (\<lambda>m.
     if uid = 0 then ret None
     else case ufind (=) m uid of None \<Rightarrow> ret None
       | Some ptr \<Rightarrow> bind (user_at ptr) (\<lambda>u.
           seq (modify (\<lambda>w. w\<lparr>user_count := user_count w - 1,
                                name_map := uerase CompareInCaseEqual (name_map w) (u_username u),
                                id_map := uerase (=) (id_map w) uid\<rparr>))
           (ret (Some ptr))))"

definition Take_name :: "string \<Rightarrow> nat option M" where
  "Take_name name = bind (gets name_map) (\<lambda>m.
     case ufind CompareInCaseEqual m name of None \<Rightarrow> ret None
     | Some ptr \<Rightarrow> bind (user_at ptr) (\<lambda>u.
         seq (whenM (u_id u > 0) (modify (\<lambda>w. w\<lparr>user_count := user_count w - 1,
                                                id_map := uerase (=) (id_map w) (u_id u)\<rparr>)))
         (seq (modify (\<lambda>w. w\<lparr>name_map := uerase CompareInCaseEqual (name_map w) name\<rparr>))
         (ret (Some ptr)))))"

definition Remove_id :: "u32 \<Rightarrow> unit M" where
  "Remove_id uid = bind (gets id_map) (\<lambda>m.
     if uid = 0 then ret ()
     else case ufind (=) m uid of None \<Rightarrow> ret ()
       | Some ptr \<Rightarrow> bind (user_at ptr) (\<lambda>u.
           modify (\<lambda>w. w\<lparr>user_count := user_count w - 1,
                           name_map := uerase CompareInCaseEqual (name_map w) (u_username u),
                           id_map := uerase (=) (id_map w) uid\<rparr>)))"

definition Remove_name :: "string \<Rightarrow> unit M" where
  "Remove_name name = bind (gets name_map) (\<lambda>m.
     case ufind CompareInCaseEqual m name of None \<Rightarrow> ret ()
     | Some ptr \<Rightarrow> bind (user_at ptr) (\<lambda>u.
         seq (whenM (u_id u > 0) (modify (\<lambda>w. w\<lparr>user_count := user_count w - 1,
                                                id_map := uerase (=) (id_map w) (u_id u)\<rparr>)))
         (modify (\<lambda>w. w\<lparr>name_map := uerase CompareInCaseEqual (name_map w) name\<rparr>))))"

text \<open>
  The look-ups; \<open>load\<close> stands for \<^verbatim>\<open>LoadUser\<close>, which they call for an account that is not in
  memory. An entry with number 0 records that there is no such account.
\<close>

definition found :: "nat \<Rightarrow> nat option M" where
  "found a = bind (user_at a) (\<lambda>u. ret (if IsExist u then Some a else None))"

definition by_name :: "(string option \<Rightarrow> u32 \<Rightarrow> nat option M) \<Rightarrow> string \<Rightarrow> nat option M" where
  "by_name load name = bind (gets name_map) (\<lambda>m.
     case ufind CompareInCaseEqual m name of None \<Rightarrow> load (Some (c_str name)) 0 | Some a \<Rightarrow> found a)"

definition by_id :: "(string option \<Rightarrow> u32 \<Rightarrow> nat option M) \<Rightarrow> u32 \<Rightarrow> nat option M" where
  "by_id load uid = bind (gets id_map) (\<lambda>m.
     case ufind (=) m uid of None \<Rightarrow> load None uid | Some a \<Rightarrow> found a)"

definition user_keys :: "string list" where
  "user_keys = [''userid'', ''username'', ''salt'', ''verifier'', ''passwd'', ''mail'', ''flag'', ''data'']"

text \<open>
  The condition is printed into \<^verbatim>\<open>char whereexpr[128]\<close>; a longer one overruns it.
\<close>

definition where_text :: "string option \<Rightarrow> u32 \<Rightarrow> string M" where
  "where_text name uid =
     (let t = (case name of Some n \<Rightarrow> ''username=\"'' @ n @ ''\"'' | None \<Rightarrow> ''userid='' @ dec_nat (unat uid))
      in if length t < 128 then ret t else fail OutOfBounds)"

definition fill_user :: "DataDef list list \<Rightarrow> nat \<Rightarrow> unit M" where
  "fill_user rows ptr =
     bind (bind (cell rows 0 2) bVal) (\<lambda>salt. bind (bind (cell rows 0 3) bVal) (\<lambda>ver.
     bind (bind (cell rows 0 4) bVal) (\<lambda>pw. bind (bind (cell rows 0 5) sVal) (\<lambda>mail.
     bind (bind (cell rows 0 6) lVal) (\<lambda>flag. bind (bind (cell rows 0 7) bVal) (\<lambda>data.
     upd_user ptr (\<lambda>u.
       let u = (if length salt \<ge> 32 then SetSalt salt u else u);
           u = (if length ver \<ge> 32 then SetVerifier ver u else u);
           u = (if length pw \<ge> 20 then SetPasswd pw u else u)
       in (SetDataMap data (SetUserFlag (word_of_int flag) (SetMail mail u)))\<lparr>u_dirty := False\<rparr>)))))))"

fun words_of :: "bytes \<Rightarrow> u32 list" where
  "words_of (a # b # c # d # r) = of_le32 [a, b, c, d] # words_of r"
| "words_of _ = []"

primrec LoadUser :: "nat \<Rightarrow> env \<Rightarrow> string option \<Rightarrow> u32 \<Rightarrow> nat option M" where
  "LoadUser 0 e name uid = fail NoFuel"
| "LoadUser (Suc n) e name uid =
     bind (where_text name uid) (\<lambda>whereexpr.
     bind (GetMatch e ''users'' user_keys whereexpr []) (\<lambda>(_, rows).
     if length rows = 1 then
       bind (bind (cell rows 0 1) sVal) (\<lambda>uname. bind (bind (cell rows 0 0) lVal) (\<lambda>user_id.
       bind (UserAdd e uname (word_of_int user_id)) (\<lambda>ptr.
       seq (fill_user rows ptr)
         (bind (where_text None (word_of_int user_id)) (\<lambda>whereexpr.
         bind (GetMatch e ''friends'' [''friendlist''] whereexpr []) (\<lambda>(_, frows).
         seq (whenM (length frows \<ge> 1) (bind (bind (cell frows 0 0) bVal) (\<lambda>b.
                forM (words_of b) (\<lambda>fid. bind (by_id (LoadUser n e) fid) (\<lambda>fr.
                  bind (AddFriend ptr fr) (\<lambda>_. ret ()))))))
         (ret (Some ptr))))))))
     else
       seq (whenM (length rows > 1) (RemoveMatch e ''users'' whereexpr))
         (case name of None \<Rightarrow> fail NullDeref
          | Some nm \<Rightarrow> bind (new_user e nm) (\<lambda>item.
              seq (modify (\<lambda>w. w\<lparr>name_map := uset CompareInCaseEqual (name_map w) nm item\<rparr>))
              (ret None)))))"

definition user_by_name :: "nat \<Rightarrow> env \<Rightarrow> string \<Rightarrow> nat option M" where
  "user_by_name n e = by_name (LoadUser n e)"

definition user_by_id :: "nat \<Rightarrow> env \<Rightarrow> u32 \<Rightarrow> nat option M" where
  "user_by_id n e = by_id (LoadUser n e)"

text \<open>\<^verbatim>\<open>LoadFromDB\<close>: both queries append to the same \<^verbatim>\<open>result\<close>.\<close>

definition LoadFromDB :: "env \<Rightarrow> unit M" where
  "LoadFromDB e =
     bind (GetAll e ''users'' [''MAX(userid)''] []) (\<lambda>(_, r1).
     seq (whenM (length r1 \<ge> 1) (bind (bind (cell r1 0 0) lVal) (\<lambda>v.
            modify (\<lambda>w. w\<lparr>next_uid := word_of_int v + 1\<rparr>))))
     (bind (GetAll e ''users'' [''COUNT(userid)''] r1) (\<lambda>(_, r2).
      whenM (length r2 \<ge> 1) (bind (bind (cell r2 0 0) lVal) (\<lambda>v.
            modify (\<lambda>w. w\<lparr>user_count := word_of_int v\<rparr>))))))"

definition user_row :: "user_item \<Rightarrow> DataDef list" where
  "user_row u = [DInt (uint (u_id u)), DString (c_str (u_username u)), DBinary (u_salt u),
     DBinary (u_verifier u), DBinary (u_passwd u), DString (c_str (u_mail u)), DInt (uint (u_flag u)),
     DBinary (sbuf (BuildDataMap u Stream_empty))]"

primrec friend_ids :: "friend_t list \<Rightarrow> u32 list M" where
  "friend_ids [] = ret []"
| "friend_ids (f # fs) = (case fuser f of None \<Rightarrow> friend_ids fs
     | Some a \<Rightarrow> bind (user_at a) (\<lambda>u. bind (friend_ids fs) (\<lambda>ids. ret (u_id u # ids))))"

definition save_user :: "env \<Rightarrow> nat \<Rightarrow> unit M" where
  "save_user e a = bind (user_at a) (\<lambda>u.
     seq (whenM (u_dirty u) (seq (upd_user a (\<lambda>u. u\<lparr>u_dirty := False\<rparr>))
            (bind (StorageSet e ''users'' user_keys (user_row u)) (\<lambda>_. ret ()))))
         (whenM (u_friend_dirty u) (seq (upd_user a (\<lambda>u. u\<lparr>u_friend_dirty := False\<rparr>))
            (bind (friend_ids (u_friend_list u)) (\<lambda>ids.
             bind (StorageSet e ''friends'' [''userid'', ''friendlist'']
                     [DInt (uint (u_id u)), DBinary (concat (map le32 ids))]) (\<lambda>_. ret ()))))))"

definition SaveToDB :: "env \<Rightarrow> unit M" where
  "SaveToDB e = seq (Begin e) (bind (gets id_map) (\<lambda>m.
     seq (forM m (\<lambda>p. save_user e (snd p))) (Commit e)))"

section \<open>What moving and removing a friend does\<close>

lemma shift_up:
  "a \<le> b \<Longrightarrow> b < length fs \<Longrightarrow> fold (\<lambda>i l. l[i := l ! (i + 1)]) [a..<b] fs =
     map (\<lambda>j. if a \<le> j \<and> j < b then fs ! (j + 1) else fs ! j) [0..<length fs]"
proof (induction b rule: nat_induct_at_least)
  case base
  show ?case by (auto intro!: nth_equalityI)
next
  case (Suc b)
  then show ?case by (auto intro!: nth_equalityI simp: nth_list_update less_Suc_eq)
qed

lemma shift_down:
  "b \<le> a \<Longrightarrow> a < length fs \<Longrightarrow> fold (\<lambda>i l. l[i := l ! (i - 1)]) (rev [b + 1..<a + 1]) fs =
     map (\<lambda>j. if b < j \<and> j \<le> a then fs ! (j - 1) else fs ! j) [0..<length fs]"
proof (induction b rule: inc_induct)
  case base
  show ?case by (auto intro!: nth_equalityI)
next
  case (step b)
  have "rev [b + 1..<a + 1] = rev [Suc b + 1..<a + 1] @ [Suc b]"
    using step.hyps by (simp add: upt_conv_Cons)
  then show ?case using step by (auto intro!: nth_equalityI simp: nth_list_update)
qed

lemma copy_last:
  "m \<le> length fs \<Longrightarrow> 0 < m \<Longrightarrow> fold (\<lambda>i l. l[i - 1 := l ! i]) (rev [m..<length fs]) fs =
     map (\<lambda>j. if m \<le> Suc j then fs ! (length fs - 1) else fs ! j) [0..<length fs]"
proof (induction m rule: inc_induct)
  case base
  have "map (\<lambda>j. if length fs \<le> Suc j then fs ! (length fs - 1) else fs ! j) [0..<length fs]
      = map (\<lambda>j. fs ! j) [0..<length fs]"
  proof (rule map_cong [OF refl])
    fix j assume "j \<in> set [0..<length fs]"
    then have "length fs \<le> Suc j \<Longrightarrow> length fs - 1 = j" by simp
    then show "(if length fs \<le> Suc j then fs ! (length fs - 1) else fs ! j) = fs ! j" by (simp only: if_cancel split: if_split) blast
  qed
  then show ?case by (simp add: map_nth)
next
  case (step m)
  have "rev [m..<length fs] = rev [Suc m..<length fs] @ [m]" using step.hyps by (simp add: upt_conv_Cons)
  then have "fold (\<lambda>i l. l[i - 1 := l ! i]) (rev [m..<length fs]) fs =
      (\<lambda>l. l[m - 1 := l ! m]) (map (\<lambda>j. if Suc m \<le> Suc j then fs ! (length fs - 1) else fs ! j) [0..<length fs])"
    using step.IH by simp
  also have "\<dots> = map (\<lambda>j. if m \<le> Suc j then fs ! (length fs - 1) else fs ! j) [0..<length fs]"
  proof (rule nth_equalityI)
    fix j assume "j < length ((\<lambda>l. l[m - 1 := l ! m])
        (map (\<lambda>j. if Suc m \<le> Suc j then fs ! (length fs - 1) else fs ! j) [0..<length fs]))"
    then have j: "j < length fs" by simp
    have m1: "m - 1 < length fs" "m < length fs" using step.hyps by simp_all
    show "(\<lambda>l. l[m - 1 := l ! m])
        (map (\<lambda>j. if Suc m \<le> Suc j then fs ! (length fs - 1) else fs ! j) [0..<length fs]) ! j =
      map (\<lambda>j. if m \<le> Suc j then fs ! (length fs - 1) else fs ! j) [0..<length fs] ! j"
    proof (cases "j = m - 1")
      case True
      then show ?thesis using m1 step.prems by simp
    next
      case False
      then have "m \<le> Suc j \<longleftrightarrow> Suc m \<le> Suc j" using step.prems by linarith
      then show ?thesis using False j by simp
    qed
  qed simp
  finally show ?case .
qed

text \<open>
  C23. Moving a friend: the friend that is moved disappears from the list, and its neighbour on
  the side it moves to is there twice (the code keeps a reference to the slot, not the friend).
\<close>

theorem MoveFriend_result:
  assumes "i < length (u_friend_list u)" and "k < length (u_friend_list u)" and "i \<noteq> k"
  shows "u_friend_list (snd (MoveFriend i k u)) =
    map (\<lambda>j. if j = k then u_friend_list u ! (if i < k then i + 1 else i - 1)
             else if i \<le> j \<and> j < k then u_friend_list u ! (j + 1)
             else if k < j \<and> j \<le> i then u_friend_list u ! (j - 1)
             else u_friend_list u ! j) [0..<length (u_friend_list u)]"
proof -
  let ?fs = "u_friend_list u"
  let ?F = "\<lambda>j. if i \<le> j \<and> j < k then ?fs ! (j + 1) else if k < j \<and> j \<le> i then ?fs ! (j - 1) else ?fs ! j"
  have "move_slots i k ?fs = (map ?F [0..<length ?fs])[k := map ?F [0..<length ?fs] ! i]"
  proof (cases "i < k")
    case True
    have "map (\<lambda>j. if i \<le> j \<and> j < k then ?fs ! (j + 1) else ?fs ! j) [0..<length ?fs] = map ?F [0..<length ?fs]"
      using True by (intro map_cong) auto
    then show ?thesis
      unfolding move_slots_def Let_def using True shift_up [of i k ?fs] assms(2) by (simp only: if_True less_imp_le)
  next
    case False
    then have ki: "k \<le> i" by simp
    have "map (\<lambda>j. if k < j \<and> j \<le> i then ?fs ! (j - 1) else ?fs ! j) [0..<length ?fs] = map ?F [0..<length ?fs]"
      using ki by (intro map_cong) auto
    then show ?thesis
      unfolding move_slots_def Let_def using False shift_down [OF ki assms(1)] by (simp only: if_False)
  qed
  then have "u_friend_list (snd (MoveFriend i k u)) = (map ?F [0..<length ?fs])[k := map ?F [0..<length ?fs] ! i]"
    using assms by (simp add: MoveFriend_def Let_def)
  then show ?thesis using assms by (auto intro!: nth_equalityI simp: nth_list_update)
qed

definition friends3 :: user_item where
  "friends3 = (UserCacheItem env0 0 ''a'')\<lparr>u_friend_list :=
     [\<lparr>mutual = False, fuser = Some 1\<rparr>, \<lparr>mutual = False, fuser = Some 2\<rparr>, \<lparr>mutual = False, fuser = Some 3\<rparr>]\<rparr>"

theorem MoveFriend_result_witness:
  "map fuser (u_friend_list (snd (MoveFriend 0 2 friends3))) = [Some 2, Some 3, Some 2]"
  using MoveFriend_result [of 0 friends3 2] by (simp add: friends3_def)

text \<open>
  C24. Removing a friend: the entries before it stay, and every entry from its place on becomes
  the last one (the loop copies downwards from the end).
\<close>

theorem RemoveFriend_result:
  assumes "idx < length (u_friend_list u)"
  shows "RemoveFriend idx u = (True, u\<lparr>u_friend_list := take idx (u_friend_list u)
     @ replicate (length (u_friend_list u) - 1 - idx) (last (u_friend_list u)), u_friend_dirty := True\<rparr>)"
proof -
  let ?fs = "u_friend_list u"
  have ne: "?fs \<noteq> []" using assms by auto
  have "take (length ?fs - 1) (if length ?fs > idx + 1
      then fold (\<lambda>i l. l[i - 1 := l ! i]) (rev [idx + 1..<length ?fs]) ?fs else ?fs)
      = take idx ?fs @ replicate (length ?fs - 1 - idx) (last ?fs)"
  proof (cases "length ?fs > idx + 1")
    case True
    then have "fold (\<lambda>i l. l[i - 1 := l ! i]) (rev [idx + 1..<length ?fs]) ?fs =
        map (\<lambda>j. if idx + 1 \<le> Suc j then ?fs ! (length ?fs - 1) else ?fs ! j) [0..<length ?fs]"
      by (intro copy_last) simp_all
    then show ?thesis using True ne
      by (auto intro!: nth_equalityI simp: nth_append last_conv_nth)
  next
    case False
    then have "length ?fs - 1 = idx" using assms by simp
    then show ?thesis using False by simp
  qed
  then show ?thesis using assms by (simp add: RemoveFriend_def Let_def)
qed

theorem RemoveFriend_result_witness:
  "map fuser (u_friend_list (snd (RemoveFriend 0 friends3))) = [Some 3, Some 3]"
  using RemoveFriend_result [of 0 friends3] by (simp add: friends3_def numeral_eq_Suc)

section \<open>Storing and loading the data map\<close>

lemma BuildDataMap_bytes:
  "sbuf (BuildDataMap u st) =
     sbuf st @ concat (map (\<lambda>p. str_bytes (record_text p)) (filter (\<lambda>p. snd p \<noteq> []) (u_data_map u)))"
proof -
  have "sbuf (fold (\<lambda>p st. if snd p = [] then st else put_str (record_text p) st) m st) =
      sbuf st @ concat (map (\<lambda>p. str_bytes (record_text p)) (filter (\<lambda>p. snd p \<noteq> []) m))" for m
    by (induction m arbitrary: st) auto
  then show ?thesis by (simp add: BuildDataMap_def)
qed

lemma load_records_step:
  assumes "NUL \<notin> set r"
  shows "load_records (str_bytes r @ d) m = load_records d (store_record r m)"
proof -
  have t: "takeWhile (\<lambda>b. b \<noteq> 0) (map byte_of r @ 0 # d) = map byte_of r"
    by (rule takeWhile_stop) (use assms in auto)
  have "map char_of_byte (map byte_of r) = r" by (simp add: comp_def)
  then show ?thesis using t by (simp add: str_bytes_def load_records.simps [of "map byte_of r @ 0 # d"] Let_def)
qed

lemma store_record_text:
  assumes "CHR ''='' \<notin> set k"
  shows "store_record (record_text (k, v)) m = oset CompareInCaseLess m k v"
proof -
  have "takeWhile (\<lambda>c. c \<noteq> CHR ''='') (k @ CHR ''='' # v) = k"
    by (rule takeWhile_stop) (use assms in auto)
  moreover have "dropWhile (\<lambda>c. c \<noteq> CHR ''='') (k @ CHR ''='' # v) = CHR ''='' # v"
    using assms by (simp add: dropWhile_append3 dropWhile_append)
  ultimately show ?thesis by (simp add: store_record_def record_text_def)
qed

text \<open>Maps that can be written to the database: no NUL anywhere, no equals sign in a key.\<close>

definition storable :: "(string \<times> string) list \<Rightarrow> bool" where
  "storable m \<longleftrightarrow> osorted CompareInCaseLess m \<and>
     list_all (\<lambda>(k, v). NUL \<notin> set k \<and> NUL \<notin> set v \<and> CHR ''='' \<notin> set k) m"

lemma load_records_append:
  "osorted CompareInCaseLess (acc @ m) \<Longrightarrow>
   list_all (\<lambda>(k, v). NUL \<notin> set k \<and> NUL \<notin> set v \<and> CHR ''='' \<notin> set k) m \<Longrightarrow>
   load_records (concat (map (\<lambda>p. str_bytes (record_text p)) m)) acc = acc @ m"
proof (induction m arbitrary: acc)
  case Nil
  then show ?case by (simp add: load_records.simps)
next
  case (Cons p m)
  obtain k v where p: "p = (k, v)" by (cases p)
  have "oset CompareInCaseLess acc k v = acc @ [(k, v)]"
    by (rule cil.oset_last) (use Cons.prems(1) p in \<open>auto simp: osorted_def sorted_wrt_append\<close>)
  moreover have "NUL \<notin> set (record_text p)" using Cons.prems(2) p by (auto simp: record_text_def NUL_def)
  ultimately show ?case
    using Cons.IH [of "acc @ [(k, v)]"] Cons.prems p by (simp add: load_records_step store_record_text)
qed



section \<open>The invariant of the two indexes\<close>

text \<open>
  Each index has one entry per key; an entry of the number index leads to an account with that
  number, which is not 0; an entry of the name index leads to an account of that name.
\<close>

definition ucache_ok :: "world \<Rightarrow> bool" where
  "ucache_ok w \<longleftrightarrow> udistinct (=) (id_map w) \<and> udistinct CompareInCaseEqual (name_map w)
     \<and> (\<forall>p\<in>set (id_map w). snd p < length (users w) \<and> u_id (users w ! snd p) = fst p \<and> fst p \<noteq> 0)
     \<and> (\<forall>p\<in>set (name_map w). snd p < length (users w) \<and> CompareInCaseEqual (fst p) (u_username (users w ! snd p)))"

definition new_uid :: "world \<Rightarrow> u32 \<Rightarrow> u32" where
  "new_uid w uid0 = (if uid0 = 0 then next_uid w else uid0)"

definition added :: "env \<Rightarrow> string \<Rightarrow> u32 \<Rightarrow> world \<Rightarrow> world" where
  "added e name uid0 w =
     (let a = length (users w); uid = new_uid w uid0
      in w\<lparr>users := users w @ [(UserCacheItem e a name)\<lparr>u_id := uid\<rparr>],
           next_uid := if uid0 = 0 then next_uid w + 1 else if uid0 \<ge> next_uid w then uid0 + 1 else next_uid w,
           user_count := if uid > 0 then user_count w + 1 else user_count w,
           id_map := if uid > 0 then uset (=) (id_map w) uid a else id_map w,
           name_map := uset CompareInCaseEqual (name_map w) name a\<rparr>)"

lemma wp_UserAdd [wps]: "wp (UserAdd e name uid0) Q w = Q (length (users w)) (added e name uid0 w)"
  by (cases w) (simp add: UserAdd_def new_user_def added_def new_uid_def Let_def)

lemma ucache_okI:
  assumes "udistinct (=) (id_map w)" and "udistinct CompareInCaseEqual (name_map w)"
    and "\<And>i a. (i, a) \<in> set (id_map w) \<Longrightarrow> a < length (users w) \<and> u_id (users w ! a) = i \<and> i \<noteq> 0"
    and "\<And>n a. (n, a) \<in> set (name_map w) \<Longrightarrow> a < length (users w) \<and> CompareInCaseEqual n (u_username (users w ! a))"
  shows "ucache_ok w"
  unfolding ucache_ok_def using assms by auto

lemma ucache_okD:
  assumes "ucache_ok w"
  shows "udistinct (=) (id_map w)" and "udistinct CompareInCaseEqual (name_map w)"
    and "(i, a) \<in> set (id_map w) \<Longrightarrow> a < length (users w) \<and> u_id (users w ! a) = i \<and> i \<noteq> 0"
    and "(n, a) \<in> set (name_map w) \<Longrightarrow> a < length (users w) \<and> CompareInCaseEqual n (u_username (users w ! a))"
  using assms unfolding ucache_ok_def by auto

lemma ufind_id_ok:
  assumes "ucache_ok w" and "ufind (=) (id_map w) i = Some a"
  shows "a < length (users w) \<and> u_id (users w ! a) = i \<and> i \<noteq> 0"
  using ufind_SomeD [OF assms(2)] ucache_okD(3) [OF assms(1)] by auto

lemma ufind_name_ok:
  assumes "ucache_ok w" and "ufind CompareInCaseEqual (name_map w) n = Some a"
  shows "a < length (users w) \<and> CompareInCaseEqual n (u_username (users w ! a))"
proof -
  obtain k where k: "(k, a) \<in> set (name_map w)" "CompareInCaseEqual k n"
    using ufind_SomeD [OF assms(2)] by blast
  from ucache_okD(4) [OF assms(1) k(1)] show ?thesis using ci.eq_trans [OF ci.eq_sym [OF k(2)]] by blast
qed

lemma ucache_ok_added:
  assumes ok: "ucache_ok w"
  shows "ucache_ok (added e name uid0 w)"
proof (rule ucache_okI)
  let ?w = "added e name uid0 w"
  have us: "users ?w = users w @ [(UserCacheItem e (length (users w)) name)\<lparr>u_id := new_uid w uid0\<rparr>]"
    and im: "id_map ?w = (if new_uid w uid0 > 0 then uset (=) (id_map w) (new_uid w uid0) (length (users w)) else id_map w)"
    and nm: "name_map ?w = uset CompareInCaseEqual (name_map w) name (length (users w))"
    by (simp_all add: added_def Let_def)
  show "udistinct (=) (id_map ?w)" "udistinct CompareInCaseEqual (name_map ?w)"
    using ucache_okD(1,2) [OF ok] by (simp_all add: im nm keq.udistinct_uset ci.udistinct_uset)
  show "a < length (users ?w) \<and> u_id (users ?w ! a) = i \<and> i \<noteq> 0" if "(i, a) \<in> set (id_map ?w)" for i a
  proof (cases "(i, a) \<in> set (id_map w)")
    case True
    then show ?thesis using ucache_okD(3) [OF ok True] by (simp add: us nth_append)
  next
    case False
    then have "a = length (users w)" "i = new_uid w uid0" "new_uid w uid0 > 0"
      using that uset_memberD [of "(i, a)" "(=)" "id_map w"] by (auto simp: im split: if_splits)
    then show ?thesis by (simp add: us word_gt_0)
  qed
  show "a < length (users ?w) \<and> CompareInCaseEqual n (u_username (users ?w ! a))"
    if "(n, a) \<in> set (name_map ?w)" for n a
  proof (cases "(n, a) \<in> set (name_map w)")
    case True
    then show ?thesis using ucache_okD(4) [OF ok True] by (simp add: us nth_append)
  next
    case False
    then have "a = length (users w)" "n = name \<or> CompareInCaseEqual n name"
      using that uset_memberD [of "(n, a)" CompareInCaseEqual "name_map w"] by (auto simp: nm)
    then show ?thesis by (auto simp: us UserCacheItem_def ci.eq_refl)
  qed
qed

lemma ucache_ok_sub:
  assumes "ucache_ok w" and "users w' = users w"
    and "id_map w' = id_map w \<or> (\<exists>i. id_map w' = uerase (=) (id_map w) i)"
    and "name_map w' = name_map w \<or> (\<exists>n. name_map w' = uerase CompareInCaseEqual (name_map w) n)"
  shows "ucache_ok w'"
proof (rule ucache_okI)
  show "udistinct (=) (id_map w')" "udistinct CompareInCaseEqual (name_map w')"
    using assms(3,4) ucache_okD(1,2) [OF assms(1)] keq.udistinct_uerase ci.udistinct_uerase by metis+
  show "a < length (users w') \<and> u_id (users w' ! a) = i \<and> i \<noteq> 0" if "(i, a) \<in> set (id_map w')" for i a
    using ucache_okD(3) [OF assms(1), of i a] that assms(2,3) set_uerase_subset by (metis subsetD)
  show "a < length (users w') \<and> CompareInCaseEqual n (u_username (users w' ! a))"
    if "(n, a) \<in> set (name_map w')" for n a
    using ucache_okD(4) [OF assms(1), of n a] that assms(2,4) set_uerase_subset by (metis subsetD)
qed

lemmas cache_op_defs = Take_id_def Take_name_def Remove_id_def Remove_name_def

lemma ucache_ok_ops:
  assumes "ucache_ok w"
  shows "wp (UserAdd e name uid0) (\<lambda>_. ucache_ok) w" "wp (Take_id i) (\<lambda>_. ucache_ok) w"
    "wp (Take_name n) (\<lambda>_. ucache_ok) w" "wp (Remove_id i) (\<lambda>_. ucache_ok) w"
    "wp (Remove_name n) (\<lambda>_. ucache_ok) w"
proof -
  show "wp (UserAdd e name uid0) (\<lambda>_. ucache_ok) w"
    by (simp add: wp_UserAdd ucache_ok_added assms)
qed (use assms in \<open>auto simp: cache_op_defs split: option.splits intro!: ucache_ok_sub [OF assms]
    dest: ufind_id_ok ufind_name_ok\<close>)

section \<open>Loading terminates\<close>

definition ids :: "world \<Rightarrow> u32 set" where
  "ids w = fst ` set (id_map w)"

text \<open>What loading keeps: the invariant, the executed statements, and everything already loaded.\<close>

definition grows :: "world \<Rightarrow> world \<Rightarrow> bool" where
  "grows w w' \<longleftrightarrow> ucache_ok w' \<and> sql w' = sql w \<and> ids w \<subseteq> ids w' \<and> length (users w) \<le> length (users w')
     \<and> (\<forall>a<length (users w). u_id (users w' ! a) = u_id (users w ! a))"

lemma grows_trans: "grows w w' \<Longrightarrow> grows w' w'' \<Longrightarrow> grows w w''"
  by (auto simp: grows_def)

lemma grows_refl: "ucache_ok w \<Longrightarrow> grows w w"
  by (simp add: grows_def)

lemma ucache_ok_same:
  assumes "ucache_ok w" and "id_map w' = id_map w" and "name_map w' = name_map w"
    and "map u_id (users w') = map u_id (users w)" and "map u_username (users w') = map u_username (users w)"
  shows "ucache_ok w'"
proof -
  have l: "length (users w') = length (users w)" using assms(4) by (metis length_map)
  have "u_id (users w' ! b) = u_id (users w ! b) \<and> u_username (users w' ! b) = u_username (users w ! b)"
    if "b < length (users w)" for b
    using that l assms(4,5) by (metis nth_map)
  then show ?thesis using assms(1-3) l by (auto simp: ucache_ok_def)
qed

lemma grows_same:
  assumes "grows w v" and "id_map v' = id_map v" and "name_map v' = name_map v" and "sql v' = sql v"
    and "map u_id (users v') = map u_id (users v)" and "map u_username (users v') = map u_username (users v)"
  shows "grows w v'"
proof -
  have l: "length (users v') = length (users v)" using assms(5) by (metis length_map)
  then have "u_id (users v' ! b) = u_id (users v ! b)" if "b < length (users v)" for b
    using that assms(5) by (metis nth_map)
  then show ?thesis using ucache_ok_same [of v v'] assms l by (simp add: grows_def ids_def)
qed

lemma map_update_same: "a < length xs \<Longrightarrow> g y = g (xs ! a) \<Longrightarrow> map g (xs[a := y]) = map g xs"
  by (simp add: map_update list_update_same_conv)

lemma same_nth: "map g xs = map g ys \<Longrightarrow> a < length ys \<Longrightarrow> a < length xs \<and> g (xs ! a) = g (ys ! a)"
  by (metis length_map nth_map)

lemma setters_keep [simp]:
  "u_id (SetSalt s u) = u_id u" "u_id (SetVerifier s u) = u_id u" "u_id (SetPasswd s u) = u_id u"
  "u_id (SetMail m u) = u_id u" "u_id (SetUserFlag f u) = u_id u" "u_id (SetDataMap d u) = u_id u"
  "u_username (SetSalt s u) = u_username u" "u_username (SetVerifier s u) = u_username u"
  "u_username (SetPasswd s u) = u_username u" "u_username (SetMail m u) = u_username u"
  "u_username (SetUserFlag f u) = u_username u" "u_username (SetDataMap d u) = u_username u"
  by (simp_all add: SetSalt_def SetVerifier_def SetPasswd_def SetMail_def SetUserFlag_def SetDataMap_def)

lemma find_user_bound: "find_user a i fs \<ge> 0 \<Longrightarrow> nat (find_user a i fs) < i + length fs"
  by (induction a i fs rule: find_user.induct) (auto split: if_splits)

lemma wp_AddFriend_grows:
  assumes "ucache_ok w" and "this < length (users w)" and "\<And>a. user = Some a \<Longrightarrow> a < length (users w)"
  shows "wp (AddFriend this user) (\<lambda>_. grows w) w"
proof (cases user)
  case None
  then show ?thesis using assms(1) by (simp add: AddFriend_def grows_refl)
next
  case (Some a)
  show ?thesis
    using Some assms
    by (auto simp: AddFriend_def Let_def grows_refl map_update_same nth_list_update
        intro!: grows_same [OF grows_refl [OF assms(1)]])
qed

text \<open>
  What the database must answer for the accounts \<open>D\<close>: the query for an account of \<open>D\<close> returns its
  one row, with columns of the declared types, and its friend list names accounts of \<open>D\<close> only.
\<close>

definition user_query :: "string \<Rightarrow> string" where
  "user_query cond = c_str (select_text ''users'' user_keys @ '' WHERE '' @ cond)"

definition friends_query :: "u32 \<Rightarrow> string" where
  "friends_query i = c_str (select_text ''friends'' [''friendlist''] @ '' WHERE '' @ ''userid='' @ dec_nat (unat i))"

definition user_columns :: "column list \<Rightarrow> u32 \<Rightarrow> bool" where
  "user_columns row i \<longleftrightarrow> (\<exists>uname salt ver pw mail flag data.
     row = [CInt (uint i), CText uname, CBlob salt, CBlob ver, CBlob pw, CText mail, CInt flag, CBlob data])"

definition friends_answer :: "env \<Rightarrow> string list \<Rightarrow> u32 set \<Rightarrow> u32 \<Rightarrow> bool" where
  "friends_answer e s D i \<longleftrightarrow> sql_query e s (friends_query i) = Some [] \<or>
     (\<exists>b r rs. sql_query e s (friends_query i) = Some ((CBlob b # r) # rs) \<and> set (words_of b) \<subseteq> D)"

definition db_ok :: "env \<Rightarrow> string list \<Rightarrow> u32 set \<Rightarrow> bool" where
  "db_ok e s D \<longleftrightarrow> finite D \<and> 0 \<notin> D \<and> (\<forall>i\<in>D.
     (\<exists>row. sql_query e s (user_query (''userid='' @ dec_nat (unat i))) = Some [row] \<and> user_columns row i)
     \<and> friends_answer e s D i)"

lemma c_str_cond: "c_str (''userid='' @ t) \<noteq> []" "c_str (''username='' @ t) \<noteq> []"
  by (simp_all add: c_str_def NUL_def)

lemma wp_where_id: "wp (where_text None i) Q w = Q (''userid='' @ dec_nat (unat i)) w"
proof -
  have "length (dec_nat n) \<le> Suc k" if "n < 10 ^ Suc k" for n k
    using that
  proof (induction k arbitrary: n)
    case 0
    then show ?case by (simp add: dec_nat.simps)
  next
    case (Suc k)
    then have "n div 10 < 10 ^ Suc k" by (simp add: less_mult_imp_div_less)
    from Suc.IH [OF this] show ?case by (simp add: dec_nat.simps [of n])
  qed
  from this [of "unat i" 9] have "length (dec_nat (unat i)) \<le> 10" using unat_bound(3) [of i] by simp
  then show ?thesis by (simp add: where_text_def Let_def)
qed

lemma length_user_keys: "length user_keys = 8"
  by (simp add: user_keys_def)

lemma wp_users_row:
  assumes "sql_query e (sql w) (user_query cond) = Some [row]" and "c_str cond \<noteq> []"
  shows "wp (GetMatch e ''users'' user_keys cond []) Q w = Q (True, [map of_column (take 8 row)]) w"
  using assms by (simp add: GetMatch_def user_query_def length_user_keys)

lemma wp_friends_rows:
  assumes "sql_query e (sql w) (friends_query i) = Some rows"
  shows "wp (GetMatch e ''friends'' [''friendlist''] (''userid='' @ dec_nat (unat i)) []) Q w =
     Q (True, map (\<lambda>r. map of_column (take 1 r)) rows) w"
  using assms c_str_cond(1) [of "dec_nat (unat i)"] by (simp add: GetMatch_def friends_query_def)

lemma wp_cell [wps, simp]: "wp (cell rows i j) Q w = (i < length rows \<and> j < length (rows ! i) \<and> Q (rows ! i ! j) w)"
  by (auto simp: cell_def)

lemma wp_vals [wps, simp]:
  "wp (lVal (DInt i)) Q w = Q i w" "wp (sVal (DString s)) R w = R s w" "wp (bVal (DBinary b)) P w = P b w"
  by (simp_all add: lVal_def sVal_def bVal_def)

lemma cell_ret: "i < length rows \<Longrightarrow> j < length (rows ! i) \<Longrightarrow> cell rows i j = ret (rows ! i ! j)"
  by (simp add: cell_def)

lemma val_ret: "lVal (DInt i) = ret i" "sVal (DString s) = ret s" "bVal (DBinary b) = ret b"
  by (simp_all add: lVal_def sVal_def bVal_def)

lemma wp_fill_user:
  assumes "user_columns row i" and "grows w0 w" and "ptr < length (users w)"
  shows "wp (fill_user [map of_column row] ptr) (\<lambda>_ w'. grows w0 w' \<and> id_map w' = id_map w \<and> map u_id (users w') = map u_id (users w)) w"
  using assms
  by (auto simp: user_columns_def fill_user_def Let_def map_update_same
      intro!: grows_same [OF assms(2)])

lemma uset_ids: "fst ` set (uset (=) m k v) = insert k (fst ` set m)"
  by (induction "(=) :: 'a \<Rightarrow> 'a \<Rightarrow> bool" m k v rule: uset.induct) auto

lemma ids_added: "new_uid w uid0 > 0 \<Longrightarrow> ids (added e name uid0 w) = insert (new_uid w uid0) (ids w)"
  by (simp add: ids_def added_def Let_def uset_ids)

lemma grows_added: "ucache_ok w \<Longrightarrow> grows w (added e name uid0 w)"
  using ucache_ok_added [of w e name uid0]
  by (auto simp: grows_def ids_def added_def Let_def uset_ids nth_append)

lemma wp_found: "ucache_ok w \<Longrightarrow> ufind (=) (id_map w) i = Some a \<Longrightarrow> wp (found a) Q w = Q (Some a) w"
  using ufind_id_ok [of w i a] by (simp add: found_def IsExist_def word_gt_0)

lemma ufind_ids: "ufind (=) (id_map w) i = None \<longleftrightarrow> i \<notin> ids w"
  by (force simp: ufind_None_iff ids_def)

text \<open>A loaded account: its address is valid and nothing was lost.\<close>

definition loaded :: "world \<Rightarrow> nat option \<Rightarrow> world \<Rightarrow> bool" where
  "loaded w p w' \<longleftrightarrow> grows w w' \<and> (\<forall>a. p = Some a \<longrightarrow> a < length (users w'))"

lemma wp_friend_loop:
  assumes load: "\<And>i v. grows w v \<Longrightarrow> i \<in> D \<Longrightarrow> wp (by_id load i) (loaded v) v"
    and "grows w v" and "ptr < length (users v)" and "set fids \<subseteq> D"
  shows "wp (forM fids (\<lambda>fid. bind (by_id load fid) (\<lambda>fr. bind (AddFriend ptr fr) (\<lambda>_. ret ())))) (\<lambda>_. grows v) v"
proof -
  have "wp (forM fids (\<lambda>fid. bind (by_id load fid) (\<lambda>fr. bind (AddFriend ptr fr) (\<lambda>_. ret ())))) (\<lambda>_. grows v) v"
  proof (rule wp_forM_inv)
    show "grows v v" using assms(2) by (auto simp: grows_def)
  next
    fix x u assume x: "x \<in> set fids" and u: "grows v u"
    have "wp (by_id load x) (loaded u) u"
      using load [OF grows_trans [OF assms(2) u]] x assms(4) by blast
    then show "wp (bind (by_id load x) (\<lambda>fr. bind (AddFriend ptr fr) (\<lambda>_. ret ()))) (\<lambda>_. grows v) u"
      unfolding wp_bind wp_ret
    proof (rule wp_mono)
      fix fr u' assume l: "loaded u fr u'"
      then have "grows v u'" using u by (auto simp: loaded_def intro: grows_trans)
      moreover have "wp (AddFriend ptr fr) (\<lambda>_. grows u') u'"
        by (rule wp_AddFriend_grows) (use l u assms(3) in \<open>auto simp: loaded_def grows_def\<close>)
      ultimately show "wp (AddFriend ptr fr) (\<lambda>_. grows v) u'"
        by (auto elim!: wp_mono intro: grows_trans)
    qed
  qed
  then show ?thesis .
qed

lemma LoadUser_row:
  assumes load: "\<And>i v. grows w v \<Longrightarrow> uid \<in> ids v \<Longrightarrow> i \<in> D \<Longrightarrow> wp (by_id (LoadUser n e) i) (loaded v) v"
    and ok: "ucache_ok w" and q: "sql_query e (sql w) (user_query cond) = Some [row]"
    and row: "user_columns row uid" and uid: "uid \<noteq> 0" and fr: "friends_answer e (sql w) D uid"
    and c: "c_str cond \<noteq> []" and cond: "\<And>Q. wp (where_text name i) Q w = Q cond w"
  shows "wp (LoadUser (Suc n) e name i) (\<lambda>p w'. loaded w p w' \<and> (\<exists>a. p = Some a \<and> u_id (users w' ! a) = uid) \<and> uid \<in> ids w') w"
proof -
  obtain uname salt ver pw mail flag data where
    r: "row = [CInt (uint uid), CText uname, CBlob salt, CBlob ver, CBlob pw, CText mail, CInt flag, CBlob data]"
    using row by (auto simp: user_columns_def)
  let ?w1 = "added e (c_str uname) uid w" and ?p = "length (users w)"
  have g1: "grows w ?w1" by (rule grows_added [OF ok])
  have p1: "?p < length (users ?w1)" by (simp add: added_def Let_def)
  have i1: "uid \<in> ids ?w1" using uid by (simp add: ids_added new_uid_def word_gt_0)
  have u1: "u_id (users ?w1 ! ?p) = uid" using uid by (simp add: added_def Let_def new_uid_def)
  have fill: "wp (fill_user [map of_column row] ?p)
      (\<lambda>_ v. grows w v \<and> id_map v = id_map ?w1 \<and> map u_id (users v) = map u_id (users ?w1)) ?w1"
    by (rule wp_fill_user [OF row g1 p1])
  have friends: "wp (whenM (length frows \<ge> 1) (bind (bind (cell frows 0 0) bVal) (\<lambda>b.
      forM (words_of b) (\<lambda>fid. bind (by_id (LoadUser n e) fid) (\<lambda>fr. bind (AddFriend ?p fr) (\<lambda>_. ret ()))))))
      (\<lambda>_. grows v) v"
    if v: "grows w v" "uid \<in> ids v" "?p < length (users v)"
      and f: "frows = [] \<or> (\<exists>b rs. frows = [DBinary b] # rs \<and> set (words_of b) \<subseteq> D)" for v frows
  proof (cases "frows = []")
    case True
    then show ?thesis using v(1) by (simp add: grows_def)
  next
    case False
    then obtain b rs where b: "frows = [DBinary b] # rs" "set (words_of b) \<subseteq> D" using f by auto
    have "wp (forM (words_of b) (\<lambda>fid. bind (by_id (LoadUser n e) fid) (\<lambda>fr. bind (AddFriend ?p fr) (\<lambda>_. ret ()))))
        (\<lambda>_. grows v) v"
    proof (rule wp_friend_loop [of v D])
      show "wp (by_id (LoadUser n e) i) (loaded u) u" if "grows v u" "i \<in> D" for i u
        by (rule load) (use that v in \<open>auto simp: grows_def\<close>)
    qed (use v b(2) in \<open>auto simp: grows_def\<close>)
    then show ?thesis using b(1) by simp
  qed
  let ?T = "bind (where_text None uid) (\<lambda>cond. bind (GetMatch e ''friends'' [''friendlist''] cond []) (\<lambda>(_, frows).
       seq (whenM (length frows \<ge> 1) (bind (bind (cell frows 0 0) bVal) (\<lambda>b.
          forM (words_of b) (\<lambda>fid. bind (by_id (LoadUser n e) fid) (\<lambda>fr. bind (AddFriend ?p fr) (\<lambda>_. ret ()))))))
        (ret (Some ?p))))"
  let ?Q = "\<lambda>p w'. loaded w p w' \<and> (\<exists>a. p = Some a \<and> u_id (users w' ! a) = uid) \<and> uid \<in> ids w'"
  have tail: "wp ?T ?Q v"
    if v: "grows w v" "uid \<in> ids v" "?p < length (users v)" "u_id (users v ! ?p) = uid" for v
  proof -
    have s: "sql v = sql w" using v(1) by (simp add: grows_def)
    obtain rows where q2: "sql_query e (sql v) (friends_query uid) = Some rows"
      and rr: "rows = [] \<or> (\<exists>b r rs. rows = (CBlob b # r) # rs \<and> set (words_of b) \<subseteq> D)"
      using fr s unfolding friends_answer_def by auto
    let ?fr = "map (\<lambda>r. map of_column (take 1 r)) rows"
    have "?fr = [] \<or> (\<exists>b rs. ?fr = [DBinary b] # rs \<and> set (words_of b) \<subseteq> D)" using rr by auto
    note f = friends [OF v(1-3) this]
    show ?thesis
      unfolding wp_bind wp_where_id wp_friends_rows [OF q2] prod.case
      by (rule wp_seqI [OF f]) (use v in \<open>auto simp: loaded_def grows_def\<close>)
  qed
  have u: "word_of_int (uint uid) = uid" by simp
  have row1: "[map of_column (take 8 row)] = [map of_column row]" by (simp add: r)
  have "wp (seq (fill_user [map of_column row] ?p) ?T) ?Q ?w1"
  proof (rule wp_seqI [OF fill], elim conjE)
    fix v assume v: "grows w v" "id_map v = id_map ?w1" "map u_id (users v) = map u_id (users ?w1)"
    note same_nth [OF v(3) p1] u1
    moreover have "uid \<in> ids v" using i1 v(2) by (simp only: ids_def)
    ultimately show "wp ?T ?Q v" using v(1) by (intro tail) simp_all
  qed
  then show ?thesis
    unfolding LoadUser.simps wp_bind cond wp_users_row [OF q c] prod.case row1
    by (simp add: r cell_ret val_ret wp_bind [of "UserAdd e _ _"] wp_UserAdd del: wp_seq wp_bind wp_whenM)
qed

text \<open>
  Enough fuel: as many units as there are accounts of \<open>D\<close> that are not loaded. Every nested load
  adds an account before it goes on, so the bound goes down.
\<close>

lemma by_id_terminates:
  "db_ok e (sql w) D \<Longrightarrow> ucache_ok w \<Longrightarrow> i \<in> D \<Longrightarrow> card (D - ids w) \<le> n \<Longrightarrow>
     wp (by_id (LoadUser n e) i) (\<lambda>p w'. loaded w p w' \<and> (\<exists>a. p = Some a \<and> u_id (users w' ! a) = i)) w"
proof (induction n arbitrary: w i)
  case (0 w i)
  then have "finite (D - ids w)" by (simp add: db_ok_def)
  then have "i \<in> ids w" using "0.prems" by auto
  then obtain a where a: "ufind (=) (id_map w) i = Some a" using ufind_ids by (metis not_None_eq)
  then show ?case using "0.prems"(2) wp_found [of w i a] ufind_id_ok [OF "0.prems"(2) a]
    by (simp add: by_id_def loaded_def grows_refl)
next
  case (Suc n w i)
  show ?case
  proof (cases "ufind (=) (id_map w) i")
    case (Some a)
    then show ?thesis using Suc.prems(2) wp_found [of w i a] ufind_id_ok [OF Suc.prems(2) Some]
      by (simp add: by_id_def loaded_def grows_refl)
  next
    case None
    then have ni: "i \<notin> ids w" by (simp add: ufind_ids)
    have fin: "finite D" and i0: "i \<noteq> 0" using Suc.prems(1,3) by (auto simp: db_ok_def)
    obtain row where q: "sql_query e (sql w) (user_query (''userid='' @ dec_nat (unat i))) = Some [row]"
      and row: "user_columns row i" and fr: "friends_answer e (sql w) D i"
      using Suc.prems(1,3) unfolding db_ok_def by blast
    have "wp (LoadUser (Suc n) e None i) (\<lambda>p w'. loaded w p w' \<and> (\<exists>a. p = Some a \<and> u_id (users w' ! a) = i) \<and> i \<in> ids w') w"
    proof (rule LoadUser_row [OF _ Suc.prems(2) q row i0 fr c_str_cond(1) wp_where_id])
      fix j v assume v: "grows w v" "i \<in> ids v" "j \<in> D"
      have gv: "ucache_ok v" "sql v = sql w" "ids w \<subseteq> ids v" using v(1) by (simp_all add: grows_def)
      then have "D - ids v \<subset> D - ids w" using v(2) ni Suc.prems(3) by auto
      then have "card (D - ids v) < card (D - ids w)" using fin by (simp add: psubset_card_mono)
      then have "wp (by_id (LoadUser n e) j) (\<lambda>p w'. loaded v p w' \<and> (\<exists>a. p = Some a \<and> u_id (users w' ! a) = j)) v"
        using Suc.prems(1,4) gv v(3) by (intro Suc.IH) simp_all
      then show "wp (by_id (LoadUser n e) j) (loaded v) v" by (rule wp_mono) simp
    qed
    then have "wp (LoadUser (Suc n) e None i)
        (\<lambda>p w'. loaded w p w' \<and> (\<exists>a. p = Some a \<and> u_id (users w' ! a) = i)) w" by (rule wp_mono) simp
    then show ?thesis using None by (simp add: by_id_def del: LoadUser.simps)
  qed
qed

text \<open>
  C13. Loading an account terminates: with as many levels of nested loads as there are accounts
  not yet in memory, asking for an account of the database returns that account, the indexes
  stay consistent and every account loaded before is still there, even when accounts are friends
  of each other in a circle.
\<close>

theorem loading_terminates:
  assumes "db_ok e (sql w) D" and "ucache_ok w" and "i \<in> D" and "card (D - ids w) \<le> n"
  shows "\<exists>a w'. user_by_id n e i w = Inr (Some a, w') \<and> a < length (users w') \<and> u_id (users w' ! a) = i
     \<and> ucache_ok w' \<and> ids w \<subseteq> ids w'"
  using by_id_terminates [OF assms] unfolding user_by_id_def wp_run by (auto simp: loaded_def grows_def)

definition row_of :: "u32 \<Rightarrow> string \<Rightarrow> column list" where
  "row_of i name = [CInt (uint i), CText name, CBlob [], CBlob [], CBlob [], CText [], CInt 0, CBlob []]"

text \<open>A database with two accounts, each the friend of the other.\<close>

definition two_friends :: env where
  "two_friends = env0\<lparr>sql_query := (\<lambda>_ q.
     if q = user_query ''userid=1'' then Some [row_of 1 ''ann'']
     else if q = user_query ''userid=2'' then Some [row_of 2 ''bob'']
     else if q = friends_query 1 then Some [[CBlob (concat (map le32 [2]))]]
     else if q = friends_query 2 then Some [[CBlob (concat (map le32 [1]))]]
     else None)\<rparr>"

lemma words_of_le32: "words_of (concat (map le32 xs)) = xs"
proof (induction xs)
  case (Cons x xs)
  obtain a b c d where l: "le32 x = [a, b, c, d]"
  proof -
    have "length (le32 x) = Suc (Suc (Suc (Suc 0)))" by simp
    then show ?thesis using that by (auto simp only: length_Suc_conv length_0_conv)
  qed
  then have "of_le32 [a, b, c, d] = x" using of_le32_le32 [of x] by simp
  then show ?case using Cons l by simp
qed simp

lemma dec_12: "dec_nat (Suc 0) = ''1''" "dec_nat 2 = ''2''"
  by (simp_all add: dec_nat.simps digit_def char_of_def bit_0)

lemma query_texts:
  "user_query ''userid=1'' \<noteq> user_query ''userid=2''" "user_query ''userid=1'' \<noteq> friends_query i"
  "user_query ''userid=2'' \<noteq> friends_query i" "friends_query 1 \<noteq> friends_query 2"
  by (simp_all add: user_query_def friends_query_def c_str_def NUL_def select_text_def user_keys_def dec_12)

lemma two_friends_ok: "db_ok two_friends [] {1, 2}"
  using query_texts query_texts [THEN not_sym]
  by (auto simp: db_ok_def two_friends_def dec_12 friends_answer_def user_columns_def row_of_def
      words_of_le32 [of "[_]", simplified])

theorem loading_terminates_witness:
  "\<exists>a w'. user_by_id 2 two_friends 1 world0 = Inr (Some a, w') \<and> a < length (users w') \<and> u_id (users w' ! a) = 1
     \<and> ucache_ok w' \<and> ids world0 \<subseteq> ids w'"
  by (rule loading_terminates [of _ _ "{1, 2}"])
    (simp_all add: two_friends_ok world0_def ucache_ok_def ids_def)

section \<open>Adding, finding and removing accounts\<close>

text \<open>
  The two indexes mirror each other: an account that is found by its number is found by its name, one that is
  found by a name is found by its number, unless its number is 0, and \<open>user_count\<close> counts the numbers.
\<close>

definition ucache_linked :: "world \<Rightarrow> bool" where
  "ucache_linked w \<longleftrightarrow> ucache_ok w
     \<and> (\<forall>p\<in>set (id_map w). ufind CompareInCaseEqual (name_map w) (u_username (users w ! snd p)) = Some (snd p))
     \<and> (\<forall>p\<in>set (name_map w). u_id (users w ! snd p) \<noteq> 0 \<longrightarrow> ufind (=) (id_map w) (u_id (users w ! snd p)) = Some (snd p))
     \<and> user_count w = of_nat (length (id_map w))"

lemma ucache_linkedD:
  assumes "ucache_linked w"
  shows "ucache_ok w" and "user_count w = of_nat (length (id_map w))"
    and "ufind (=) (id_map w) i = Some a \<Longrightarrow> ufind CompareInCaseEqual (name_map w) (u_username (users w ! a)) = Some a"
    and "ufind CompareInCaseEqual (name_map w) n = Some a \<Longrightarrow> u_id (users w ! a) \<noteq> 0 \<Longrightarrow>
      ufind (=) (id_map w) (u_id (users w ! a)) = Some a"
  using assms ufind_SomeD [of "(=)" "id_map w" i a] ufind_SomeD [of CompareInCaseEqual "name_map w" n a]
  unfolding ucache_linked_def by force+

lemma ucache_linkedI:
  assumes "ucache_ok w" and "user_count w = of_nat (length (id_map w))"
    and "\<And>i a. ufind (=) (id_map w) i = Some a \<Longrightarrow> ufind CompareInCaseEqual (name_map w) (u_username (users w ! a)) = Some a"
    and "\<And>n a. ufind CompareInCaseEqual (name_map w) n = Some a \<Longrightarrow> u_id (users w ! a) \<noteq> 0 \<Longrightarrow>
      ufind (=) (id_map w) (u_id (users w ! a)) = Some a"
  shows "ucache_linked w"
  unfolding ucache_linked_def
  using assms keq.ufind_memberI [OF ucache_okD(1) [OF assms(1)]] ci.ufind_memberI [OF ucache_okD(2) [OF assms(1)]]
  by (metis prod.collapse)

text \<open>An account leaves both indexes at once.\<close>

lemma ucache_linked_dropped:
  assumes l: "ucache_linked w" and a: "ufind CompareInCaseEqual (name_map w) (u_username (users w ! a)) = Some a"
    and n: "CompareInCaseEqual n (u_username (users w ! a))" and i: "u_id (users w ! a) = i"
    and w': "users w' = users w" "name_map w' = uerase CompareInCaseEqual (name_map w) n"
      "id_map w' = (if i = 0 then id_map w else uerase (=) (id_map w) i)"
      "user_count w' = (if i = 0 then user_count w else user_count w - 1)"
  shows "ucache_linked w'"
proof (rule ucache_linkedI)
  note ok = ucache_linkedD(1) [OF l]
  note fi = keq.ufind_uerase [OF ucache_okD(1) [OF ok]] and fn = ci.ufind_uerase [OF ucache_okD(2) [OF ok]]
  show "ucache_ok w'" by (rule ucache_ok_sub [OF ok w'(1)]) (use w'(2,3) in metis)+
  have "i \<noteq> 0 \<Longrightarrow> ufind (=) (id_map w) i = Some a" using ucache_linkedD(4) [OF l a] i by simp
  then show "user_count w' = of_nat (length (id_map w'))"
    using ucache_linkedD(2) [OF l] length_uerase_present [of "(=)" "id_map w" i a]
    by (cases "length (id_map w)"; cases "i = 0") (simp_all add: w')
  fix j b assume "ufind (=) (id_map w') j = Some b"
  then have b: "ufind (=) (id_map w) j = Some b" "i \<noteq> 0 \<Longrightarrow> i \<noteq> j" by (auto simp: w' fi split: if_splits)
  have j: "u_id (users w ! b) = j" "j \<noteq> 0" using ufind_id_ok [OF ok b(1)] by auto
  have "\<not> CompareInCaseEqual n (u_username (users w ! b))"
  proof
    assume "CompareInCaseEqual n (u_username (users w ! b))"
    then have "CompareInCaseEqual (u_username (users w ! a)) (u_username (users w ! b))" by (rule ci.eq_trans [OF ci.eq_sym [OF n]])
    from ci.ufind_cong [OF this, of "name_map w"] have "a = b" unfolding a ucache_linkedD(3) [OF l b(1)] by simp
    then show False using b(2) i j by auto
  qed
  then show "ufind CompareInCaseEqual (name_map w') (u_username (users w' ! b)) = Some b"
    using ucache_linkedD(3) [OF l b(1)] by (simp add: w' fn)
next
  note ok = ucache_linkedD(1) [OF l]
  note fi = keq.ufind_uerase [OF ucache_okD(1) [OF ok]] and fn = ci.ufind_uerase [OF ucache_okD(2) [OF ok]]
  fix m b assume m: "ufind CompareInCaseEqual (name_map w') m = Some b" and z: "u_id (users w' ! b) \<noteq> 0"
  then have b: "ufind CompareInCaseEqual (name_map w) m = Some b" "\<not> CompareInCaseEqual n m" by (auto simp: w' fn split: if_splits)
  have "i \<noteq> u_id (users w ! b)"
  proof
    assume "i = u_id (users w ! b)"
    then have "a = b" using ucache_linkedD(4) [OF l a] ucache_linkedD(4) [OF l b(1)] z i by (simp add: w')
    then show False using ci.eq_trans [OF n ci.eq_sym] ufind_name_ok [OF ok b(1)] b(2) by blast
  qed
  then show "ufind (=) (id_map w') (u_id (users w' ! b)) = Some b"
    using ucache_linkedD(4) [OF l b(1)] z by (simp add: w' fi)
qed

text \<open>Whether a name and a number can be given to a new account: the callers of \<^verbatim>\<open>Add\<close> have looked for both.\<close>

definition vacant :: "world \<Rightarrow> string \<Rightarrow> u32 \<Rightarrow> bool" where
  "vacant w name uid0 \<longleftrightarrow> (case ufind CompareInCaseEqual (name_map w) name of None \<Rightarrow> True | Some a \<Rightarrow> \<not> IsExist (users w ! a))
     \<and> ufind (=) (id_map w) (new_uid w uid0) = None"

lemma ucache_linked_added:
  assumes l: "ucache_linked w" and v: "vacant w name uid0"
  shows "ucache_linked (added e name uid0 w)"
proof -
  let ?w = "added e name uid0 w" and ?a = "length (users w)" and ?i = "new_uid w uid0"
  note ok = ucache_linkedD(1) [OF l]
  have us: "users ?w = users w @ [(UserCacheItem e ?a name)\<lparr>u_id := ?i\<rparr>]"
    and im: "id_map ?w = (if ?i > 0 then uset (=) (id_map w) ?i ?a else id_map w)"
    and nm: "name_map ?w = uset CompareInCaseEqual (name_map w) name ?a"
    and uc: "user_count ?w = (if ?i > 0 then user_count w + 1 else user_count w)"
    by (simp_all add: added_def Let_def)
  have new: "u_id (users ?w ! ?a) = ?i" "u_username (users ?w ! ?a) = name" by (simp_all add: us UserCacheItem_def)
  have old: "u_id (users ?w ! b) = u_id (users w ! b)" "u_username (users ?w ! b) = u_username (users w ! b)" if "b < ?a" for b
    using that by (simp_all add: us nth_append)
  show ?thesis
  proof (rule ucache_linkedI)
    show "ucache_ok ?w" by (rule ucache_ok_added [OF ok])
    show "user_count ?w = of_nat (length (id_map ?w))"
      using ucache_linkedD(2) [OF l] v by (simp add: uc im length_uset vacant_def)
  next
    fix j b assume j: "ufind (=) (id_map ?w) j = Some b"
    show "ufind CompareInCaseEqual (name_map ?w) (u_username (users ?w ! b)) = Some b"
    proof (cases "?i > 0 \<and> j = ?i")
      case True
      then have "b = ?a" using j by (simp add: im keq.ufind_uset)
      then show ?thesis using new by (simp add: nm ci.ufind_uset)
    next
      case False
      then have b: "ufind (=) (id_map w) j = Some b" using j by (auto simp: im keq.ufind_uset split: if_splits)
      have ob: "b < ?a" "u_id (users w ! b) \<noteq> 0" using ufind_id_ok [OF ok b] by auto
      have "\<not> CompareInCaseEqual name (u_username (users w ! b))"
        using ucache_linkedD(3) [OF l b] v ob(2) ci.ufind_cong [of name "u_username (users w ! b)" "name_map w"]
        by (auto simp: vacant_def IsExist_def word_gt_0)
      then show ?thesis using ucache_linkedD(3) [OF l b] ob(1) old by (simp add: nm ci.ufind_uset)
    qed
  next
    fix m b assume m: "ufind CompareInCaseEqual (name_map ?w) m = Some b" and z: "u_id (users ?w ! b) \<noteq> 0"
    show "ufind (=) (id_map ?w) (u_id (users ?w ! b)) = Some b"
    proof (cases "CompareInCaseEqual name m")
      case True
      then have "b = ?a" using m by (simp add: nm ci.ufind_uset)
      then show ?thesis using z new by (simp add: im keq.ufind_uset word_gt_0)
    next
      case False
      then have b: "ufind CompareInCaseEqual (name_map w) m = Some b" using m by (simp add: nm ci.ufind_uset)
      have ob: "b < ?a" using ufind_name_ok [OF ok b] by simp
      from ucache_linkedD(4) [OF l b] z old [OF ob] have f: "ufind (=) (id_map w) (u_id (users w ! b)) = Some b" by simp
      then have "u_id (users w ! b) \<noteq> ?i" using v by (auto simp: vacant_def)
      then show ?thesis using f old [OF ob] by (simp add: im keq.ufind_uset)
    qed
  qed
qed

text \<open>The operations of the cache in any order; an account is added when its name and its number are vacant.\<close>

datatype ucache_op = OpAdd string u32 | OpTakeId u32 | OpTakeName string | OpRemoveId u32 | OpRemoveName string

fun ucache_do :: "env \<Rightarrow> ucache_op \<Rightarrow> unit M" where
  "ucache_do e (OpAdd n i) = bind (gets (\<lambda>w. vacant w n i)) (\<lambda>v. whenM v (bind (UserAdd e n i) (\<lambda>_. ret ())))"
| "ucache_do e (OpTakeId i) = bind (Take_id i) (\<lambda>_. ret ())"
| "ucache_do e (OpTakeName n) = bind (Take_name n) (\<lambda>_. ret ())"
| "ucache_do e (OpRemoveId i) = Remove_id i"
| "ucache_do e (OpRemoveName n) = Remove_name n"

lemma dropped_by_id:
  assumes "ucache_linked w" and "ufind (=) (id_map w) i = Some a"
  shows "ucache_linked (w\<lparr>user_count := user_count w - 1,
      name_map := uerase CompareInCaseEqual (name_map w) (u_username (users w ! a)), id_map := uerase (=) (id_map w) i\<rparr>)"
  using ufind_id_ok [OF ucache_linkedD(1) [OF assms(1)] assms(2)]
  by (intro ucache_linked_dropped [OF assms(1) ucache_linkedD(3) [OF assms]]) (auto simp: ci.eq_refl)

lemma dropped_by_name:
  assumes "ucache_linked w" and "ufind CompareInCaseEqual (name_map w) n = Some a"
  shows "u_id (users w ! a) > 0 \<Longrightarrow> ucache_linked (w\<lparr>user_count := user_count w - 1,
      id_map := uerase (=) (id_map w) (u_id (users w ! a)), name_map := uerase CompareInCaseEqual (name_map w) n\<rparr>)"
    and "\<not> u_id (users w ! a) > 0 \<Longrightarrow> ucache_linked (w\<lparr>name_map := uerase CompareInCaseEqual (name_map w) n\<rparr>)"
proof -
  note n = ufind_name_ok [OF ucache_linkedD(1) [OF assms(1)] assms(2)]
  then have a: "ufind CompareInCaseEqual (name_map w) (u_username (users w ! a)) = Some a" using assms(2) ci.ufind_cong by metis
  show "u_id (users w ! a) > 0 \<Longrightarrow> ucache_linked (w\<lparr>user_count := user_count w - 1,
      id_map := uerase (=) (id_map w) (u_id (users w ! a)), name_map := uerase CompareInCaseEqual (name_map w) n\<rparr>)"
    by (rule ucache_linked_dropped [OF assms(1) a _ refl]) (use n in \<open>auto simp: word_gt_0\<close>)
  show "\<not> u_id (users w ! a) > 0 \<Longrightarrow> ucache_linked (w\<lparr>name_map := uerase CompareInCaseEqual (name_map w) n\<rparr>)"
    by (rule ucache_linked_dropped [OF assms(1) a _ refl]) (use n in \<open>auto simp: word_gt_0\<close>)
qed

lemma ucache_do_linked: "ucache_linked w \<Longrightarrow> wp (ucache_do e c) (\<lambda>_. ucache_linked) w"
  by (cases c)
    (auto simp: cache_op_defs wp_UserAdd ucache_linked_added dropped_by_id dropped_by_name split: option.splits
      dest: ufind_id_ok [OF ucache_linkedD(1)] ufind_name_ok [OF ucache_linkedD(1)])

interpretation uc: safe_ops ucache_linked "ucache_do e" for e
  by unfold_locales (rule ucache_do_linked)

text \<open>
  C17. From an empty cache, any sequence of additions (of a name and a number that are not in use, as the callers
  make sure) and removals by name or by number runs without a fault and leaves two indexes that mirror each other: they lead
  to existing accounts of that number and that name, each account is in both or in none, and the counter of accounts is right.
\<close>

theorem cache_ops_consistent: "\<exists>w. forM cs (ucache_do e) world0 = Inr ((), w) \<and> ucache_linked w"
  by (rule uc.run_result) (simp add: world0_def ucache_linked_def ucache_ok_def)

text \<open>
  C18. An account that was just added is found under its name in any spelling of upper and lower
  case and under its number, without asking the database; every other name is found as before.
\<close>

theorem added_is_found:
  assumes "new_uid w uid0 \<noteq> 0" and "CompareInCaseEqual name n"
  shows "\<exists>w'. UserAdd e name uid0 w = Inr (length (users w), w')
     \<and> by_name load n w' = Inr (Some (length (users w)), w')
     \<and> by_id load (new_uid w uid0) w' = Inr (Some (length (users w)), w')
     \<and> (\<forall>m. \<not> CompareInCaseEqual name m \<longrightarrow> ufind CompareInCaseEqual (name_map w') m = ufind CompareInCaseEqual (name_map w) m)"
proof -
  let ?w = "added e name uid0 w"
  have "ufind CompareInCaseEqual (name_map ?w) n = Some (length (users w))"
    using ci.ufind_uset_same [OF assms(2)] by (simp add: added_def Let_def)
  moreover have "ufind (=) (id_map ?w) (new_uid w uid0) = Some (length (users w))"
    using assms(1) keq.ufind_uset_same [OF refl] by (simp add: added_def Let_def word_gt_0)
  moreover have "users ?w ! length (users w) = (UserCacheItem e (length (users w)) name)\<lparr>u_id := new_uid w uid0\<rparr>"
    and "length (users ?w) = Suc (length (users w))"
    by (simp_all add: added_def Let_def)
  moreover have "ufind CompareInCaseEqual (name_map ?w) m = ufind CompareInCaseEqual (name_map w) m"
    if "\<not> CompareInCaseEqual name m" for m
    using ci.ufind_uset_other [OF that] by (simp add: added_def Let_def)
  moreover have "UserAdd e name uid0 w = Inr (length (users w), ?w)"
    using wp_UserAdd [of e name uid0 "\<lambda>a v. a = length (users w) \<and> v = ?w" w] by (auto simp: wp_run)
  ultimately show ?thesis using assms(1)
    by (auto simp: by_name_def by_id_def found_def bind_def gets_def user_at_def ret_def IsExist_def word_gt_0)
qed

theorem added_is_found_witness:
  "\<exists>w'. UserAdd env0 ''Bob'' 0 world0 = Inr (0, w') \<and> by_name (\<lambda>_ _. fail NoFuel) ''bOB'' w' = Inr (Some 0, w')
     \<and> by_id (\<lambda>_ _. fail NoFuel) 1 w' = Inr (Some 0, w')"
  using added_is_found [of world0 0 "''Bob''" "''bOB''" env0 "\<lambda>_ _. fail NoFuel"]
  by (auto simp: world0_def new_uid_def CompareInCaseEqual_def generic_strcmpia_def c_str_def NUL_def tolower_def char_of_def bit_0)

section \<open>Friendship\<close>

text \<open>
  Every entry of a friend list is another account, none is listed twice, and an entry is marked
  mutual exactly when the other account lists this one.
\<close>

definition flists_ok :: "nat \<Rightarrow> (nat \<Rightarrow> friend_t list) \<Rightarrow> bool" where
  "flists_ok n L \<longleftrightarrow> (\<forall>a<n. distinct (map fuser (L a)) \<and>
     (\<forall>f\<in>set (L a). \<exists>b. fuser f = Some b \<and> b < n \<and> b \<noteq> a \<and> (mutual f \<longleftrightarrow> Some a \<in> fuser ` set (L b))))"

definition friends_ok :: "world \<Rightarrow> bool" where
  "friends_ok w \<longleftrightarrow> flists_ok (length (users w)) (\<lambda>a. u_friend_list (users w ! a))"

lemma find_user_spec:
  "(find_user a i fs \<ge> 0) = (Some a \<in> fuser ` set fs)"
  "find_user a i fs \<ge> 0 \<Longrightarrow> nat (find_user a i fs) \<ge> i \<and> fuser (fs ! (nat (find_user a i fs) - i)) = Some a"
proof -
  show "(find_user a i fs \<ge> 0) = (Some a \<in> fuser ` set fs)"
    by (induction a i fs rule: find_user.induct) auto
  show "find_user a i fs \<ge> 0 \<Longrightarrow> nat (find_user a i fs) \<ge> i \<and> fuser (fs ! (nat (find_user a i fs) - i)) = Some a"
    by (induction a i fs rule: find_user.induct) (auto simp: nth_Cons' split: if_splits)
qed

lemma FindFriend_iff: "FindFriend a fs \<ge> 0 \<longleftrightarrow> Some a \<in> fuser ` set fs"
  by (simp add: FindFriend_def find_user_spec)

lemma FindFriend_at:
  assumes "FindFriend a fs \<ge> 0"
  shows "nat (FindFriend a fs) < length fs \<and> fuser (fs ! nat (FindFriend a fs)) = Some a"
  using assms find_user_spec(2) [of a 0 fs] find_user_bound [of a 0 fs] by (simp add: FindFriend_def)

text \<open>The friend lists after a friend was added: \<open>mark\<close> is what happens to the other account's list.\<close>

definition mark :: "int \<Rightarrow> friend_t list \<Rightarrow> friend_t list" where
  "mark k fs = (if k \<ge> 0 then fs[nat k := (fs ! nat k)\<lparr>mutual := True\<rparr>] else fs)"

lemma map_fuser_mark: "(k \<ge> 0 \<Longrightarrow> nat k < length fs) \<Longrightarrow> map fuser (mark k fs) = map fuser fs"
  by (simp add: mark_def map_update_same)

lemma set_mark:
  assumes "f \<in> set (mark (FindFriend b fs) fs)" and "distinct (map fuser fs)"
  shows "if fuser f = Some b then mutual f else f \<in> set fs"
proof -
  let ?k = "FindFriend b fs"
  obtain j where j: "j < length fs" "f = mark ?k fs ! j"
    using assms(1) by (auto simp: in_set_conv_nth mark_def split: if_splits)
  show ?thesis
  proof (cases "?k \<ge> 0")
    case True
    note k = FindFriend_at [OF True]
    have d: "fuser (fs ! j) = fuser (fs ! nat ?k) \<Longrightarrow> j = nat ?k"
      using nth_eq_iff_index_eq [OF assms(2), of j "nat ?k"] j(1) k by simp
    show ?thesis using j k d True by (cases "j = nat ?k") (auto simp: mark_def)
  next
    case False
    then have "Some b \<notin> fuser ` set fs" by (simp add: FindFriend_iff)
    then show ?thesis using assms(1) False by (force simp: mark_def)
  qed
qed

lemma wp_AddFriend:
  assumes "this < length (users w)" and "a < length (users w)" and "a \<noteq> this"
  shows "wp (AddFriend this (Some a)) Q w =
    (let me = u_friend_list (users w ! this); other = u_friend_list (users w ! a);
         i = FindFriend a me; k = FindFriend this other
     in if i \<ge> 0 then Q (i, None) w else if length me > 20 then Q (-1, None) w
        else Q (int (length me), Some (if k \<ge> 0 then k else -1))
          (w\<lparr>users := (users w)[a := (users w ! a)\<lparr>u_friend_list := mark k other\<rparr>,
              this := (users w ! this)\<lparr>u_friend_list := me @ [\<lparr>mutual = (k \<ge> 0), fuser = Some a\<rparr>], u_friend_dirty := True\<rparr>]\<rparr>))"
  using assms by (auto simp: AddFriend_def Let_def mark_def list_update_swap)

lemma flists_okI:
  assumes "\<And>a. a < n \<Longrightarrow> distinct (map fuser (L a))"
    and "\<And>a f. a < n \<Longrightarrow> f \<in> set (L a) \<Longrightarrow> \<exists>b. fuser f = Some b \<and> b < n \<and> b \<noteq> a \<and> (mutual f \<longleftrightarrow> Some a \<in> set (map fuser (L b)))"
  shows "flists_ok n L"
  using assms unfolding flists_ok_def set_map by blast

lemma flists_okD:
  assumes "flists_ok n L" and "a < n"
  shows "distinct (map fuser (L a))"
    and "f \<in> set (L a) \<Longrightarrow> \<exists>b. fuser f = Some b \<and> b < n \<and> b \<noteq> a \<and> (mutual f \<longleftrightarrow> Some a \<in> set (map fuser (L b)))"
  using assms unfolding flists_ok_def set_map by blast+

lemma flists_ok_added:
  assumes ok: "flists_ok n L" and t: "this < n" and b: "b < n" "b \<noteq> this" and new: "Some b \<notin> set (map fuser (L this))"
    and L': "L' this = L this @ [\<lparr>mutual = (FindFriend this (L b) \<ge> 0), fuser = Some b\<rparr>]"
      "L' b = mark (FindFriend this (L b)) (L b)" "\<And>c. c \<noteq> this \<Longrightarrow> c \<noteq> b \<Longrightarrow> L' c = L c"
  shows "flists_ok n L'"
proof -
  have names: "map fuser (L' c) = map fuser (L c)" if "c \<noteq> this" for c
    using L'(3) [of c] that L'(2) map_fuser_mark FindFriend_at by (cases "c = b") simp_all
  have nthis: "map fuser (L' this) = map fuser (L this) @ [Some b]" by (simp add: L'(1))
  show ?thesis
  proof (rule flists_okI)
    fix c assume c: "c < n"
    show "distinct (map fuser (L' c))"
      using flists_okD(1) [OF ok c] new names nthis by (cases "c = this") auto
    fix f assume f: "f \<in> set (L' c)"
    have cases: "c = this \<and> f = \<lparr>mutual = (FindFriend this (L b) \<ge> 0), fuser = Some b\<rparr>
        \<or> c = b \<and> fuser f = Some this \<and> mutual f
        \<or> f \<in> set (L c) \<and> (c = this \<longrightarrow> fuser f \<noteq> Some b) \<and> (c = b \<longrightarrow> fuser f \<noteq> Some this)"
    proof -
      consider "c = b" | "c = this" "c \<noteq> b" | "c \<noteq> b" "c \<noteq> this" by blast
      then show ?thesis
      proof cases
        case 1
        have "if fuser f = Some this then mutual f else f \<in> set (L b)"
          using f [unfolded 1 L'(2)] flists_okD(1) [OF ok b(1)] by (rule set_mark)
        then show ?thesis using 1 b(2) by (simp split: if_splits)
      next
        case 2
        have "f \<in> set (L this) \<Longrightarrow> fuser f \<noteq> Some b" using new by force
        then show ?thesis using f [unfolded 2(1) L'(1)] 2 b(2) by simp blast
      next
        case 3
        then show ?thesis using f L'(3) [of c] by simp
      qed
    qed
    then consider (new) "c = this" "f = \<lparr>mutual = (FindFriend this (L b) \<ge> 0), fuser = Some b\<rparr>"
      | (mark) "c = b" "fuser f = Some this" "mutual f"
      | (old) "f \<in> set (L c)" "c = this \<longrightarrow> fuser f \<noteq> Some b" "c = b \<longrightarrow> fuser f \<noteq> Some this"
      by blast
    then show "\<exists>d. fuser f = Some d \<and> d < n \<and> d \<noteq> c \<and> (mutual f \<longleftrightarrow> Some c \<in> set (map fuser (L' d)))"
    proof cases
      case new
      then show ?thesis using b arg_cong [OF names [OF b(2)], of set] by (simp add: FindFriend_iff)
    next
      case mark
      then show ?thesis using t b(2) arg_cong [OF nthis, of set] by simp
    next
      case old
      then obtain d where d: "fuser f = Some d" "d < n" "d \<noteq> c" "mutual f \<longleftrightarrow> Some c \<in> set (map fuser (L d))"
        using flists_okD(2) [OF ok c] by blast
      moreover have "Some c \<in> set (map fuser (L' d)) \<longleftrightarrow> Some c \<in> set (map fuser (L d))"
        using old d(1) arg_cong [OF names, of d set] arg_cong [OF nthis, of set] by (cases "d = this") auto
      ultimately show ?thesis by blast
    qed
  qed
qed

text \<open>
  C19. Adding a friend keeps the friend lists right: an entry stays marked mutual exactly when the
  other account has the entry back, on both sides, and nobody is listed twice.
\<close>

theorem AddFriend_mutual:
  assumes ok: "friends_ok w" and t: "this < length (users w)" and a: "\<And>b. user = Some b \<Longrightarrow> b < length (users w)"
  shows "\<exists>r w'. AddFriend this user w = Inr (r, w') \<and> friends_ok w'"
proof -
  have "wp (AddFriend this user) (\<lambda>_. friends_ok) w"
  proof (cases "user = None \<or> user = Some this")
    case True
    then show ?thesis using ok by (auto simp: AddFriend_def)
  next
    case False
    then obtain b where b: "user = Some b" "b \<noteq> this" by auto
    let ?L = "\<lambda>w c. u_friend_list (users w ! c)"
    let ?k = "FindFriend this (?L w b)"
    let ?w = "w\<lparr>users := (users w)[b := (users w ! b)\<lparr>u_friend_list := mark ?k (?L w b)\<rparr>,
        this := (users w ! this)\<lparr>u_friend_list := ?L w this @ [\<lparr>mutual = (?k \<ge> 0), fuser = Some b\<rparr>], u_friend_dirty := True\<rparr>]\<rparr>"
    have "friends_ok ?w" if n: "\<not> FindFriend b (?L w this) \<ge> 0"
      unfolding friends_ok_def
      by (rule flists_ok_added [of _ "?L w" this b]) (use ok t a [OF b(1)] b n in \<open>auto simp: friends_ok_def FindFriend_iff\<close>)
    then show ?thesis using wp_AddFriend [OF t a [OF b(1)] b(2)] b(1) ok by (simp add: Let_def)
  qed
  then show ?thesis by (auto simp: wp_run)
qed

definition pair_world :: world where
  "pair_world = world0\<lparr>users := [(UserCacheItem env0 0 ''ann'')\<lparr>u_friend_list := [\<lparr>mutual = False, fuser = Some 1\<rparr>]\<rparr>,
     UserCacheItem env0 1 ''bob'']\<rparr>"

lemma pair_world_ok: "friends_ok pair_world"
  by (auto simp: friends_ok_def flists_ok_def pair_world_def UserCacheItem_def less_Suc_eq numeral_eq_Suc)

theorem AddFriend_mutual_witness: "\<exists>r w'. AddFriend 1 (Some 0) pair_world = Inr (r, w') \<and> friends_ok w'"
  by (rule AddFriend_mutual [OF pair_world_ok]) (simp_all add: pair_world_def)

text \<open>
  Removing a friend does not keep them right: the other account still has its entry marked
  mutual after this one dropped it.
\<close>

theorem RemoveFriend_not_mutual:
  "\<exists>r v w'. AddFriend 1 (Some 0) pair_world = Inr (r, v) \<and> friends_ok v
     \<and> RemoveFriend_at 1 0 v = Inr (True, w') \<and> \<not> friends_ok w'"
proof -
  let ?v = "pair_world\<lparr>users := [(UserCacheItem env0 0 ''ann'')\<lparr>u_friend_list := [\<lparr>mutual = True, fuser = Some 1\<rparr>]\<rparr>,
     (UserCacheItem env0 1 ''bob'')\<lparr>u_friend_list := [\<lparr>mutual = True, fuser = Some 0\<rparr>], u_friend_dirty := True\<rparr>]\<rparr>"
  let ?w = "?v\<lparr>users := (users ?v)[1 := snd (RemoveFriend 0 (users ?v ! 1))]\<rparr>"
  have "AddFriend 1 (Some 0) pair_world = Inr ((0, Some 0), ?v)"
    using wp_AddFriend [of 1 pair_world 0 "\<lambda>r v. r = (0, Some 0) \<and> v = ?v"]
    by (auto simp: wp_run pair_world_def UserCacheItem_def Let_def FindFriend_def mark_def)
  moreover have "friends_ok ?v"
    by (auto simp: friends_ok_def flists_ok_def UserCacheItem_def less_Suc_eq numeral_eq_Suc)
  moreover have "wp (RemoveFriend_at 1 0) (\<lambda>r v. r \<and> v = ?w) ?v"
    by (simp add: RemoveFriend_at_def RemoveFriend_def UserCacheItem_def)
  moreover have "\<not> friends_ok ?w"
    by (simp add: friends_ok_def flists_ok_def UserCacheItem_def RemoveFriend_def less_Suc_eq numeral_eq_Suc all_conj_distrib)
  ultimately show ?thesis by (auto simp: wp_run)
qed

section \<open>Starting from the database\<close>

text \<open>
  After a start from the database, the next user number is above the highest one in use, but
  the number of users is the highest number too, not their count: the second query appends its
  row to the first one's result and the first row is read again.
\<close>

theorem LoadFromDB_counts:
  assumes "sql_query e (sql w) ''SELECT MAX(userid) FROM users'' = Some [[CInt m]]"
    and "sql_query e (sql w) ''SELECT COUNT(userid) FROM users'' = Some [[CInt n]]"
  shows "LoadFromDB e w = Inr ((), w\<lparr>next_uid := word_of_int m + 1, user_count := word_of_int m\<rparr>)"
proof -
  have "wp (LoadFromDB e) (\<lambda>_ v. v = w\<lparr>next_uid := word_of_int m + 1, user_count := word_of_int m\<rparr>) w"
    using assms by (simp add: LoadFromDB_def GetAll_def select_text_def c_str_def NUL_def)
  then show ?thesis by (auto simp: wp_run)
qed

theorem LoadFromDB_counts_witness:
  "\<exists>w. LoadFromDB (env0\<lparr>sql_query := \<lambda>_ q. if q = ''SELECT MAX(userid) FROM users'' then Some [[CInt 900]]
      else Some [[CInt 3]]\<rparr>) world0 = Inr ((), w) \<and> user_count w = 900"
  using LoadFromDB_counts [of "env0\<lparr>sql_query := \<lambda>_ q. if q = ''SELECT MAX(userid) FROM users'' then Some [[CInt 900]]
      else Some [[CInt 3]]\<rparr>" world0 900 3] by simp

text \<open>
  Looking up a name that is not in memory and has more than 116 characters overruns the
  buffer for the query's condition, whatever the database holds.
\<close>

theorem long_name_overruns:
  assumes "ufind CompareInCaseEqual (name_map w) name = None" and "length (c_str name) > 116" and "n > 0"
  shows "user_by_name n e name w = Inl OutOfBounds"
proof -
  obtain k where "n = Suc k" using assms(3) gr0_implies_Suc by blast
  then show ?thesis using assms(1,2)
    by (simp add: user_by_name_def by_name_def gets_def bind_def where_text_def Let_def fail_def)
qed

theorem long_name_overruns_witness: "user_by_name 1 env0 (replicate 117 (CHR ''a'')) world0 = Inl OutOfBounds"
  by (rule long_name_overruns) (simp_all add: world0_def c_str_def NUL_def)

end
