(* ===== verification/Sessions.thy ===== *)
theory Sessions
  imports Users
begin

text \<open>
  Connected clients and what is sent to them: packet framing (src/blitzd/packets/bnet/PacketBNet.cpp,
  packets/tcp/PacketTCP.h, packets/baal/PacketBaal.cpp), the client object and the pool that finds
  clients by name and by token (src/blitzd/core/Client.cpp), chat messages (core/Message.cpp,
  packets/bnet/BNetChatEvent.cpp) and the two operations of the user cache that send messages.

  A \<^verbatim>\<open>Client *\<close> is an address into \<open>clients\<close>. \<^verbatim>\<open>_packet << a << b\<close> is written as concatenation of
  the encodings, which the lemma \<open>sbuf_put\<close> of the stream theory justifies.
\<close>

section \<open>Packets\<close>

definition bnet_build :: "u16 \<Rightarrow> bytes \<Rightarrow> bytes" where
  "bnet_build cmd body = le16 cmd @ le16 (word_of_nat (4 + length body)) @ body"

definition baal_build :: "u16 \<Rightarrow> u32 \<Rightarrow> bytes \<Rightarrow> bytes" where
  "baal_build cmd token body = le16 (word_of_nat (8 + length body)) @ le16 cmd @ le32 token @ body"

text \<open>\<open>None\<close>: \<^verbatim>\<open>Pack\<close> returned false, nothing is sent.\<close>

definition BuildAndSendTo :: "nat \<Rightarrow> u16 \<Rightarrow> bytes option \<Rightarrow> unit M" where
  "BuildAndSendTo a cmd body = (case body of None \<Rightarrow> ret () | Some b \<Rightarrow> Send a (bnet_build cmd b))"

definition BaalSendTo :: "nat \<Rightarrow> u16 \<Rightarrow> u32 \<Rightarrow> bytes \<Rightarrow> unit M" where
  "BaalSendTo a cmd token body = Send a (baal_build cmd token body)"

definition ChatEvent_Pack :: "u32 \<Rightarrow> u32 \<Rightarrow> u32 \<Rightarrow> string \<Rightarrow> string \<Rightarrow> bytes" where
  "ChatEvent_Pack eventid uflag ping username text =
     le32 eventid @ le32 uflag @ le32 ping @ le32 0 @ le32 0xBAADF00D @ le32 0xBAADF00D
       @ str_bytes username @ str_bytes text"

section \<open>The client object\<close>

definition GetUsername :: "nat \<Rightarrow> string M" where
  "GetUsername a = bind (client_at a) (\<lambda>c. case c_user c of None \<Rightarrow> ret []
     | Some u \<Rightarrow> bind (user_at u) (\<lambda>u. ret (u_username u)))"

definition GetFlag :: "nat \<Rightarrow> u32 M" where
  "GetFlag a = bind (client_at a) (\<lambda>c. case c_user c of None \<Rightarrow> ret (c_flag c OR 0)
     | Some u \<Rightarrow> bind (user_at u) (\<lambda>u. ret (c_flag c OR GetUserFlag u)))"

definition GetStats :: "client \<Rightarrow> string" where
  "GetStats c = c_str (c_stats c)"

definition AddFlag :: "u32 \<Rightarrow> client \<Rightarrow> client" where
  "AddFlag f c = c\<lparr>c_flag := c_flag c OR f\<rparr>"

definition DelFlag :: "u32 \<Rightarrow> client \<Rightarrow> client" where
  "DelFlag f c = c\<lparr>c_flag := c_flag c AND NOT f\<rparr>"

definition SetProof :: "bytes \<Rightarrow> bytes \<Rightarrow> client \<Rightarrow> client" where
  "SetProof s p c = c\<lparr>c_server_proof := take 20 s, c_client_proof := take 20 p\<rparr>"

definition BuildStats :: "client \<Rightarrow> client" where
  "BuildStats c = c\<lparr>c_stats := map char_of_byte (le32 (c_gameid c))\<rparr>"

definition SetStage :: "stage \<Rightarrow> client \<Rightarrow> client" where
  "SetStage s c = (if s = BNET_LOGGEDIN then BuildStats (c\<lparr>c_stage := s\<rparr>) else c\<lparr>c_stage := s\<rparr>)"

definition GAME_ID_W3XP :: u32 where "GAME_ID_W3XP = 0x57335850"
definition GAME_ID_WAR3 :: u32 where "GAME_ID_WAR3 = 0x57415233"

definition SetAuthInfo ::
  "u32 \<Rightarrow> u32 \<Rightarrow> u32 \<Rightarrow> u32 \<Rightarrow> u32 \<Rightarrow> u32 \<Rightarrow> u32 \<Rightarrow> u32 \<Rightarrow> string \<Rightarrow> string \<Rightarrow> client \<Rightarrow> client" where
  "SetAuthInfo platform gameid ver gamelang natip timezone locale language countryab country c =
     c\<lparr>c_platform := platform, c_gameid := gameid, c_version := ver, c_gamelang := gamelang,
       c_natip := natip, c_tzone := timezone, c_locale := locale, c_language := language,
       c_countryab := countryab, c_country := country,
       c_protocolVer := if gameid = GAME_ID_W3XP \<or> gameid = GAME_ID_WAR3 then 2 else 0\<rparr>"

definition CheckStart :: "env \<Rightarrow> nat \<Rightarrow> u32 \<Rightarrow> unit M" where
  "CheckStart e a sid = bind (GetTicks e) (\<lambda>t. upd_client a (\<lambda>c. c\<lparr>c_check_sid := sid, c_checkTick := t\<rparr>))"

definition CheckEnd :: "env \<Rightarrow> nat \<Rightarrow> u32 \<Rightarrow> unit M" where
  "CheckEnd e a sid = bind (client_at a) (\<lambda>c.
     if c_check_sid c \<noteq> sid \<or> c_checkTick c = 0 then ret ()
     else bind (GetTicks e) (\<lambda>curTick.
       upd_client a (\<lambda>c. c\<lparr>c_latency := if curTick < c_checkTick c then 0 else curTick - c_checkTick c\<rparr>)))"

definition SendPing :: "env \<Rightarrow> nat \<Rightarrow> unit M" where
  "SendPing e a = bind (GetRandom32 e) (\<lambda>sid.
     seq (CheckStart e a sid) (BuildAndSendTo a 0x25FF (Some (le32 sid))))"

section \<open>The client pool\<close>

definition pool_Add :: "nat \<Rightarrow> unit M" where
  "pool_Add a = bind (client_at a) (\<lambda>c. case c_user c of None \<Rightarrow> ret ()
     | Some u \<Rightarrow> bind (user_at u) (\<lambda>u.
         modify (\<lambda>w. w\<lparr>clientMap := uset CompareInCaseEqual (clientMap w) (u_username u) a\<rparr>)))"

definition pool_AddByToken :: "nat \<Rightarrow> unit M" where
  "pool_AddByToken a = bind (client_at a) (\<lambda>c.
     modify (\<lambda>w. w\<lparr>tokenMap := uset (=) (tokenMap w) (c_token c) a\<rparr>))"

definition pool_Remove :: "string \<Rightarrow> unit M" where
  "pool_Remove name = bind (gets clientMap) (\<lambda>m. case ufind CompareInCaseEqual m name of None \<Rightarrow> ret ()
     | Some a \<Rightarrow> bind (client_at a) (\<lambda>c.
         modify (\<lambda>w. w\<lparr>tokenMap := uerase (=) (tokenMap w) (c_token c),
                         clientMap := uerase CompareInCaseEqual (clientMap w) name\<rparr>)))"

definition pool_Remove_token :: "u32 \<Rightarrow> unit M" where
  "pool_Remove_token s = modify (\<lambda>w. w\<lparr>tokenMap := uerase (=) (tokenMap w) s\<rparr>)"

definition pool_by_name :: "string \<Rightarrow> nat option M" where
  "pool_by_name name = gets (\<lambda>w. ufind CompareInCaseEqual (clientMap w) name)"

definition pool_by_token :: "u32 \<Rightarrow> nat option M" where
  "pool_by_token s = gets (\<lambda>w. ufind (=) (tokenMap w) s)"

definition SetUser :: "nat \<Rightarrow> nat option \<Rightarrow> unit M" where
  "SetUser a u = bind (client_at a) (\<lambda>c.
     seq (case c_user c of None \<Rightarrow> ret () | Some v \<Rightarrow> bind (user_at v) (\<lambda>v. pool_Remove (u_username v)))
     (seq (upd_client a (\<lambda>c. c\<lparr>c_user := u\<rparr>))
          (if u = None then ret () else pool_Add a)))"

text \<open>The constructor; \<open>peer\<close> is the address that \<^verbatim>\<open>getpeername\<close> reports, None when it fails.\<close>

definition new_client :: "env \<Rightarrow> nat \<Rightarrow> u32 option \<Rightarrow> u32 \<Rightarrow> u32 \<Rightarrow> client" where
  "new_client e addr peer session token =
     \<lparr>c_stage = CONNECTED, c_platform = 0, c_gameid = 0, c_version = 0, c_gamelang = 0, c_natip = 0,
      c_tzone = 0, c_locale = 0, c_language = 0, c_gameIp = (case peer of Some ip \<Rightarrow> ip | None \<Rightarrow> 0),
      c_gamePort = 0, c_check_sid = 0, c_checkTick = 0, c_latency = 0, c_protocolVer = 0,
      c_session = session, c_token = token, c_flag = 0x10, c_countryab = [], c_country = [],
      c_user = None, c_game = None, c_channel = None, c_stats = [],
      c_server_proof = fresh e (''Client._server_proof'' @ dec_nat addr) 20,
      c_client_proof = fresh e (''Client._client_proof'' @ dec_nat addr) 20,
      c_dnd = [], c_away = [], c_lastWhisper = []\<rparr>"

definition Client_new :: "env \<Rightarrow> u32 option \<Rightarrow> nat M" where
  "Client_new e peer =
     seq (modify (\<lambda>w. w\<lparr>current_session := current_session w + 1\<rparr>))
     (bind (gets current_session) (\<lambda>session. bind (GetRandom32 e) (\<lambda>token.
      bind (gets (\<lambda>w. length (clients w))) (\<lambda>a.
        seq (modify (\<lambda>w. w\<lparr>clients := clients w @ [Some (new_client e a peer session token)]\<rparr>))
        (seq (pool_AddByToken a) (ret a))))))"

section \<open>Messages\<close>

definition MT_AddUser :: u32 where "MT_AddUser = 1"
definition MT_Join :: u32 where "MT_Join = 2"
definition MT_Leave :: u32 where "MT_Leave = 3"
definition MT_Whisper :: u32 where "MT_Whisper = 4"
definition MT_Talk :: u32 where "MT_Talk = 5"
definition MT_Broadcast :: u32 where "MT_Broadcast = 6"
definition MT_Channel :: u32 where "MT_Channel = 7"
definition MT_UserFlags :: u32 where "MT_UserFlags = 9"
definition MT_WhisperSent :: u32 where "MT_WhisperSent = 0xA"
definition MT_Info :: u32 where "MT_Info = 0x12"
definition MT_Error :: u32 where "MT_Error = 0x13"
definition MT_Emote :: u32 where "MT_Emote = 0x17"

lemmas mt_defs = MT_AddUser_def MT_Join_def MT_Leave_def MT_Whisper_def MT_Talk_def MT_Broadcast_def
  MT_Channel_def MT_UserFlags_def MT_WhisperSent_def MT_Info_def MT_Error_def MT_Emote_def

definition BuildMessagePacket :: "nat option \<Rightarrow> u32 \<Rightarrow> string \<Rightarrow> bytes M" where
  "BuildMessagePacket cl type msg =
     (case cl of
        None \<Rightarrow> ret (bnet_build 0x0FFF (ChatEvent_Pack type 0 0 []
                  (if type \<in> {MT_AddUser, MT_Join, MT_UserFlags} then [] else msg)))
      | Some a \<Rightarrow> bind (client_at a) (\<lambda>c.
          bind (if type = MT_Channel
                then case c_channel c of None \<Rightarrow> ret 0 | Some ch \<Rightarrow> bind (channel_at ch) (\<lambda>ch. ret (ch_flag ch))
                else GetFlag a) (\<lambda>uflag.
          bind (GetUsername a) (\<lambda>username.
            ret (bnet_build 0x0FFF (ChatEvent_Pack type uflag (c_latency c) username
                  (if type \<in> {MT_AddUser, MT_Join, MT_UserFlags} then GetStats c else msg)))))))"

definition SetLastWhisper :: "nat \<Rightarrow> string \<Rightarrow> unit M" where
  "SetLastWhisper a name = upd_client a (\<lambda>c. c\<lparr>c_lastWhisper := name\<rparr>)"

definition Message_Send :: "nat option \<Rightarrow> nat option \<Rightarrow> u32 \<Rightarrow> string \<Rightarrow> bool M" where
  "Message_Send toconn conn type msg =
     (case toconn of None \<Rightarrow> ret False
      | Some a \<Rightarrow> bind (BuildMessagePacket conn type msg) (\<lambda>packet.
          seq (Send a packet)
          (seq (whenM (type = MT_Whisper)
                 (bind (the_ptr conn) (\<lambda>c. bind (GetUsername c) (SetLastWhisper a))))
          (ret True))))"

definition SendToSet :: "bytes \<Rightarrow> nat list \<Rightarrow> nat option \<Rightarrow> bool \<Rightarrow> unit M" where
  "SendToSet packet us cl ignoreSelf =
     forM us (\<lambda>a. whenM (\<not> (ignoreSelf \<and> Some a = cl)) (Send a packet))"

definition Message_SendSet :: "nat list \<Rightarrow> nat option \<Rightarrow> u32 \<Rightarrow> string \<Rightarrow> bool \<Rightarrow> bool M" where
  "Message_SendSet toset conn type msg ignoreSelf =
     bind (BuildMessagePacket conn type msg) (\<lambda>packet.
       seq (SendToSet packet toset conn ignoreSelf)
       (seq (whenM (type = MT_Whisper)
              (bind (the_ptr conn) (\<lambda>c. bind (GetUsername c) (\<lambda>lwName. forM toset (\<lambda>a. SetLastWhisper a lwName)))))
       (ret True)))"

definition FindOnlineUser :: "string \<Rightarrow> nat option \<Rightarrow> bool \<Rightarrow> nat option M" where
  "FindOnlineUser name conn ack = bind (pool_by_name name) (\<lambda>c.
     case c of
       None \<Rightarrow> seq (if ack then bind (Message_Send conn None MT_Info ''The user is not logged in!'') (\<lambda>_. ret ()) else ret ())
                 (ret None)
     | Some a \<Rightarrow>
         if Some a = conn then
           seq (if ack then bind (Message_Send conn None MT_Info ''You cannot do whisper to yourself!'') (\<lambda>_. ret ()) else ret ())
             (ret None)
         else bind (client_at a) (\<lambda>cl.
           if c_dnd cl \<noteq> [] then
             seq (if ack then bind (GetUsername a) (\<lambda>un.
                    bind (Message_Send conn None MT_Info (un @ '' is at DnD status ('' @ c_dnd cl @ '').'')) (\<lambda>_. ret ())) else ret ())
               (ret None)
           else ret (Some a)))"

definition SendWhisper :: "string \<Rightarrow> nat option \<Rightarrow> string \<Rightarrow> bool \<Rightarrow> bool M" where
  "SendWhisper toname conn msg ack = bind (FindOnlineUser toname conn ack) (\<lambda>c.
     case c of None \<Rightarrow> ret False
     | Some a \<Rightarrow>
         seq (whenM ack (bind (Message_Send conn (Some a) MT_WhisperSent msg) (\<lambda>_.
                bind (client_at a) (\<lambda>cl. whenM (c_away cl \<noteq> []) (bind (GetUsername a) (\<lambda>un.
                  bind (Message_Send conn None MT_Info (un @ '' is away from PC ('' @ c_away cl @ '').'')) (\<lambda>_. ret ())))))))
         (bind (Message_Send (Some a) conn MT_Whisper msg) (\<lambda>_. ret True)))"

text \<open>The recipients of \<^verbatim>\<open>FriendSendInfo\<close> and \<^verbatim>\<open>FriendWhisper\<close>: friends that are online.\<close>

primrec online_friends :: "friend_t list \<Rightarrow> bool \<Rightarrow> nat list \<Rightarrow> nat list M" where
  "online_friends [] mut toset = ret toset"
| "online_friends (f # fs) mut toset =
     (case fuser f of None \<Rightarrow> online_friends fs mut toset
      | Some u \<Rightarrow> if \<not> mut \<or> mutual f
          then bind (user_at u) (\<lambda>fu. bind (pool_by_name (u_username fu)) (\<lambda>c.
                 online_friends fs mut (case c of None \<Rightarrow> toset | Some a \<Rightarrow> set_insert a toset)))
          else online_friends fs mut toset)"

definition FriendSendInfo :: "nat \<Rightarrow> string \<Rightarrow> bool \<Rightarrow> unit M" where
  "FriendSendInfo this text mut = bind (user_at this) (\<lambda>u.
     bind (online_friends (u_friend_list u) mut []) (\<lambda>toset.
       whenM (toset \<noteq> []) (bind (Message_SendSet toset None MT_Info text False) (\<lambda>_. ret ()))))"

definition FriendWhisper :: "nat \<Rightarrow> nat option \<Rightarrow> string \<Rightarrow> bool \<Rightarrow> unit M" where
  "FriendWhisper this from text mut = bind (user_at this) (\<lambda>u.
     bind (online_friends (u_friend_list u) mut []) (\<lambda>toset.
       whenM (toset \<noteq> []) (bind (Message_SendSet toset from MT_Whisper text False) (\<lambda>_. ret ()))))"

section \<open>What a message changes\<close>

text \<open>
  The part of the state that says who is where: of each client its account, game and channel, and
  all rooms and lookup maps. Messages leave it as it is.
\<close>

definition place :: "client \<Rightarrow> nat option \<times> nat option \<times> nat option" where
  "place c = (c_user c, c_game c, c_channel c)"

definition core :: "world \<Rightarrow> _" where
  "core w = (map (map_option place) (clients w), channels w, games w, users w,
     (game_map w, clientMap w, channelmap w, game_channelmap w))"

lemma core_live:
  assumes "core w' = core w"
  shows "live_client w' a = live_client w a"
    and "live_client w a \<Longrightarrow> place (the_client w' a) = place (the_client w a)"
proof -
  have m: "map (map_option place) (clients w') = map (map_option place) (clients w)"
    using assms by (simp add: core_def)
  have l: "length (clients w') = length (clients w)" using arg_cong [OF m, of length] by simp
  have n: "map_option place (clients w' ! a) = map_option place (clients w ! a)" if "a < length (clients w)"
    using arg_cong [OF m, of "\<lambda>l. l ! a"] that l by simp
  then have "clients w' ! a = None \<longleftrightarrow> clients w ! a = None" if "a < length (clients w)"
    using that by (metis map_option_is_None)
  then show "live_client w' a = live_client w a" using l by (cases "a < length (clients w)") (simp_all add: live_client_def)
  show "place (the_client w' a) = place (the_client w a)" if "live_client w a"
    using that n l by (cases "clients w ! a"; cases "clients w' ! a") (simp_all add: live_client_def the_client_def)
qed

lemma core_eqs:
  assumes "core w' = core w"
  shows "channels w' = channels w" "games w' = games w" "users w' = users w" "game_map w' = game_map w"
    "clientMap w' = clientMap w" "channelmap w' = channelmap w" "game_channelmap w' = game_channelmap w"
    "length (clients w') = length (clients w)" "live_game w' g = live_game w g" "the_game w' g = the_game w g"
  using assms by (simp_all add: core_def live_game_def the_game_def) (metis length_map)

lemma core_sent [simp]: "core (w\<lparr>sent := s\<rparr>) = core w"
  by (simp add: core_def)

lemma core_ticks [simp]: "core (w\<lparr>nticks := n\<rparr>) = core w" "core (w\<lparr>nrand := n\<rparr>) = core w" "core (w\<lparr>tokenMap := tm\<rparr>) = core w"
  "core (w\<lparr>sql := q\<rparr>) = core w" "core (w\<lparr>current_session := cs\<rparr>) = core w"
  by (simp_all add: core_def)

lemma core_client:
  assumes "live_client w a" and "place c = place (the_client w a)"
  shows "core (w\<lparr>clients := (clients w)[a := Some c]\<rparr>) = core w"
  using assms by (auto simp: core_def live_client_def the_client_def map_update intro!: list_update_same_conv [THEN iffD2])

text \<open>A client that can be named in a message: it is connected and its pointers are good.\<close>

definition good_client :: "world \<Rightarrow> nat \<Rightarrow> bool" where
  "good_client w a \<longleftrightarrow> live_client w a
     \<and> (\<forall>u. c_user (the_client w a) = Some u \<longrightarrow> u < length (users w))
     \<and> (\<forall>ch. c_channel (the_client w a) = Some ch \<longrightarrow> ch < length (channels w))"

definition good_ptr :: "world \<Rightarrow> nat option \<Rightarrow> bool" where
  "good_ptr w p \<longleftrightarrow> (\<forall>a. p = Some a \<longrightarrow> good_client w a)"

lemma good_core: "core w' = core w \<Longrightarrow> good_client w' a = good_client w a"
  using core_live [of w' w a] core_eqs [of w' w] by (auto simp: good_client_def place_def)

lemma good_ptr_core: "core w' = core w \<Longrightarrow> good_ptr w' p = good_ptr w p"
  using good_core [of w' w] by (auto simp only: good_ptr_def)

lemma good_ptr_simps [simp]: "good_ptr w None" "good_ptr w (Some a) = good_client w a"
  by (simp_all add: good_ptr_def)

lemma good_live [dest]: "good_client w a \<Longrightarrow> live_client w a"
  by (simp add: good_client_def)

definition username_of :: "world \<Rightarrow> nat \<Rightarrow> string" where
  "username_of w a = (case c_user (the_client w a) of None \<Rightarrow> [] | Some u \<Rightarrow> u_username (users w ! u))"

definition flag_of :: "world \<Rightarrow> nat \<Rightarrow> u32" where
  "flag_of w a = c_flag (the_client w a) OR
     (case c_user (the_client w a) of None \<Rightarrow> 0 | Some u \<Rightarrow> GetUserFlag (users w ! u))"

text \<open>The packet of a message from \<open>cl\<close> as a function of the state.\<close>

definition message_packet :: "world \<Rightarrow> nat option \<Rightarrow> u32 \<Rightarrow> string \<Rightarrow> bytes" where
  "message_packet w cl type msg = bnet_build 0x0FFF (case cl of
       None \<Rightarrow> ChatEvent_Pack type 0 0 [] (if type \<in> {MT_AddUser, MT_Join, MT_UserFlags} then [] else msg)
     | Some a \<Rightarrow> ChatEvent_Pack type
         (if type = MT_Channel then case c_channel (the_client w a) of None \<Rightarrow> 0 | Some ch \<Rightarrow> ch_flag (channels w ! ch)
          else flag_of w a)
         (c_latency (the_client w a)) (username_of w a)
         (if type \<in> {MT_AddUser, MT_Join, MT_UserFlags} then GetStats (the_client w a) else msg))"

lemma wp_GetUsername: "good_client w a \<Longrightarrow> wp (GetUsername a) Q w = Q (username_of w a) w"
  by (auto simp: GetUsername_def good_client_def username_of_def split: option.split)

lemma wp_GetFlag: "good_client w a \<Longrightarrow> wp (GetFlag a) Q w = Q (flag_of w a) w"
  by (auto simp: GetFlag_def good_client_def flag_of_def split: option.split)

lemma wp_BuildMessagePacket:
  assumes "good_ptr w cl"
  shows "wp (BuildMessagePacket cl type msg) Q w = Q (message_packet w cl type msg) w"
proof (cases cl)
  case None
  then show ?thesis by (simp add: BuildMessagePacket_def message_packet_def)
next
  case (Some a)
  then have a: "good_client w a" using assms by simp
  have f: "wp (if type = MT_Channel
                then case c_channel (the_client w a) of None \<Rightarrow> ret 0 | Some ch \<Rightarrow> bind (channel_at ch) (\<lambda>ch. ret (ch_flag ch))
                else GetFlag a) R w =
      R (if type = MT_Channel then case c_channel (the_client w a) of None \<Rightarrow> 0 | Some ch \<Rightarrow> ch_flag (channels w ! ch)
          else flag_of w a) w" for R
    using a by (auto simp: wp_GetFlag good_client_def split: option.split)
  show ?thesis using a Some by (simp add: BuildMessagePacket_def message_packet_def f wp_GetUsername good_live)
qed

lemma wp_Message_Send:
  assumes "live_client w a" and "good_ptr w conn" and "type \<noteq> MT_Whisper"
  shows "wp (Message_Send (Some a) conn type msg) Q w =
    Q True (w\<lparr>sent := sent w @ [(a, message_packet w conn type msg)]\<rparr>)"
  using assms by (simp add: Message_Send_def wp_BuildMessagePacket)

lemma wp_Message_Whisper:
  assumes "live_client w a" and "good_client w c"
  shows "wp (Message_Send (Some a) (Some c) MT_Whisper msg) Q w =
    Q True (w\<lparr>sent := sent w @ [(a, message_packet w (Some c) MT_Whisper msg)],
              clients := (clients w)[a := Some ((the_client w a)\<lparr>c_lastWhisper := username_of w c\<rparr>)]\<rparr>)"
proof -
  let ?w = "w\<lparr>sent := sent w @ [(a, message_packet w (Some c) MT_Whisper msg)]\<rparr>"
  have "good_client ?w c" using assms(2) good_core [OF core_sent] by blast
  moreover have "username_of ?w c = username_of w c" by (simp add: username_of_def split: option.split)
  ultimately show ?thesis
    using assms by (simp add: Message_Send_def wp_BuildMessagePacket wp_GetUsername SetLastWhisper_def)
qed

lemma wp_SendToSet:
  assumes "\<And>a. a \<in> set us \<Longrightarrow> live_client w a"
  shows "wp (SendToSet p us cl ig) Q w =
    Q () (w\<lparr>sent := sent w @ map (\<lambda>a. (a, p)) (filter (\<lambda>a. \<not> (ig \<and> Some a = cl)) us)\<rparr>)"
  using assms
proof (induction us arbitrary: w)
  case Nil
  then show ?case by (simp add: SendToSet_def)
next
  case (Cons a us)
  have "wp (SendToSet p us cl ig) Q v = Q () (v\<lparr>sent := sent v @ map (\<lambda>a. (a, p)) (filter (\<lambda>a. \<not> (ig \<and> Some a = cl)) us)\<rparr>)"
    if "v = w \<or> v = w\<lparr>sent := sent w @ [(a, p)]\<rparr>" for v
    by (rule Cons.IH) (use that Cons.prems in auto)
  note ih = this
  show ?case
  proof (cases "ig \<and> Some a = cl")
    case True
    then show ?thesis using ih [of w] by (simp add: SendToSet_def)
  next
    case False
    then show ?thesis using Cons.prems [of a] ih [of "w\<lparr>sent := sent w @ [(a, p)]\<rparr>"] by (simp add: SendToSet_def)
  qed
qed

lemma wp_Message_SendSet:
  assumes "\<And>a. a \<in> set us \<Longrightarrow> live_client w a" and "good_ptr w conn" and "type \<noteq> MT_Whisper"
  shows "wp (Message_SendSet us conn type msg ig) Q w =
    Q True (w\<lparr>sent := sent w @ map (\<lambda>a. (a, message_packet w conn type msg)) (filter (\<lambda>a. \<not> (ig \<and> Some a = conn)) us)\<rparr>)"
  using assms by (simp add: Message_SendSet_def wp_BuildMessagePacket wp_SendToSet)

lemma wp_SetLastWhisper_core:
  assumes "live_client w a" shows "wp (SetLastWhisper a n) (\<lambda>_ w'. core w' = core w) w"
  using assms by (simp add: SetLastWhisper_def core_client place_def)

lemma wp_Message_Send_core:
  assumes "good_ptr w to'" and "good_ptr w conn" and "type = MT_Whisper \<longrightarrow> conn \<noteq> None"
  shows "wp (Message_Send to' conn type msg) (\<lambda>_ w'. core w' = core w) w"
proof (cases to')
  case None
  then show ?thesis by (simp add: Message_Send_def)
next
  case (Some a)
  then have l: "live_client w a" using assms(1) by (auto simp: good_client_def)
  show ?thesis
  proof (cases "type = MT_Whisper")
    case True
    then obtain c where c: "conn = Some c" "good_client w c" using assms(2,3) by auto
    have "core (w\<lparr>clients := (clients w)[a := Some ((the_client w a)\<lparr>c_lastWhisper := username_of w c\<rparr>)]\<rparr>) = core w"
      by (rule core_client [OF l]) (simp add: place_def)
    then show ?thesis using wp_Message_Whisper [OF l c(2)] Some True c(1) core_sent
      by (simp add: core_def)
  next
    case False
    then show ?thesis using wp_Message_Send [OF l assms(2) False] Some by simp
  qed
qed

lemma wp_Message_SendSet_core:
  assumes "\<And>a. a \<in> set us \<Longrightarrow> live_client w a" and "good_ptr w conn" and "type = MT_Whisper \<longrightarrow> conn \<noteq> None"
  shows "wp (Message_SendSet us conn type msg ig) (\<lambda>_ w'. core w' = core w) w"
proof -
  let ?w = "w\<lparr>sent := sent w @ map (\<lambda>a. (a, message_packet w conn type msg)) (filter (\<lambda>a. \<not> (ig \<and> Some a = conn)) us)\<rparr>"
  have tail: "wp (forM us (\<lambda>a. SetLastWhisper a n)) (\<lambda>_ w'. core w' = core w) ?w" for n
  proof (rule wp_forM_inv)
    fix a v assume a: "a \<in> set us" and v: "core v = core w"
    then have "live_client v a" using assms(1) core_live(1) [OF v] by blast
    from wp_SetLastWhisper_core [OF this, of n] show "wp (SetLastWhisper a n) (\<lambda>_ w'. core w' = core w) v"
      by (simp only: v)
  qed simp
  have "wp (bind (the_ptr conn) (\<lambda>c. bind (GetUsername c) (\<lambda>lwName. forM us (\<lambda>a. SetLastWhisper a lwName))))
      (\<lambda>_ w'. core w' = core w) ?w" if t: "type = MT_Whisper"
  proof -
    obtain c where c: "conn = Some c" "good_client w c" using assms(2,3) t by auto
    have "good_client ?w c" using c(2) good_core [OF core_sent] by blast
    then show ?thesis using tail c(1) by (simp add: wp_GetUsername)
  qed
  then show ?thesis
    using assms(1,2) by (simp add: Message_SendSet_def wp_BuildMessagePacket wp_SendToSet)
qed

section \<open>Whispers\<close>

text \<open>Everybody in the pool can be named in a message.\<close>

definition pool_good :: "world \<Rightarrow> bool" where
  "pool_good w \<longleftrightarrow> (\<forall>p\<in>set (clientMap w). good_client w (snd p))"

lemma pool_good_find: "pool_good w \<Longrightarrow> ufind CompareInCaseEqual (clientMap w) n = Some a \<Longrightarrow> good_client w a"
  by (auto simp: pool_good_def dest!: ufind_SomeD)

lemma pool_good_core: "core w' = core w \<Longrightarrow> pool_good w' = pool_good w"
  using good_core [of w' w] core_eqs(5) [of w' w] by (auto simp only: pool_good_def)

lemma wp_pool_by_name [wps, simp]: "wp (pool_by_name n) Q w = Q (ufind CompareInCaseEqual (clientMap w) n) w"
  by (simp add: pool_by_name_def)

lemma wp_core_then:
  assumes "wp m (\<lambda>_ v. core v = core w) w" and "\<And>v. core v = core w \<Longrightarrow> wp (k ()) Q v"
  shows "wp (bind (bind m (\<lambda>_. ret ())) k) Q w"
  unfolding wp_bind wp_ret_eta using assms by (auto elim!: wp_mono)

lemma wp_note:
  assumes "good_ptr w conn" and "type \<noteq> MT_Whisper"
  shows "wp (bind (Message_Send conn None type msg) (\<lambda>_. ret ())) (\<lambda>_ v. core v = core w) w"
  using wp_Message_Send_core [OF assms(1), of None type msg] assms(2) by simp

lemma mt_distinct [simp]: "MT_Info \<noteq> MT_Whisper" "MT_WhisperSent \<noteq> MT_Whisper" "MT_Join \<noteq> MT_Whisper"
  "MT_Leave \<noteq> MT_Whisper" "MT_Talk \<noteq> MT_Whisper" "MT_Channel \<noteq> MT_Whisper" "MT_Emote \<noteq> MT_Whisper" "MT_Error \<noteq> MT_Whisper"
  by (simp_all add: mt_defs)

lemma wp_FindOnlineUser:
  assumes ok: "pool_good w" "good_ptr w conn"
  shows "wp (FindOnlineUser name conn ack) (\<lambda>p v. core v = core w \<and>
    (case p of None \<Rightarrow> True | Some a \<Rightarrow> ufind CompareInCaseEqual (clientMap w) name = Some a \<and> Some a \<noteq> conn)) w"
proof (cases "ufind CompareInCaseEqual (clientMap w) name")
  case None
  then show ?thesis using wp_note [OF ok(2) mt_distinct(1)] by (cases ack) (auto simp: FindOnlineUser_def)
next
  case (Some a)
  have a: "good_client w a" by (rule pool_good_find [OF ok(1) Some])
  note n = wp_note [OF ok(2) mt_distinct(1), unfolded wp_bind wp_ret_eta]
  show ?thesis using Some a n
    by (cases ack) (auto simp: FindOnlineUser_def wp_GetUsername)
qed

lemma wp_SendWhisper_core:
  assumes ok: "pool_good w" "good_client w a"
  shows "wp (SendWhisper name (Some a) msg ack) (\<lambda>_ v. core v = core w) w"
  unfolding SendWhisper_def
proof (rule wp_bindI [OF wp_FindOnlineUser [OF ok(1)]])
  show "good_ptr w (Some a)" using ok(2) by simp
next
  fix p v assume v: "core v = core w \<and> (case p of None \<Rightarrow> True
    | Some b \<Rightarrow> ufind CompareInCaseEqual (clientMap w) name = Some b \<and> Some b \<noteq> Some a)"
  let ?done = "\<lambda>u. core u = core w"
  show "wp (case p of None \<Rightarrow> ret False | Some b \<Rightarrow>
         seq (whenM ack (bind (Message_Send (Some a) (Some b) MT_WhisperSent msg) (\<lambda>_.
                bind (client_at b) (\<lambda>cl. whenM (c_away cl \<noteq> []) (bind (GetUsername b) (\<lambda>un.
                  bind (Message_Send (Some a) None MT_Info (un @ '' is away from PC ('' @ c_away cl @ '').'')) (\<lambda>_. ret ())))))))
         (bind (Message_Send (Some b) (Some a) MT_Whisper msg) (\<lambda>_. ret True))) (\<lambda>_. ?done) v"
  proof (cases p)
    case None
    then show ?thesis using v by simp
  next
    case (Some b)
    have good: "good_client u a" "good_client u b" if "core u = core w" for u
      using that ok pool_good_find [OF ok(1)] v Some good_core [of u w] by auto
    have last: "wp (bind (Message_Send (Some b) (Some a) MT_Whisper msg) (\<lambda>_. ret True)) (\<lambda>_. ?done) u" if u: "core u = core w" for u
      using wp_Message_Send_core [of u "Some b" "Some a" MT_Whisper msg] good [OF u] u by simp
    have away: "wp (bind (client_at b) (\<lambda>cl. whenM (c_away cl \<noteq> []) (bind (GetUsername b) (\<lambda>un.
        bind (Message_Send (Some a) None MT_Info (un @ '' is away from PC ('' @ c_away cl @ '').'')) (\<lambda>_. ret ()))))) (\<lambda>_. ?done) u"
      if u: "core u = core w" for u
      using wp_note [of u "Some a" MT_Info, unfolded wp_bind wp_ret_eta] good [OF u] u by (auto simp: wp_GetUsername)
    have "wp (whenM ack (bind (Message_Send (Some a) (Some b) MT_WhisperSent msg) (\<lambda>_.
                bind (client_at b) (\<lambda>cl. whenM (c_away cl \<noteq> []) (bind (GetUsername b) (\<lambda>un.
                  bind (Message_Send (Some a) None MT_Info (un @ '' is away from PC ('' @ c_away cl @ '').'')) (\<lambda>_. ret ()))))))) (\<lambda>_. ?done) v"
    proof (cases ack)
      case True
      have "wp (Message_Send (Some a) (Some b) MT_WhisperSent msg) (\<lambda>_. ?done) v"
        using wp_Message_Send_core [of v "Some a" "Some b" MT_WhisperSent msg] good [of v] v by simp
      then show ?thesis unfolding wp_whenM if_P [OF True] by (rule wp_bindI) (rule away)
    next
      case False
      then show ?thesis using v by simp
    qed
    then show ?thesis unfolding Some option.case by (rule wp_seqI) (rule last)
  qed
qed

lemma message_packet_sent [simp]: "message_packet (w\<lparr>sent := s\<rparr>) c t m = message_packet w c t m"
  by (simp add: message_packet_def flag_of_def username_of_def split: option.split)

text \<open>
  C27. A whisper to a user who is online, is somebody else and is neither in do-not-disturb mode nor
  away: the recipient gets the text from the sender, the sender gets one confirmation naming the
  recipient, nobody else gets anything, and the recipient's reply address becomes the sender.
\<close>

theorem whisper_delivered:
  assumes "ufind CompareInCaseEqual (clientMap w) name = Some b" and "b \<noteq> a" and "good_client w a" and "good_client w b"
    and "c_dnd (the_client w b) = []" and "c_away (the_client w b) = []"
  shows "\<exists>w'. SendWhisper name (Some a) msg True w = Inr (True, w')
     \<and> sent w' = sent w @ [(a, message_packet w (Some b) MT_WhisperSent msg), (b, message_packet w (Some a) MT_Whisper msg)]
     \<and> c_lastWhisper (the_client w' b) = username_of w a \<and> core w' = core w"
proof -
  let ?v = "w\<lparr>sent := sent w @ [(a, message_packet w (Some b) MT_WhisperSent msg)]\<rparr>"
  let ?u = "?v\<lparr>sent := sent ?v @ [(b, message_packet ?v (Some a) MT_Whisper msg)],
      clients := (clients ?v)[b := Some ((the_client ?v b)\<lparr>c_lastWhisper := username_of ?v a\<rparr>)]\<rparr>"
  have live: "live_client w a" "live_client w b" using assms(3,4) by auto
  have v: "good_client ?v a" "live_client ?v b" using good_core [OF core_sent] assms(3) live by auto
  have un: "username_of ?v a = username_of w a" by (simp add: username_of_def split: option.split)
  have "wp (SendWhisper name (Some a) msg True) (\<lambda>r w'. r \<and> w' = ?u) w"
    unfolding SendWhisper_def FindOnlineUser_def
    using assms live v
    by (simp add: wp_Message_Send wp_Message_Whisper)
  then obtain r w' where r: "SendWhisper name (Some a) msg True w = Inr (r, w')" "r" "w' = ?u" by (auto simp: wp_run)
  have "core ?u = core ?v" using core_client [of "?v" b "(the_client w b)\<lparr>c_lastWhisper := username_of ?v a\<rparr>"] live
    by (simp add: place_def core_def)
  then have "core ?u = core w" by simp
  moreover have "b < length (clients w)" using live(2) by (simp add: live_client_def)
  ultimately show ?thesis using r un by (simp add: the_client_def)
qed

definition two_online :: world where
  "two_online = world0\<lparr>users := [(UserCacheItem env0 0 ''ann'')\<lparr>u_id := 1\<rparr>, (UserCacheItem env0 1 ''bob'')\<lparr>u_id := 2\<rparr>],
     clients := [Some ((new_client env0 0 None 1 10)\<lparr>c_user := Some 0\<rparr>), Some ((new_client env0 1 None 2 20)\<lparr>c_user := Some 1\<rparr>)],
     clientMap := [(''ann'', 0), (''bob'', 1)], tokenMap := [(10, 0), (20, 1)]\<rparr>"

lemma two_online_good: "good_client two_online 0" "good_client two_online (Suc 0)"
  by (simp_all add: two_online_def good_client_def live_client_def the_client_def new_client_def)

theorem whisper_delivered_witness:
  "\<exists>w'. SendWhisper ''BOB'' (Some 0) ''hi'' True two_online = Inr (True, w')
     \<and> sent w' = sent two_online @ [(0, message_packet two_online (Some (Suc 0)) MT_WhisperSent ''hi''),
          (Suc 0, message_packet two_online (Some 0) MT_Whisper ''hi'')]
     \<and> c_lastWhisper (the_client w' (Suc 0)) = username_of two_online 0 \<and> core w' = core two_online"
  by (rule whisper_delivered)
    (use two_online_good in \<open>simp_all add: two_online_def CompareInCaseEqual_def generic_strcmpia_def c_str_def NUL_def
       tolower_def char_of_def bit_0 the_client_def new_client_def\<close>)

end
