(* ===== verification/Rooms.thy ===== *)
theory Rooms
  imports Sessions
begin

text \<open>
  Channels and games (src/blitzd/cache/ChannelCache.cpp, GameCache.cpp) and the destructor of a
  client, which leaves both. The main result is that no sequence of these operations leaves a
  channel, a game or the pool of client names with a pointer to an object that is gone.

  A game is deleted when it leaves the cache's map, because no other pointer owns it; channels are
  never deleted. \<^verbatim>\<open>std::set<Client *>\<close> is a list ordered by address.
\<close>

section \<open>Games\<close>

definition new_game :: "env \<Rightarrow> nat \<Rightarrow> string \<Rightarrow> game_item" where
  "new_game e addr name =
     \<lparr>g_name = name, g_flag = fresh32 e (''GameCacheItem._flag'' @ dec_nat addr),
      g_stime = fresh32 e (''GameCacheItem._stime'' @ dec_nat addr),
      g_type = fresh32 e (''GameCacheItem._type'' @ dec_nat addr),
      g_option = fresh32 e (''GameCacheItem._option'' @ dec_nat addr),
      g_ladder = fresh32 e (''GameCacheItem._ladder'' @ dec_nat addr),
      g_passwd = [], g_stat = [], g_broadcast = True, g_host = None, g_connlist = []\<rparr>"

definition UpdateStatus :: "u32 \<Rightarrow> u32 \<Rightarrow> u32 \<Rightarrow> u32 \<Rightarrow> u32 \<Rightarrow> game_item \<Rightarrow> game_item" where
  "UpdateStatus f e t opt l g =
     g\<lparr>g_flag := f, g_stime := e, g_type := t, g_option := opt, g_ladder := l\<rparr>"

definition Game_delete :: "nat \<Rightarrow> unit M" where
  "Game_delete g = bind (game_at g) (\<lambda>x.
     seq (forM (g_connlist x) (\<lambda>a. upd_client a (\<lambda>c. c\<lparr>c_game := None\<rparr>)))
         (modify (\<lambda>w. w\<lparr>games := (games w)[g := None]\<rparr>)))"

definition Games_Remove :: "string \<Rightarrow> unit M" where
  "Games_Remove name = bind (gets game_map) (\<lambda>m. case ufind CompareInCaseEqual m name of None \<Rightarrow> ret ()
     | Some g \<Rightarrow> seq (modify (\<lambda>w. w\<lparr>game_map := uerase CompareInCaseEqual (game_map w) name\<rparr>)) (Game_delete g))"

definition Games_Add :: "env \<Rightarrow> string \<Rightarrow> nat M" where
  "Games_Add e name = bind (gets (\<lambda>w. length (games w))) (\<lambda>g. bind (gets game_map) (\<lambda>m.
     seq (modify (\<lambda>w. w\<lparr>games := games w @ [Some (new_game e g name)],
                          game_map := uset CompareInCaseEqual (game_map w) name g\<rparr>))
     (seq (case ufind CompareInCaseEqual m name of None \<Rightarrow> ret () | Some old \<Rightarrow> Game_delete old) (ret g))))"

definition Games_find :: "string \<Rightarrow> nat option M" where
  "Games_find name = gets (\<lambda>w. ufind CompareInCaseEqual (game_map w) name)"

definition IsHost :: "nat \<Rightarrow> game_item \<Rightarrow> bool" where
  "IsHost a g \<longleftrightarrow> g_host g = Some a"

definition Game_Leave :: "nat \<Rightarrow> nat \<Rightarrow> unit M" where
  "Game_Leave g a =
     seq (upd_client a (\<lambda>c. c\<lparr>c_game := None\<rparr>))
     (seq (upd_game g (\<lambda>x. x\<lparr>g_connlist := remove1 a (g_connlist x)\<rparr>))
     (bind (game_at g) (\<lambda>x.
        whenM (g_host x = Some a)
          (if g_connlist x \<noteq> [] then upd_game g (\<lambda>x. x\<lparr>g_host := Some (hd (g_connlist x))\<rparr>)
           else Games_Remove (g_name x)))))"

section \<open>Channels\<close>

definition ChannelCacheItem :: "string \<Rightarrow> string \<Rightarrow> u32 \<Rightarrow> u32 \<Rightarrow> u32 \<Rightarrow> bool \<Rightarrow> bool \<Rightarrow> channel_item" where
  "ChannelCacheItem short name gameid flag maxUser byCountry byIndex =
     \<lparr>ch_connset = [], ch_name = name, ch_short = short, ch_gameid = gameid, ch_flag = flag,
      ch_maxUser = maxUser, ch_byCountry = byCountry, ch_byIndex = byIndex, ch_spawned = False\<rparr>"

definition Spawn :: "string \<Rightarrow> channel_item \<Rightarrow> channel_item" where
  "Spawn name ch =
     (ChannelCacheItem (ch_short ch) name (ch_gameid ch) (ch_flag ch) (ch_maxUser ch) False False)\<lparr>ch_spawned := True\<rparr>"

definition Channel_Leave :: "nat \<Rightarrow> nat \<Rightarrow> unit M" where
  "Channel_Leave ch a =
     seq (upd_channel ch (\<lambda>x. x\<lparr>ch_connset := set_erase a (ch_connset x)\<rparr>))
     (bind (channel_at ch) (\<lambda>x. bind (Message_SendSet (ch_connset x) (Some a) MT_Leave [] True) (\<lambda>_. ret ())))"

definition leave_game :: "nat \<Rightarrow> unit M" where
  "leave_game a = bind (client_at a) (\<lambda>c. case c_game c of None \<Rightarrow> ret () | Some g \<Rightarrow> Game_Leave g a)"

definition leave_channel :: "nat \<Rightarrow> unit M" where
  "leave_channel a = bind (client_at a) (\<lambda>c. case c_channel c of None \<Rightarrow> ret () | Some ch \<Rightarrow> Channel_Leave ch a)"

definition Channel_Join :: "nat \<Rightarrow> nat \<Rightarrow> unit M" where
  "Channel_Join ch a =
     seq (leave_game a) (seq (leave_channel a)
     (seq (upd_client a (\<lambda>c. c\<lparr>c_channel := Some ch\<rparr>))
     (seq (upd_channel ch (\<lambda>x. x\<lparr>ch_connset := set_insert a (ch_connset x)\<rparr>))
     (bind (channel_at ch) (\<lambda>x.
        bind (Message_Send (Some a) None MT_Channel (ch_name x)) (\<lambda>_.
        bind (Message_SendSet (ch_connset x) (Some a) MT_Join [] True) (\<lambda>_.
          forM (ch_connset x) (\<lambda>b. bind (Message_Send (Some a) (Some b) MT_Join []) (\<lambda>_. ret ())))))))))"

definition Broadcast :: "nat \<Rightarrow> string \<Rightarrow> unit M" where
  "Broadcast ch msg = bind (channel_at ch) (\<lambda>x.
     bind (Message_SendSet (ch_connset x) None MT_Info msg True) (\<lambda>_. ret ()))"

definition Emote :: "nat \<Rightarrow> nat \<Rightarrow> string \<Rightarrow> unit M" where
  "Emote ch a msg = bind (channel_at ch) (\<lambda>x.
     bind (Message_SendSet (ch_connset x) (Some a) MT_Emote msg True) (\<lambda>_. ret ()))"

definition Talk :: "nat \<Rightarrow> nat \<Rightarrow> string \<Rightarrow> unit M" where
  "Talk ch a msg = bind (channel_at ch) (\<lambda>x.
     bind (Message_SendSet (ch_connset x) (Some a) MT_Talk msg True) (\<lambda>_. ret ()))"

definition Game_Join :: "nat \<Rightarrow> nat \<Rightarrow> unit M" where
  "Game_Join g a =
     seq (upd_game g (\<lambda>x. x\<lparr>g_host := if g_connlist x = [] then Some a else g_host x,
                           g_connlist := g_connlist x @ [a]\<rparr>))
     (seq (leave_game a) (seq (leave_channel a)
       (upd_client a (\<lambda>c. c\<lparr>c_game := Some g\<rparr>))))"

section \<open>The channel cache\<close>

definition Channels_find :: "string \<Rightarrow> nat option M" where
  "Channels_find name = gets (\<lambda>w. ufind CompareInCaseEqual (channelmap w) name)"

text \<open>\<^verbatim>\<open>operator[](uint)\<close> creates an empty list for a game that has none.\<close>

definition tag_list :: "u32 \<Rightarrow> (u32 \<times> nat list) list \<Rightarrow> nat list" where
  "tag_list tag m = (case ofind (<) m tag of None \<Rightarrow> [] | Some l \<Rightarrow> l)"

definition Channels_by_tag :: "u32 \<Rightarrow> nat list M" where
  "Channels_by_tag tag =
     seq (modify (\<lambda>w. w\<lparr>game_channelmap := oset (<) (game_channelmap w) tag (tag_list tag (game_channelmap w))\<rparr>))
         (gets (\<lambda>w. tag_list tag (game_channelmap w)))"

definition Channels_Add :: "nat option \<Rightarrow> unit M" where
  "Channels_Add ch = (case ch of None \<Rightarrow> ret ()
     | Some a \<Rightarrow> bind (channel_at a) (\<lambda>x.
         seq (modify (\<lambda>w. w\<lparr>channelmap := uset CompareInCaseEqual (channelmap w) (ch_short x) a\<rparr>))
         (seq (whenM (generic_strcmpia (c_str (ch_short x)) (c_str (ch_name x)) \<noteq> 0)
                 (modify (\<lambda>w. w\<lparr>channelmap := uset CompareInCaseEqual (channelmap w) (ch_name x) a\<rparr>)))
         (modify (\<lambda>w. w\<lparr>game_channelmap := oset (<) (game_channelmap w) (ch_gameid x)
                          (tag_list (ch_gameid x) (game_channelmap w) @ [a])\<rparr>)))))"

definition new_channel :: "channel_item \<Rightarrow> nat M" where
  "new_channel x = bind (gets (\<lambda>w. length (channels w))) (\<lambda>a.
     seq (modify (\<lambda>w. w\<lparr>channels := channels w @ [x]\<rparr>)) (ret a))"

definition Channels_Add_new :: "channel_item \<Rightarrow> nat M" where
  "Channels_Add_new x = bind (new_channel x) (\<lambda>a. seq (Channels_Add (Some a)) (ret a))"

text \<open>The loop over \<^verbatim>\<open>name-1\<close>, \<^verbatim>\<open>name-2\<close>, ...; it needs no more steps than the map has entries.\<close>

primrec ensure_index :: "nat \<Rightarrow> channel_item \<Rightarrow> string \<Rightarrow> int \<Rightarrow> nat option M" where
  "ensure_index 0 r newname idx = fail NoFuel"
| "ensure_index (Suc n) r newname idx =
     (let newname2 = fmt_append (newname @ ''-'') idx
      in bind (Channels_find newname2) (\<lambda>p. case p of
           None \<Rightarrow> bind (Channels_Add_new (Spawn newname2 r)) (\<lambda>a. ret (Some a))
         | Some a \<Rightarrow> bind (channel_at a) (\<lambda>x.
             if word_of_nat (length (ch_connset x)) < ch_maxUser x then ret (Some a)
             else ensure_index n r newname (idx + 1))))"

definition Ensure :: "string \<Rightarrow> u32 \<Rightarrow> string \<Rightarrow> nat option M" where
  "Ensure name tag country = bind (Channels_find name) (\<lambda>p. case p of
       None \<Rightarrow> bind (Channels_Add_new (ChannelCacheItem name name tag 0 100 False False)) (\<lambda>a. ret (Some a))
     | Some res \<Rightarrow> bind (channel_at res) (\<lambda>r.
         let newname = (if ch_byCountry r then ch_name r @ '' '' @ country else [])
         in if ch_byIndex r then
              let newname = (if newname = [] then ch_name r else newname)
              in bind (gets channelmap) (\<lambda>m. ensure_index (Suc (length m)) r newname 1)
            else if newname \<noteq> [] then
              bind (Channels_find newname) (\<lambda>p2. case p2 of
                  None \<Rightarrow> bind (Channels_Add_new (Spawn newname r)) (\<lambda>a. ret (Some a))
                | Some a \<Rightarrow> bind (channel_at a) (\<lambda>x.
                    ret (if word_of_nat (length (ch_connset x)) < ch_maxUser x then Some a else None)))
            else ret (if word_of_nat (length (ch_connset r)) < ch_maxUser r then Some res else None)))"

definition Channels_Remove :: "string \<Rightarrow> unit M" where
  "Channels_Remove name = bind (Channels_find name) (\<lambda>p. case p of None \<Rightarrow> ret ()
     | Some a \<Rightarrow> bind (channel_at a) (\<lambda>x.
         modify (\<lambda>w. w\<lparr>game_channelmap := oset (<) (game_channelmap w) (ch_gameid x)
                          (remove1 a (tag_list (ch_gameid x) (game_channelmap w))),
                        channelmap := uerase CompareInCaseEqual (channelmap w) name\<rparr>)))"

definition Channels_Remove_ptr :: "nat option \<Rightarrow> unit M" where
  "Channels_Remove_ptr ch = (case ch of None \<Rightarrow> ret () | Some a \<Rightarrow> bind (channel_at a) (\<lambda>x. Channels_Remove (ch_name x)))"

section \<open>Disconnecting\<close>

definition Client_delete :: "nat \<Rightarrow> unit M" where
  "Client_delete a =
     seq (leave_game a) (seq (leave_channel a)
     (bind (client_at a) (\<lambda>c.
        seq (case c_user c of None \<Rightarrow> pool_Remove_token (c_session c)
             | Some u \<Rightarrow> bind (user_at u) (\<lambda>u. pool_Remove (u_username u)))
            (modify (\<lambda>w. w\<lparr>clients := (clients w)[a := None]\<rparr>)))))"

section \<open>The invariant\<close>

text \<open>The clients that say they are in a game; a game's list names exactly them.\<close>

definition members :: "world \<Rightarrow> nat \<Rightarrow> nat set" where
  "members w g = {a. live_client w a \<and> c_game (the_client w a) = Some g}"

definition host_ok :: "game_item \<Rightarrow> bool" where
  "host_ok x \<longleftrightarrow> (if g_connlist x = [] then g_host x = None else g_host x \<in> Some ` set (g_connlist x))"

definition game_ok :: "world \<Rightarrow> nat \<Rightarrow> bool" where
  "game_ok w g \<longleftrightarrow> distinct (g_connlist (the_game w g)) \<and> set (g_connlist (the_game w g)) = members w g
     \<and> host_ok (the_game w g) \<and> ufind CompareInCaseEqual (game_map w) (g_name (the_game w g)) = Some g"

definition maps_ok :: "world \<Rightarrow> bool" where
  "maps_ok w \<longleftrightarrow> udistinct CompareInCaseEqual (game_map w) \<and> udistinct CompareInCaseEqual (clientMap w)
     \<and> (\<forall>p\<in>set (game_map w). live_game w (snd p) \<and> CompareInCaseEqual (fst p) (g_name (the_game w (snd p))))
     \<and> (\<forall>p\<in>set (clientMap w). live_client w (snd p) \<and> c_user (the_client w (snd p)) \<noteq> None
          \<and> CompareInCaseEqual (fst p) (username_of w (snd p)))
     \<and> (\<forall>p\<in>set (channelmap w). snd p < length (channels w))
     \<and> (\<forall>p\<in>set (game_channelmap w). \<forall>ch\<in>set (snd p). ch < length (channels w))
     \<and> (\<forall>x\<in>set (channels w). NUL \<notin> set (ch_name x))"

definition rooms_ok :: "world \<Rightarrow> bool" where
  "rooms_ok w \<longleftrightarrow>
     (\<forall>a. live_client w a \<longrightarrow> good_client w a \<and> (\<forall>g. c_game (the_client w a) = Some g \<longrightarrow> live_game w g))
     \<and> (\<forall>ch<length (channels w). \<forall>a\<in>set (ch_connset (channels w ! ch)).
          live_client w a \<and> c_channel (the_client w a) = Some ch)
     \<and> (\<forall>g. live_game w g \<longrightarrow> game_ok w g) \<and> maps_ok w"

lemma rooms_okI:
  assumes "\<And>a. live_client w a \<Longrightarrow> good_client w a"
    and "\<And>a g. live_client w a \<Longrightarrow> c_game (the_client w a) = Some g \<Longrightarrow> live_game w g"
    and "\<And>ch a. ch < length (channels w) \<Longrightarrow> a \<in> set (ch_connset (channels w ! ch)) \<Longrightarrow>
       live_client w a \<and> c_channel (the_client w a) = Some ch"
    and "\<And>g. live_game w g \<Longrightarrow> game_ok w g" and "maps_ok w"
  shows "rooms_ok w"
  unfolding rooms_ok_def using assms by blast

lemma rooms_okD:
  assumes "rooms_ok w"
  shows "live_client w a \<Longrightarrow> good_client w a"
    and "live_client w a \<Longrightarrow> c_game (the_client w a) = Some g \<Longrightarrow> live_game w g"
    and "ch < length (channels w) \<Longrightarrow> a \<in> set (ch_connset (channels w ! ch)) \<Longrightarrow>
       live_client w a \<and> c_channel (the_client w a) = Some ch"
    and "live_game w g \<Longrightarrow> game_ok w g" and "maps_ok w"
  using assms unfolding rooms_ok_def by blast+

lemma place_fields:
  assumes "place c = place d" shows "c_user c = c_user d" "c_game c = c_game d" "c_channel c = c_channel d"
  using assms by (simp_all add: place_def)

lemma username_core: "core w' = core w \<Longrightarrow> live_client w a \<Longrightarrow> username_of w' a = username_of w a"
  using core_live(2) [of w' w a] core_eqs(3) [of w' w] by (simp add: username_of_def place_def split: option.split)

lemma rooms_ok_core:
  assumes c: "core w' = core w" and ok: "rooms_ok w"
  shows "rooms_ok w'"
proof (rule rooms_okI)
  note live = core_live(1) [OF c] and eqs = core_eqs [OF c]
  note fields = place_fields [OF core_live(2) [OF c]]
  show "good_client w' a" if "live_client w' a" for a
    using that rooms_okD(1) [OF ok] live good_core [OF c] by blast
  show "live_game w' g"
    if "live_client w' a" "c_game (the_client w' a) = Some g" for a g
    using that rooms_okD(2) [OF ok, of a g] live [of a] fields [of a] eqs(9,10) [of g] by simp
  show "live_client w' a \<and> c_channel (the_client w' a) = Some ch"
    if "ch < length (channels w')" "a \<in> set (ch_connset (channels w' ! ch))" for ch a
    using that rooms_okD(3) [OF ok, of ch a] live [of a] fields [of a] eqs(1) by simp
  show "game_ok w' g" if "live_game w' g" for g
  proof -
    have "members w' g = members w g" using live fields by (auto simp: members_def)
    then show ?thesis using that rooms_okD(4) [OF ok, of g] eqs(4,9,10) by (simp add: game_ok_def)
  qed
  show "maps_ok w'"
    using rooms_okD(5) [OF ok] live fields eqs username_core [OF c] by (auto simp: maps_ok_def)
qed

lemma maps_okI:
  assumes "udistinct CompareInCaseEqual (game_map w)" and "udistinct CompareInCaseEqual (clientMap w)"
    and "\<And>n g. (n, g) \<in> set (game_map w) \<Longrightarrow> live_game w g \<and> CompareInCaseEqual n (g_name (the_game w g))"
    and "\<And>n a. (n, a) \<in> set (clientMap w) \<Longrightarrow> live_client w a \<and> c_user (the_client w a) \<noteq> None
       \<and> CompareInCaseEqual n (username_of w a)"
    and "\<And>n ch. (n, ch) \<in> set (channelmap w) \<Longrightarrow> ch < length (channels w)"
    and "\<And>t l ch. (t, l) \<in> set (game_channelmap w) \<Longrightarrow> ch \<in> set l \<Longrightarrow> ch < length (channels w)"
    and "\<And>x. x \<in> set (channels w) \<Longrightarrow> NUL \<notin> set (ch_name x)"
  shows "maps_ok w"
  unfolding maps_ok_def using assms by auto

lemma maps_okD:
  assumes "maps_ok w"
  shows "udistinct CompareInCaseEqual (game_map w)" and "udistinct CompareInCaseEqual (clientMap w)"
    and "(n, g) \<in> set (game_map w) \<Longrightarrow> live_game w g \<and> CompareInCaseEqual n (g_name (the_game w g))"
    and "(n, a) \<in> set (clientMap w) \<Longrightarrow> live_client w a \<and> c_user (the_client w a) \<noteq> None
       \<and> CompareInCaseEqual n (username_of w a)"
    and "(n, ch) \<in> set (channelmap w) \<Longrightarrow> ch < length (channels w)"
    and "(t, l) \<in> set (game_channelmap w) \<Longrightarrow> ch \<in> set l \<Longrightarrow> ch < length (channels w)"
    and "x \<in> set (channels w) \<Longrightarrow> NUL \<notin> set (ch_name x)"
  using assms unfolding maps_ok_def by auto

text \<open>
  One client's game changes to \<open>n\<close>. Games may be deleted and their lists and hosts may change, as
  long as the lists agree with that change.
\<close>

lemma rooms_ok_move:
  assumes ok: "rooms_ok w"
    and live: "\<And>b. live_client w' b = live_client w b"
    and cl: "\<And>b. live_client w b \<Longrightarrow> c_user (the_client w' b) = c_user (the_client w b) \<and>
       c_channel (the_client w' b) = c_channel (the_client w b)"
    and game: "\<And>b. live_client w b \<Longrightarrow> c_game (the_client w' b) = (if b = a then n else c_game (the_client w b))"
    and a: "live_client w a"
    and games: "\<And>h. live_game w' h \<Longrightarrow> live_game w h \<and> g_name (the_game w' h) = g_name (the_game w h)
       \<and> distinct (g_connlist (the_game w' h)) \<and> host_ok (the_game w' h)
       \<and> set (g_connlist (the_game w' h)) = (set (g_connlist (the_game w h)) - {a}) \<union> (if n = Some h then {a} else {})
       \<and> ufind CompareInCaseEqual (game_map w') (g_name (the_game w h)) = Some h"
    and gone: "\<And>h. live_game w h \<Longrightarrow> \<not> live_game w' h \<Longrightarrow> members w h \<subseteq> {a} \<and> n \<noteq> Some h"
    and new: "\<And>h. n = Some h \<Longrightarrow> live_game w h"
    and gm: "udistinct CompareInCaseEqual (game_map w')"
       "\<And>k h. (k, h) \<in> set (game_map w') \<Longrightarrow> live_game w' h \<and> (k, h) \<in> set (game_map w)"
    and fields: "channels w' = channels w" "users w' = users w" "clientMap w' = clientMap w" "channelmap w' = channelmap w"
       "game_channelmap w' = game_channelmap w"
  shows "rooms_ok w'"
proof (rule rooms_okI)
  show "good_client w' b" if "live_client w' b" for b
    using that rooms_okD(1) [OF ok, of b] live [of b] cl [of b] fields(1,2) by (auto simp: good_client_def)
  show "live_game w' h" if b: "live_client w' b" "c_game (the_client w' b) = Some h" for b h
  proof (rule ccontr)
    assume no: "\<not> live_game w' h"
    have "live_game w h" using b live [of b] game [of b] new rooms_okD(2) [OF ok, of b h] by (auto split: if_splits)
    from gone [OF this no] show False using b live [of b] game [of b] by (auto simp: members_def split: if_splits)
  qed
  show "live_client w' b \<and> c_channel (the_client w' b) = Some ch"
    if "ch < length (channels w')" "b \<in> set (ch_connset (channels w' ! ch))" for ch b
    using that rooms_okD(3) [OF ok, of ch b] live [of b] cl [of b] fields(1) by simp
  show "game_ok w' h" if h: "live_game w' h" for h
  proof -
    have "members w' h = (members w h - {a}) \<union> (if n = Some h then {a} else {})"
      using live game a by (auto simp: members_def split: if_splits)
    moreover have "game_ok w h" using rooms_okD(4) [OF ok] games [OF h] by blast
    ultimately show ?thesis using games [OF h] by (simp add: game_ok_def)
  qed
  show "maps_ok w'"
  proof (rule maps_okI)
    show "live_game w' h \<and> CompareInCaseEqual k (g_name (the_game w' h))" if "(k, h) \<in> set (game_map w')" for k h
      using gm(2) [OF that] games [of h] maps_okD(3) [OF rooms_okD(5) [OF ok], of k h] by simp
    show "live_client w' b \<and> c_user (the_client w' b) \<noteq> None \<and> CompareInCaseEqual k (username_of w' b)"
      if "(k, b) \<in> set (clientMap w')" for k b
      using that maps_okD(4) [OF rooms_okD(5) [OF ok], of k b] live [of b] cl [of b] fields
      by (auto simp: username_of_def)
  qed (use gm(1) maps_okD [OF rooms_okD(5) [OF ok]] fields in auto)
qed

section \<open>Leaving a game and a channel\<close>

text \<open>What becomes of a game when a client leaves it; None: it is deleted.\<close>

definition left_game :: "nat \<Rightarrow> game_item \<Rightarrow> game_item option" where
  "left_game a x = (let l = remove1 a (g_connlist x)
     in if g_host x = Some a then if l = [] then None else Some (x\<lparr>g_connlist := l, g_host := Some (hd l)\<rparr>)
        else Some (x\<lparr>g_connlist := l\<rparr>))"

lemma wp_Game_Leave:
  assumes a: "live_client w a" and g: "live_game w g"
    and m: "ufind CompareInCaseEqual (game_map w) (g_name (the_game w g)) = Some g"
  shows "wp (Game_Leave g a) Q w = Q () (w\<lparr>clients := (clients w)[a := Some ((the_client w a)\<lparr>c_game := None\<rparr>)],
     games := (games w)[g := left_game a (the_game w g)],
     game_map := if left_game a (the_game w g) = None then uerase CompareInCaseEqual (game_map w) (g_name (the_game w g))
       else game_map w\<rparr>)"
proof -
  let ?x = "the_game w g" and ?l = "remove1 a (g_connlist (the_game w g))"
  have lt: "g < length (games w)" using g by (simp add: live_game_def)
  consider "g_host ?x \<noteq> Some a" | "g_host ?x = Some a" "?l \<noteq> []" | "g_host ?x = Some a" "?l = []" by blast
  then show ?thesis
  proof cases
    case 1
    then show ?thesis using assms lt by (simp add: Game_Leave_def left_game_def Let_def live_game_def the_game_def)
  next
    case 2
    then show ?thesis using assms lt by (simp add: Game_Leave_def left_game_def Let_def live_game_def the_game_def)
  next
    case 3
    then show ?thesis using assms lt
      by (cases w) (simp add: Game_Leave_def left_game_def Let_def Games_Remove_def Game_delete_def live_game_def the_game_def)
  qed
qed

definition gone_game :: "nat \<Rightarrow> world \<Rightarrow> world" where
  "gone_game a w = (case c_game (the_client w a) of None \<Rightarrow> w | Some g \<Rightarrow>
     w\<lparr>clients := (clients w)[a := Some ((the_client w a)\<lparr>c_game := None\<rparr>)],
       games := (games w)[g := left_game a (the_game w g)],
       game_map := if left_game a (the_game w g) = None then uerase CompareInCaseEqual (game_map w) (g_name (the_game w g))
         else game_map w\<rparr>)"

lemma wp_leave_game:
  assumes "live_client w a" and "\<And>g. c_game (the_client w a) = Some g \<Longrightarrow>
    live_game w g \<and> ufind CompareInCaseEqual (game_map w) (g_name (the_game w g)) = Some g"
  shows "wp (leave_game a) Q w = Q () (gone_game a w)"
  using assms by (auto simp: leave_game_def gone_game_def wp_Game_Leave split: option.split)

definition left_channels :: "nat \<Rightarrow> world \<Rightarrow> channel_item list" where
  "left_channels a w = (case c_channel (the_client w a) of None \<Rightarrow> channels w
     | Some ch \<Rightarrow> (channels w)[ch := (channels w ! ch)\<lparr>ch_connset := set_erase a (ch_connset (channels w ! ch))\<rparr>])"

lemma left_channels_cong:
  "c_channel (the_client w' a) = c_channel (the_client w a) \<Longrightarrow> channels w' = channels w \<Longrightarrow> left_channels a w' = left_channels a w"
  by (simp add: left_channels_def split: option.split)

definition left_notes :: "nat \<Rightarrow> world \<Rightarrow> (nat \<times> bytes) list" where
  "left_notes a w = (case c_channel (the_client w a) of None \<Rightarrow> []
     | Some ch \<Rightarrow> map (\<lambda>b. (b, message_packet w (Some a) MT_Leave [])) (set_erase a (ch_connset (channels w ! ch))))"

definition gone_channel :: "nat \<Rightarrow> world \<Rightarrow> world" where
  "gone_channel a w = w\<lparr>channels := left_channels a w, sent := sent w @ left_notes a w\<rparr>"

lemma message_packet_channels: "t \<noteq> MT_Channel \<Longrightarrow> message_packet (w\<lparr>channels := cs\<rparr>) c t m = message_packet w c t m"
  by (simp add: message_packet_def flag_of_def username_of_def split: option.split)

lemma wp_leave_channel:
  assumes a: "good_client w a"
    and l: "\<And>ch b. c_channel (the_client w a) = Some ch \<Longrightarrow> b \<in> set (ch_connset (channels w ! ch)) \<Longrightarrow> live_client w b"
  shows "wp (leave_channel a) Q w = Q () (gone_channel a w)"
proof (cases "c_channel (the_client w a)")
  case None
  then show ?thesis using a by (simp add: leave_channel_def gone_channel_def left_channels_def left_notes_def good_live)
next
  case (Some ch)
  let ?v = "w\<lparr>channels := (channels w)[ch := (channels w ! ch)\<lparr>ch_connset := set_erase a (ch_connset (channels w ! ch))\<rparr>]\<rparr>"
  have ch: "ch < length (channels w)" using a Some by (simp add: good_client_def)
  have v: "good_ptr ?v (Some a)" using a by (simp add: good_client_def)
  have mt: "MT_Leave \<noteq> MT_Channel" by (simp add: mt_defs)
  have e: "filter (\<lambda>b. b \<noteq> a) (set_erase a l) = set_erase a l" for l by (simp add: set_erase_def)
  have "wp (Channel_Leave ch a) Q w = Q () (?v\<lparr>sent := sent w @ map (\<lambda>b. (b, message_packet w (Some a) MT_Leave []))
      (set_erase a (ch_connset (channels w ! ch)))\<rparr>)"
    using ch wp_Message_SendSet [OF _ v mt_distinct(4), of "set_erase a (ch_connset (channels w ! ch))" "[]" True] l [OF Some]
    by (simp add: Channel_Leave_def message_packet_channels mt e)
  then show ?thesis using a Some
    by (simp add: leave_channel_def gone_channel_def left_channels_def left_notes_def good_live)
qed

section \<open>The invariant is kept\<close>

lemma rooms_ok_game:
  assumes "rooms_ok w" and "live_client w a" and "c_game (the_client w a) = Some g"
  shows "live_game w g" and "a \<in> set (g_connlist (the_game w g))"
    and "ufind CompareInCaseEqual (game_map w) (g_name (the_game w g)) = Some g"
proof -
  show "live_game w g" by (rule rooms_okD(2) [OF assms])
  from rooms_okD(4) [OF assms(1) this] show "a \<in> set (g_connlist (the_game w g))"
    and "ufind CompareInCaseEqual (game_map w) (g_name (the_game w g)) = Some g"
    using assms(2,3) by (simp_all add: game_ok_def members_def)
qed

text \<open>Two games do not share a name, a client is in one game only.\<close>

lemma game_names_differ:
  assumes "rooms_ok w" and "live_game w g" and "live_game w h" and "g \<noteq> h"
  shows "\<not> CompareInCaseEqual (g_name (the_game w g)) (g_name (the_game w h))"
  using ci.ufind_cong [of _ _ "game_map w"] rooms_okD(4) [OF assms(1,2)] rooms_okD(4) [OF assms(1,3)] assms(4)
  by (metis game_ok_def option.inject)

lemma uerase_entryD:
  assumes "udistinct CompareInCaseEqual m" and "(k, v) \<in> set (uerase CompareInCaseEqual m n)"
  shows "(k, v) \<in> set m \<and> \<not> CompareInCaseEqual k n"
proof
  show "(k, v) \<in> set m" using assms(2) set_uerase_subset by fast
  show "\<not> CompareInCaseEqual k n"
  proof
    assume "CompareInCaseEqual k n"
    then have "ufind CompareInCaseEqual (uerase CompareInCaseEqual m n) k = None"
      using ci.ufind_uerase_same [OF assms(1)] ci.eq_sym by blast
    then show False using assms(2) ci.eq_refl by (auto simp: ufind_None_iff)
  qed
qed

lemma left_game_facts:
  assumes "distinct (g_connlist x)" and "host_ok x" and "a \<in> set (g_connlist x)"
  shows "left_game a x = None \<Longrightarrow> set (g_connlist x) = {a}"
    and "left_game a x = Some y \<Longrightarrow> g_name y = g_name x \<and> distinct (g_connlist y)
       \<and> set (g_connlist y) = set (g_connlist x) - {a} \<and> host_ok y"
proof -
  have s: "set (remove1 a (g_connlist x)) = set (g_connlist x) - {a}" using assms(1) by simp
  show "set (g_connlist x) = {a}" if "left_game a x = None"
  proof -
    have "remove1 a (g_connlist x) = []" using that by (simp add: left_game_def Let_def split: if_splits)
    then show ?thesis using s assms(3) by auto
  qed
  show "g_name y = g_name x \<and> distinct (g_connlist y) \<and> set (g_connlist y) = set (g_connlist x) - {a} \<and> host_ok y"
    if y: "left_game a x = Some y"
  proof (cases "g_host x = Some a")
    case True
    then have l: "remove1 a (g_connlist x) \<noteq> []"
      "y = x\<lparr>g_connlist := remove1 a (g_connlist x), g_host := Some (hd (remove1 a (g_connlist x)))\<rparr>"
      using y by (auto simp: left_game_def Let_def split: if_splits)
    then show ?thesis using assms(1) s hd_in_set [OF l(1)] by (auto simp: host_ok_def)
  next
    case False
    then have y': "y = x\<lparr>g_connlist := remove1 a (g_connlist x)\<rparr>" using y by (simp add: left_game_def Let_def)
    obtain h where h: "g_host x = Some h" "h \<in> set (g_connlist x)" using assms(2,3) by (auto simp: host_ok_def split: if_splits)
    then have hm: "h \<in> set (remove1 a (g_connlist x))" using False s by auto
    then have "remove1 a (g_connlist x) \<noteq> []" by auto
    then show ?thesis using y' assms(1) s h(1) hm by (simp add: host_ok_def)
  qed
qed

lemma rooms_ok_gone_game:
  assumes ok: "rooms_ok w" and a: "live_client w a"
  shows "rooms_ok (gone_game a w)"
proof (cases "c_game (the_client w a)")
  case None
  then show ?thesis using ok by (simp add: gone_game_def)
next
  case (Some g)
  note g = rooms_ok_game [OF ok a Some]
  let ?x = "the_game w g" and ?w = "gone_game a w"
  have okg: "game_ok w g" by (rule rooms_okD(4) [OF ok g(1)])
  note f = left_game_facts [of ?x a] and mo = rooms_okD(5) [OF ok]
  have lt: "g < length (games w)" "a < length (clients w)" using g(1) a by (simp_all add: live_game_def live_client_def)
  have gm: "game_map ?w = (if left_game a ?x = None then uerase CompareInCaseEqual (game_map w) (g_name ?x) else game_map w)"
    and gs: "games ?w = (games w)[g := left_game a ?x]"
    and cs: "clients ?w = (clients w)[a := Some ((the_client w a)\<lparr>c_game := None\<rparr>)]"
    using Some by (simp_all add: gone_game_def)
  have lg: "live_game ?w h \<longleftrightarrow> live_game w h \<and> \<not> (h = g \<and> left_game a ?x = None)" for h
    using lt(1) g(1) by (cases "h = g") (auto simp: live_game_def gs)
  have tg: "the_game ?w h = (if h = g then the (left_game a ?x) else the_game w h)" for h
    using lt(1) by (simp add: the_game_def gs)
  show ?thesis
  proof (rule rooms_ok_move [OF ok, where a = a and n = None])
    show "live_client ?w b = live_client w b" for b using a lt(2) by (auto simp: live_client_def cs nth_list_update)
    show "c_user (the_client ?w b) = c_user (the_client w b) \<and> c_channel (the_client ?w b) = c_channel (the_client w b)" for b
      using lt(2) by (simp add: the_client_def cs nth_list_update)
    show "c_game (the_client ?w b) = (if b = a then None else c_game (the_client w b))" for b
      using lt(2) by (simp add: the_client_def cs nth_list_update)
    show "live_client w a" by (rule a)
    show "udistinct CompareInCaseEqual (game_map ?w)"
      using maps_okD(1) [OF mo] by (simp add: gm ci.udistinct_uerase)
    show "live_game ?w h \<and> (k, h) \<in> set (game_map w)" if kh: "(k, h) \<in> set (game_map ?w)" for k h
    proof -
      have m: "(k, h) \<in> set (game_map w)" "left_game a ?x = None \<Longrightarrow> \<not> CompareInCaseEqual k (g_name ?x)"
        using kh uerase_entryD [OF maps_okD(1) [OF mo], of k h] by (auto simp: gm split: if_splits)
      then show ?thesis using maps_okD(3) [OF mo m(1)] lg by auto
    qed
    show "members w h \<subseteq> {a} \<and> None \<noteq> Some h" if "live_game w h" "\<not> live_game ?w h" for h
      using that lg [of h] f(1) okg g(2) by (auto simp: game_ok_def)
    show "live_game w h \<and> g_name (the_game ?w h) = g_name (the_game w h) \<and> distinct (g_connlist (the_game ?w h))
        \<and> host_ok (the_game ?w h)
        \<and> set (g_connlist (the_game ?w h)) = set (g_connlist (the_game w h)) - {a} \<union> (if None = Some h then {a} else {})
        \<and> ufind CompareInCaseEqual (game_map ?w) (g_name (the_game w h)) = Some h" if h: "live_game ?w h" for h
    proof (cases "h = g")
      case True
      then obtain y where y: "left_game a ?x = Some y" using h lg by auto
      have "g_name y = g_name ?x \<and> distinct (g_connlist y) \<and> set (g_connlist y) = set (g_connlist ?x) - {a} \<and> host_ok y"
        using f(2) [OF _ _ g(2) y] okg by (simp add: game_ok_def)
      moreover have "game_map ?w = game_map w" "the_game ?w g = y" using y gm tg [of g] by simp_all
      ultimately show ?thesis using g True by simp
    next
      case False
      then have lh: "live_game w h" using h lg by blast
      have oh: "game_ok w h" by (rule rooms_okD(4) [OF ok lh])
      moreover have "a \<notin> set (g_connlist (the_game w h))"
        using oh Some False by (auto simp: game_ok_def members_def)
      moreover have "ufind CompareInCaseEqual (game_map ?w) (g_name (the_game w h)) = Some h"
        using oh game_names_differ [OF ok g(1) lh] False ci.ufind_uerase_other [of "g_name ?x" "g_name (the_game w h)" "game_map w"]
        by (simp add: gm game_ok_def)
      moreover have "the_game ?w h = the_game w h" using tg [of h] False by simp
      ultimately show ?thesis using lh by (simp add: game_ok_def)
    qed
  qed (simp_all add: gone_game_def Some)
qed

lemma rooms_ok_channels:
  assumes ok: "rooms_ok w" and l: "length (channels w) \<le> length cs" and nul: "\<And>x. x \<in> set cs \<Longrightarrow> NUL \<notin> set (ch_name x)"
    and m: "\<And>ch a. ch < length cs \<Longrightarrow> a \<in> set (ch_connset (cs ! ch)) \<Longrightarrow> live_client w a \<and> c_channel (the_client w a) = Some ch"
  shows "rooms_ok (w\<lparr>channels := cs\<rparr>)"
proof (rule rooms_okI)
  let ?w = "w\<lparr>channels := cs\<rparr>"
  show "good_client ?w a" if "live_client ?w a" for a
    using that rooms_okD(1) [OF ok, of a] l by (auto simp: good_client_def)
  show "live_game ?w g" if "live_client ?w a" "c_game (the_client ?w a) = Some g" for a g
    using that rooms_okD(2) [OF ok, of a g] by simp
  show "live_client ?w a \<and> c_channel (the_client ?w a) = Some ch"
    if "ch < length (channels ?w)" "a \<in> set (ch_connset (channels ?w ! ch))" for ch a
    using m that by simp
  show "game_ok ?w g" if "live_game ?w g" for g
    using that rooms_okD(4) [OF ok, of g] by (simp add: game_ok_def members_def)
  show "maps_ok ?w"
  proof (rule maps_okI)
    show "live_client ?w a \<and> c_user (the_client ?w a) \<noteq> None \<and> CompareInCaseEqual n (username_of ?w a)"
      if "(n, a) \<in> set (clientMap ?w)" for n a
      using that maps_okD(4) [OF rooms_okD(5) [OF ok], of n a] by (simp add: username_of_def split: option.splits)
    show "NUL \<notin> set (ch_name x)" if "x \<in> set (channels ?w)" for x using nul that by simp
  qed (use maps_okD(1-6) [OF rooms_okD(5) [OF ok]] l in force)+
qed

lemma rooms_ok_left_channels:
  assumes ok: "rooms_ok w" and a: "live_client w a"
  shows "rooms_ok (w\<lparr>channels := left_channels a w\<rparr>)"
    and "ch < length (left_channels a w) \<Longrightarrow> a \<notin> set (ch_connset (left_channels a w ! ch))"
    and "length (left_channels a w) = length (channels w)"
proof -
  show l: "length (left_channels a w) = length (channels w)" by (simp add: left_channels_def split: option.split)
  have m: "set (ch_connset (left_channels a w ! c)) = set (ch_connset (channels w ! c)) - {a}" if "c < length (channels w)" for c
    using that rooms_okD(3) [OF ok that, of a]
    by (cases "c_channel (the_client w a) = Some c") (auto simp: left_channels_def split: option.split)
  have nul: "NUL \<notin> set (ch_name x)" if "x \<in> set (left_channels a w)" for x
  proof -
    have "ch_name (left_channels a w ! c) = ch_name (channels w ! c)" if "c < length (channels w)" for c
      using that by (cases "c_channel (the_client w a) = Some c") (auto simp: left_channels_def split: option.split)
    then show ?thesis using that l maps_okD(7) [OF rooms_okD(5) [OF ok]] by (metis in_set_conv_nth)
  qed
  show "rooms_ok (w\<lparr>channels := left_channels a w\<rparr>)"
    by (rule rooms_ok_channels [OF ok _ nul]) (use l m rooms_okD(3) [OF ok] in auto)
  show "a \<notin> set (ch_connset (left_channels a w ! ch))" if "ch < length (left_channels a w)"
    using that l m by simp
qed

lemma rooms_ok_gone_channel:
  assumes "rooms_ok w" and "live_client w a"
  shows "rooms_ok (gone_channel a w)"
  using rooms_ok_core [OF _ rooms_ok_left_channels(1) [OF assms]] by (simp add: gone_channel_def)

text \<open>
  A client may change its account when the pool does not list it, and its channel when no channel
  lists it.
\<close>

lemma rooms_ok_client:
  assumes ok: "rooms_ok w" and a: "live_client w a" and game: "c_game c = c_game (the_client w a)"
    and user: "c_user c = c_user (the_client w a) \<or> a \<notin> snd ` set (clientMap w) \<and> (\<forall>u. c_user c = Some u \<longrightarrow> u < length (users w))"
    and chan: "c_channel c = c_channel (the_client w a) \<or> (\<forall>x\<in>set (channels w). a \<notin> set (ch_connset x))
       \<and> (\<forall>ch. c_channel c = Some ch \<longrightarrow> ch < length (channels w))"
  shows "rooms_ok (w\<lparr>clients := (clients w)[a := Some c]\<rparr>)"
proof (rule rooms_okI)
  let ?w = "w\<lparr>clients := (clients w)[a := Some c]\<rparr>"
  have live: "live_client ?w b = live_client w b" for b using a by (cases "b = a") (auto simp: live_client_def)
  have cl: "the_client ?w b = (if b = a then c else the_client w b)" for b using a by simp
  show "good_client ?w b" if "live_client ?w b" for b
    using that rooms_okD(1) [OF ok, of b] live [of b] cl [of b] user chan by (cases "b = a") (auto simp: good_client_def)
  show "live_game ?w g" if "live_client ?w b" "c_game (the_client ?w b) = Some g" for b g
    using that rooms_okD(2) [OF ok, of b g] live [of b] cl [of b] game by (cases "b = a") auto
  show "live_client ?w b \<and> c_channel (the_client ?w b) = Some ch"
    if "ch < length (channels ?w)" "b \<in> set (ch_connset (channels ?w ! ch))" for ch b
    using that rooms_okD(3) [OF ok, of ch b] live [of b] cl [of b] chan by (cases "b = a") auto
  show "game_ok ?w g" if "live_game ?w g" for g
  proof -
    have "members ?w g = members w g" using live cl game by (auto simp: members_def split: if_splits)
    then show ?thesis using that rooms_okD(4) [OF ok, of g] by (simp add: game_ok_def)
  qed
  show "maps_ok ?w"
  proof (rule maps_okI)
    show "live_client ?w b \<and> c_user (the_client ?w b) \<noteq> None \<and> CompareInCaseEqual n (username_of ?w b)"
      if nb: "(n, b) \<in> set (clientMap ?w)" for n b
    proof -
      have "b = a \<Longrightarrow> c_user c = c_user (the_client w a)" using user nb by force
      then show ?thesis using nb maps_okD(4) [OF rooms_okD(5) [OF ok], of n b] live [of b] cl [of b]
        by (cases "b = a") (auto simp: username_of_def split: option.splits)
    qed
  qed (use maps_okD [OF rooms_okD(5) [OF ok]] in auto)
qed

lemma rooms_ok_setchannel:
  assumes "rooms_ok w" and "live_client w a" and "ch < length (channels w)"
    and "\<And>c. c < length (channels w) \<Longrightarrow> a \<notin> set (ch_connset (channels w ! c))"
  shows "rooms_ok (w\<lparr>clients := (clients w)[a := Some ((the_client w a)\<lparr>c_channel := Some ch\<rparr>)]\<rparr>)"
proof -
  have "\<forall>x\<in>set (channels w). a \<notin> set (ch_connset x)" using assms(4) by (metis in_set_conv_nth)
  then show ?thesis by (intro rooms_ok_client) (use assms(1-3) in auto)
qed

lemma gone_game_facts [simp]:
  assumes "live_client w a"
  shows "channels (gone_game a w) = channels w" "users (gone_game a w) = users w" "clientMap (gone_game a w) = clientMap w"
    "live_client (gone_game a w) b = live_client w b" "sent (gone_game a w) = sent w"
    "the_client (gone_game a w) b = (if b = a then (the_client w a)\<lparr>c_game := None\<rparr> else the_client w b)"
  using assms by (cases "b = a"; auto simp: gone_game_def live_client_def the_client_def split: option.split)+

lemma gone_channel_facts [simp]:
  "channels (gone_channel a w) = left_channels a w" "users (gone_channel a w) = users w" "games (gone_channel a w) = games w"
  "clientMap (gone_channel a w) = clientMap w" "live_client (gone_channel a w) b = live_client w b"
  "the_client (gone_channel a w) b = the_client w b" "clients (gone_channel a w) = clients w"
  "game_map (gone_channel a w) = game_map w" "live_game (gone_channel a w) g = live_game w g" "the_game (gone_channel a w) g = the_game w g"
  by (simp_all add: gone_channel_def live_client_def the_client_def live_game_def the_game_def)

lemma wp_leave_game_ok:
  assumes "rooms_ok w" and "live_client w a"
  shows "wp (leave_game a) Q w = Q () (gone_game a w)"
  by (rule wp_leave_game) (use assms rooms_ok_game [OF assms] in auto)

lemma wp_leave_channel_ok:
  assumes "rooms_ok w" and "live_client w a"
  shows "wp (leave_channel a) Q w = Q () (gone_channel a w)"
proof (rule wp_leave_channel)
  show g: "good_client w a" by (rule rooms_okD(1) [OF assms])
  show "live_client w b" if "c_channel (the_client w a) = Some ch" "b \<in> set (ch_connset (channels w ! ch))" for ch b
    using rooms_okD(3) [OF assms(1), of ch b] that g by (auto simp: good_client_def)
qed

text \<open>The state of a client that has just been put into a channel, before anybody is told.\<close>

definition put_in_channel :: "nat \<Rightarrow> nat \<Rightarrow> world \<Rightarrow> world" where
  "put_in_channel ch a w =
     (let u = w\<lparr>clients := (clients w)[a := Some ((the_client w a)\<lparr>c_channel := Some ch\<rparr>)]\<rparr>
      in u\<lparr>channels := (channels u)[ch := (channels u ! ch)\<lparr>ch_connset := set_insert a (ch_connset (channels u ! ch))\<rparr>]\<rparr>)"

lemma rooms_ok_put_in_channel:
  assumes ok: "rooms_ok w" and a: "live_client w a" and ch: "ch < length (channels w)"
    and no: "\<And>c. c < length (channels w) \<Longrightarrow> a \<notin> set (ch_connset (channels w ! c))"
  shows "rooms_ok (put_in_channel ch a w)"
proof -
  let ?u = "w\<lparr>clients := (clients w)[a := Some ((the_client w a)\<lparr>c_channel := Some ch\<rparr>)]\<rparr>"
  have u: "rooms_ok ?u" by (rule rooms_ok_setchannel [OF ok a ch no])
  have au: "live_client ?u a" "c_channel (the_client ?u a) = Some ch" using a by simp_all
  show ?thesis unfolding put_in_channel_def Let_def
  proof (rule rooms_ok_channels [OF u])
    show "NUL \<notin> set (ch_name x)"
      if "x \<in> set ((channels ?u)[ch := (channels ?u ! ch)\<lparr>ch_connset := set_insert a (ch_connset (channels ?u ! ch))\<rparr>])" for x
    proof -
      have "x \<in> set (channels ?u) \<or> ch_name x = ch_name (channels ?u ! ch)"
        using that set_update_subset_insert [of "channels ?u" ch] by fastforce
      moreover have "channels ?u ! ch \<in> set (channels ?u)" using ch by simp
      ultimately show ?thesis using maps_okD(7) [OF rooms_okD(5) [OF u]] by metis
    qed
  next
    fix c b
    let ?cs = "(channels ?u)[ch := (channels ?u ! ch)\<lparr>ch_connset := set_insert a (ch_connset (channels ?u ! ch))\<rparr>]"
    assume c: "c < length ?cs" "b \<in> set (ch_connset (?cs ! c))"
    show "live_client ?u b \<and> c_channel (the_client ?u b) = Some c"
    proof (cases "c = ch \<and> b = a")
      case True
      then show ?thesis using au by simp
    next
      case False
      have "b \<in> set (ch_connset (channels ?u ! c))" using False c ch by (cases "c = ch") auto
      then show ?thesis using rooms_okD(3) [OF u, of c b] c(1) by (simp del: live_client_upd the_client_upd)
    qed
  qed simp
qed

lemma put_in_channel_facts [simp]:
  assumes "live_client w a" and "ch < length (channels w)"
  shows "live_client (put_in_channel ch a w) b = live_client w b"
    "the_client (put_in_channel ch a w) b = (if b = a then (the_client w a)\<lparr>c_channel := Some ch\<rparr> else the_client w b)"
    "length (channels (put_in_channel ch a w)) = length (channels w)"
    "ch_connset (channels (put_in_channel ch a w) ! ch) = set_insert a (ch_connset (channels w ! ch))"
    "ch_name (channels (put_in_channel ch a w) ! ch) = ch_name (channels w ! ch)"
  using assms by (cases "b = a"; auto simp: put_in_channel_def Let_def live_client_def the_client_def)+

lemma wp_core_step:
  assumes "core v = core w" and "\<And>u. core u = core w \<Longrightarrow> wp m (\<lambda>_ x. core x = core u) u"
  shows "wp m (\<lambda>_ x. core x = core w) v"
  using assms(2) [OF assms(1)] assms(1) by simp

text \<open>A message between clients of a state that satisfies the invariant.\<close>

lemma rooms_ok_good_ptr: "rooms_ok w \<Longrightarrow> (\<And>a. p = Some a \<Longrightarrow> live_client w a) \<Longrightarrow> good_ptr w p"
  using rooms_okD(1) by (auto simp: good_ptr_def)

lemma wp_send_ok:
  assumes "rooms_ok w" and "core v = core w" and "\<And>a. p = Some a \<Longrightarrow> live_client w a" and "\<And>a. q = Some a \<Longrightarrow> live_client w a"
    and "t = MT_Whisper \<longrightarrow> q \<noteq> None"
  shows "wp (Message_Send p q t m) (\<lambda>_ x. core x = core w) v"
proof -
  have "good_ptr v p" "good_ptr v q" using rooms_ok_good_ptr [OF assms(1)] assms(3,4) good_ptr_core [OF assms(2)] by blast+
  from wp_Message_Send_core [OF this assms(5)] show ?thesis by (simp only: assms(2))
qed

lemma wp_sendset_ok:
  assumes "rooms_ok w" and "core v = core w" and "\<And>a. a \<in> set us \<Longrightarrow> live_client w a" and "\<And>a. q = Some a \<Longrightarrow> live_client w a"
    and "t = MT_Whisper \<longrightarrow> q \<noteq> None"
  shows "wp (Message_SendSet us q t m ig) (\<lambda>_ x. core x = core w) v"
proof -
  have "good_ptr v q" using rooms_ok_good_ptr [OF assms(1)] assms(4) good_ptr_core [OF assms(2)] by blast
  moreover have "live_client v a" if "a \<in> set us" for a using assms(3) [OF that] core_live(1) [OF assms(2)] by blast
  ultimately have "wp (Message_SendSet us q t m ig) (\<lambda>_ x. core x = core v) v"
    using wp_Message_SendSet_core assms(5) by blast
  then show ?thesis by (simp only: assms(2))
qed

definition in_channel :: "nat \<Rightarrow> nat \<Rightarrow> world \<Rightarrow> world" where
  "in_channel ch a w = put_in_channel ch a (gone_channel a (gone_game a w))"

lemma rooms_ok_in_channel:
  assumes ok: "rooms_ok w" and a: "live_client w a" and ch: "ch < length (channels w)"
  shows "rooms_ok (in_channel ch a w)"
proof -
  have v: "rooms_ok (gone_game a w)" "live_client (gone_game a w) a" using rooms_ok_gone_game [OF ok a] a by simp_all
  note l = rooms_ok_left_channels [OF v]
  show ?thesis unfolding in_channel_def
    by (rule rooms_ok_put_in_channel) (use rooms_ok_gone_channel [OF v] a ch l(2,3) in auto)
qed

lemma wp_Channel_Join:
  assumes ok: "rooms_ok w" and a: "live_client w a" and ch: "ch < length (channels w)"
  shows "wp (Channel_Join ch a) (\<lambda>_ x. core x = core (in_channel ch a w)) w"
proof -
  have v: "rooms_ok (gone_game a w)" "live_client (gone_game a w) a" using rooms_ok_gone_game [OF ok a] a by simp_all
  let ?u = "gone_channel a (gone_game a w)" and ?w = "in_channel ch a w"
  have u: "live_client ?u a" "ch < length (channels ?u)" using a ch rooms_ok_left_channels(3) [OF v] by simp_all
  have w3: "rooms_ok ?w" by (rule rooms_ok_in_channel [OF assms])
  have aw: "live_client ?w a" "ch < length (channels ?w)" using u by (simp_all add: in_channel_def)
  have mem: "live_client ?w b" if "b \<in> set (ch_connset (channels ?w ! ch))" for b
    using rooms_okD(3) [OF w3 aw(2) that] by blast
  have put: "wp (seq (upd_client a (\<lambda>c. c\<lparr>c_channel := Some ch\<rparr>))
     (seq (upd_channel ch (\<lambda>x. x\<lparr>ch_connset := set_insert a (ch_connset x)\<rparr>)) K)) Q ?u = wp K Q ?w" for K :: "unit M" and Q
    using u by (simp add: in_channel_def put_in_channel_def Let_def)
  have loop: "wp (forM (ch_connset (channels ?w ! ch)) (\<lambda>b. bind (Message_Send (Some a) (Some b) MT_Join []) (\<lambda>_. ret ())))
      (\<lambda>_ x. core x = core ?w) v" if "core v = core ?w" for v
    by (rule wp_forM_inv) (use that aw mem in \<open>auto intro!: wp_send_ok [OF w3]\<close>)
  have say: "wp (bind (Message_Send (Some a) None MT_Channel (ch_name (channels ?w ! ch))) (\<lambda>_.
        bind (Message_SendSet (ch_connset (channels ?w ! ch)) (Some a) MT_Join [] True) (\<lambda>_.
          forM (ch_connset (channels ?w ! ch)) (\<lambda>b. bind (Message_Send (Some a) (Some b) MT_Join []) (\<lambda>_. ret ())))))
      (\<lambda>_ x. core x = core ?w) ?w"
  proof (rule wp_bindI [where R = "\<lambda>_ x. core x = core ?w"])
    show "wp (Message_Send (Some a) None MT_Channel (ch_name (channels ?w ! ch))) (\<lambda>_ x. core x = core ?w) ?w"
      using aw by (intro wp_send_ok [OF w3]) auto
    show "wp (bind (Message_SendSet (ch_connset (channels ?w ! ch)) (Some a) MT_Join [] True) (\<lambda>_.
          forM (ch_connset (channels ?w ! ch)) (\<lambda>b. bind (Message_Send (Some a) (Some b) MT_Join []) (\<lambda>_. ret ()))))
      (\<lambda>_ x. core x = core ?w) v" if "core v = core ?w" for v
      by (rule wp_bindI [OF wp_sendset_ok [OF w3 that] loop]) (use aw mem in auto)
  qed
  show ?thesis
    unfolding Channel_Join_def wp_seq [of "leave_game a"] wp_leave_game_ok [OF ok a] wp_seq [of "leave_channel a"]
      wp_leave_channel_ok [OF v] put
    unfolding wp_bind [of "channel_at ch"] wp_channel_at using aw say by simp
qed

section \<open>Entering a game\<close>

definition joined_game :: "nat \<Rightarrow> game_item \<Rightarrow> game_item" where
  "joined_game a x = x\<lparr>g_host := if g_connlist x = [] then Some a else g_host x, g_connlist := g_connlist x @ [a]\<rparr>"

text \<open>
  The states of \<^verbatim>\<open>Game_Join\<close>: the client is added to the list first, then it leaves its game
  (which may be the same one), then its channel, and last its pointer is set.
\<close>

definition listed :: "nat \<Rightarrow> nat \<Rightarrow> world \<Rightarrow> world" where
  "listed g a w = w\<lparr>games := (games w)[g := Some (joined_game a (the_game w g))]\<rparr>"

definition in_game :: "nat \<Rightarrow> nat \<Rightarrow> world \<Rightarrow> world" where
  "in_game g a w = (let v = gone_game a (listed g a w)
     in v\<lparr>clients := (clients v)[a := Some ((the_client v a)\<lparr>c_game := Some g\<rparr>)]\<rparr>)"

lemma joined_game_facts:
  assumes "distinct (g_connlist x)" and "host_ok x"
  shows "a \<notin> set (g_connlist x) \<Longrightarrow> distinct (g_connlist (joined_game a x)) \<and> host_ok (joined_game a x)
       \<and> set (g_connlist (joined_game a x)) = insert a (set (g_connlist x)) \<and> g_name (joined_game a x) = g_name x"
    and "a \<in> set (g_connlist x) \<Longrightarrow> \<exists>y. left_game a (joined_game a x) = Some y \<and> distinct (g_connlist y) \<and> host_ok y
       \<and> set (g_connlist y) = insert a (set (g_connlist x)) \<and> g_name y = g_name x"
proof -
  show "distinct (g_connlist (joined_game a x)) \<and> host_ok (joined_game a x)
       \<and> set (g_connlist (joined_game a x)) = insert a (set (g_connlist x)) \<and> g_name (joined_game a x) = g_name x"
    if "a \<notin> set (g_connlist x)"
    using that assms by (auto simp: joined_game_def host_ok_def split: if_splits)
  assume a: "a \<in> set (g_connlist x)"
  let ?l = "remove1 a (g_connlist x @ [a])"
  have l: "?l = remove1 a (g_connlist x) @ [a]" using a by (simp add: remove1_append)
  have s: "set ?l = insert a (set (g_connlist x))" "distinct ?l" using a assms(1) by (auto simp: l)
  obtain h where h: "g_host x = Some h" "h \<in> set (g_connlist x)" using assms(2) a by (auto simp: host_ok_def split: if_splits)
  let ?y = "(joined_game a x)\<lparr>g_connlist := ?l, g_host := if h = a then Some (hd ?l) else Some h\<rparr>"
  have "left_game a (joined_game a x) = Some ?y"
    using a h l by (auto simp: left_game_def joined_game_def Let_def)
  moreover have "host_ok ?y" using s h(2) hd_in_set [of ?l] l by (auto simp: host_ok_def)
  ultimately show "\<exists>y. left_game a (joined_game a x) = Some y \<and> distinct (g_connlist y) \<and> host_ok y
       \<and> set (g_connlist y) = insert a (set (g_connlist x)) \<and> g_name y = g_name x"
    using s by (intro exI [of _ ?y]) (simp add: joined_game_def)
qed

lemma in_game_facts:
  assumes ok: "rooms_ok w" and a: "live_client w a" and g: "live_game w g"
  shows "live_client (in_game g a w) b = live_client w b"
    and "the_client (in_game g a w) b = (if b = a then (the_client w a)\<lparr>c_game := Some g\<rparr> else the_client w b)"
    and "channels (in_game g a w) = channels w" and "users (in_game g a w) = users w" and "clientMap (in_game g a w) = clientMap w"
    and "channelmap (in_game g a w) = channelmap w" and "game_channelmap (in_game g a w) = game_channelmap w"
  using a by (cases "b = a"; auto simp: in_game_def listed_def gone_game_def Let_def live_client_def the_client_def split: option.split)+

lemma in_game_lists:
  assumes a: "live_client w a" and g: "live_game w g"
  shows "games (in_game g a w) = (let gs = (games w)[g := Some (joined_game a (the_game w g))]
     in case c_game (the_client w a) of None \<Rightarrow> gs
        | Some h \<Rightarrow> gs[h := left_game a (if h = g then joined_game a (the_game w g) else the_game w h)])"
    and "game_map (in_game g a w) = (case c_game (the_client w a) of None \<Rightarrow> game_map w
        | Some h \<Rightarrow> let x = (if h = g then joined_game a (the_game w g) else the_game w h)
            in if left_game a x = None then uerase CompareInCaseEqual (game_map w) (g_name x) else game_map w)"
proof -
  have lt: "g < length (games w)" using g by (simp add: live_game_def)
  have tg: "the_game (listed g a w) h = (if h = g then joined_game a (the_game w g) else the_game w h)" for h
    using lt by (simp add: listed_def the_game_def)
  have tc: "the_client (listed g a w) b = the_client w b" "games (listed g a w) = (games w)[g := Some (joined_game a (the_game w g))]"
    "game_map (listed g a w) = game_map w" for b
    by (simp_all add: listed_def)
  show "games (in_game g a w) = (let gs = (games w)[g := Some (joined_game a (the_game w g))]
     in case c_game (the_client w a) of None \<Rightarrow> gs
        | Some h \<Rightarrow> gs[h := left_game a (if h = g then joined_game a (the_game w g) else the_game w h)])"
    by (cases "c_game (the_client w a)") (simp_all add: in_game_def gone_game_def Let_def tg tc)
  show "game_map (in_game g a w) = (case c_game (the_client w a) of None \<Rightarrow> game_map w
        | Some h \<Rightarrow> let x = (if h = g then joined_game a (the_game w g) else the_game w h)
            in if left_game a x = None then uerase CompareInCaseEqual (game_map w) (g_name x) else game_map w)"
    by (cases "c_game (the_client w a)") (simp_all add: in_game_def gone_game_def Let_def tg tc)
qed

lemma rooms_ok_in_game:
  assumes ok: "rooms_ok w" and a: "live_client w a" and g: "live_game w g"
  shows "rooms_ok (in_game g a w)"
proof -
  let ?w = "in_game g a w" and ?o = "c_game (the_client w a)" and ?x = "the_game w g"
  note f = in_game_facts [OF assms] and ls = in_game_lists [OF a g] and mo = rooms_okD(5) [OF ok]
  have okg: "game_ok w g" by (rule rooms_okD(4) [OF ok g])
  have member: "a \<in> set (g_connlist (the_game w h)) \<longleftrightarrow> ?o = Some h" if "live_game w h" for h
    using rooms_okD(4) [OF ok that] a by (simp add: game_ok_def members_def)
  define y where "y = (if ?o = Some g then the (left_game a (joined_game a ?x)) else joined_game a ?x)"
  have y: "distinct (g_connlist y) \<and> host_ok y \<and> set (g_connlist y) = insert a (set (g_connlist ?x)) \<and> g_name y = g_name ?x"
    and some: "?o = Some g \<Longrightarrow> left_game a (joined_game a ?x) = Some y"
    using joined_game_facts [of ?x a] okg member [OF g] by (auto simp: y_def game_ok_def)
  have lt: "g < length (games w)" "\<And>h. ?o = Some h \<Longrightarrow> h < length (games w)"
    using g rooms_ok_game(1) [OF ok a] by (auto simp: live_game_def)
  have gg: "games ?w ! g = Some y" using lt some by (auto simp: ls(1) Let_def y_def split: option.split)
  have gh: "games ?w ! h = (if ?o = Some h then left_game a (the_game w h) else games w ! h)" if "h \<noteq> g" for h
    using that lt(2) by (auto simp: ls(1) Let_def split: option.split)
  have len: "length (games ?w) = length (games w)" by (simp add: ls(1) Let_def split: option.split)
  have lg: "live_game ?w h \<longleftrightarrow> live_game w h \<and> \<not> (h \<noteq> g \<and> ?o = Some h \<and> left_game a (the_game w h) = None)" for h
    using gg gh [of h] len g rooms_ok_game(1) [OF ok a, of h] by (cases "h = g") (auto simp: live_game_def)
  have gm: "game_map ?w = (case ?o of None \<Rightarrow> game_map w | Some h \<Rightarrow> if h \<noteq> g \<and> left_game a (the_game w h) = None
      then uerase CompareInCaseEqual (game_map w) (g_name (the_game w h)) else game_map w)"
    using some by (auto simp: ls(2) Let_def split: option.split)
  show ?thesis
  proof (rule rooms_ok_move [OF ok, where a = a and n = "Some g"])
    show "c_game (the_client ?w b) = (if b = a then Some g else c_game (the_client w b))" for b by (simp add: f(2))
    show "udistinct CompareInCaseEqual (game_map ?w)"
      using maps_okD(1) [OF mo] by (simp add: gm ci.udistinct_uerase split: option.split)
    show "live_game ?w h \<and> (k, h) \<in> set (game_map w)" if kh: "(k, h) \<in> set (game_map ?w)" for k h
    proof -
      have m: "(k, h) \<in> set (game_map w)" "h \<noteq> g \<and> ?o = Some h \<and> left_game a (the_game w h) = None \<Longrightarrow>
          \<not> CompareInCaseEqual k (g_name (the_game w h))"
        using kh uerase_entryD [OF maps_okD(1) [OF mo], of k h] by (auto simp: gm split: option.splits if_splits)
      then show ?thesis using maps_okD(3) [OF mo m(1)] lg by blast
    qed
    show "members w h \<subseteq> {a} \<and> Some g \<noteq> Some h" if h: "live_game w h" "\<not> live_game ?w h" for h
    proof -
      have n: "h \<noteq> g" "?o = Some h" "left_game a (the_game w h) = None" using h lg by blast+
      have "game_ok w h" by (rule rooms_okD(4) [OF ok h(1)])
      then show ?thesis using left_game_facts(1) [of "the_game w h" a] n member [OF h(1)] by (simp add: game_ok_def)
    qed
    show "live_game w h \<and> g_name (the_game ?w h) = g_name (the_game w h) \<and> distinct (g_connlist (the_game ?w h))
        \<and> host_ok (the_game ?w h)
        \<and> set (g_connlist (the_game ?w h)) = set (g_connlist (the_game w h)) - {a} \<union> (if Some g = Some h then {a} else {})
        \<and> ufind CompareInCaseEqual (game_map ?w) (g_name (the_game w h)) = Some h" if h: "live_game ?w h" for h
    proof -
      have lh: "live_game w h" using h lg by blast
      have oh: "game_ok w h" by (rule rooms_okD(4) [OF ok lh])
      have fnd: "ufind CompareInCaseEqual (game_map ?w) (g_name (the_game w h)) = Some h"
      proof (cases ?o)
        case None
        then show ?thesis using oh by (simp add: gm game_ok_def)
      next
        case (Some g1)
        then show ?thesis
          using oh h lg [of h] game_names_differ [OF ok rooms_ok_game(1) [OF ok a Some] lh] 
            ci.ufind_uerase_other [of "g_name (the_game w g1)" "g_name (the_game w h)" "game_map w"]
          by (cases "h = g1") (auto simp: gm game_ok_def)
      qed
      show ?thesis
      proof (cases "h = g")
        case True
        then show ?thesis using y gg fnd lh by (auto simp: the_game_def)
      next
        case False
        show ?thesis
        proof (cases "?o = Some h")
          case True
          then obtain z where z: "left_game a (the_game w h) = Some z" using h lg False by auto
          have "g_name z = g_name (the_game w h) \<and> distinct (g_connlist z) \<and> set (g_connlist z) = set (g_connlist (the_game w h)) - {a} \<and> host_ok z"
            using left_game_facts(2) [OF _ _ _ z] oh member [OF lh] True by (simp add: game_ok_def)
          moreover have "the_game ?w h = z" using gh [OF False] True z by (simp add: the_game_def)
          ultimately show ?thesis using lh fnd False by simp
        next
          case nm: False
          have "the_game ?w h = the_game w h" using gh [OF False] nm by (simp add: the_game_def)
          then show ?thesis using oh lh fnd False nm member [OF lh] by (simp add: game_ok_def)
        qed
      qed
    qed
  qed (use f a g in simp_all)
qed

lemma wp_Game_Join:
  assumes ok: "rooms_ok w" and a: "live_client w a" and g: "live_game w g"
  shows "wp (Game_Join g a) (\<lambda>_ x. core x = core ((in_game g a w)\<lparr>channels := left_channels a w\<rparr>)) w"
proof -
  let ?v = "listed g a w"
  let ?u = "gone_game a ?v"
  have lt: "g < length (games w)" using g by (simp add: live_game_def)
  have v: "live_client ?v b = live_client w b" "the_client ?v b = the_client w b" "channels ?v = channels w" "users ?v = users w" for b
    by (simp_all add: listed_def)
  have gv: "live_game ?v h \<and> ufind CompareInCaseEqual (game_map ?v) (g_name (the_game ?v h)) = Some h"
    if "c_game (the_client ?v a) = Some h" for h
    using rooms_ok_game [OF ok a, of h] that lt by (auto simp: listed_def live_game_def the_game_def joined_game_def nth_list_update)
  have au: "live_client ?u a" "c_channel (the_client ?u a) = c_channel (the_client w a)" "channels ?u = channels w"
    using a v by simp_all
  have good: "good_client ?u a" using rooms_okD(1) [OF ok a] a v by (auto simp: good_client_def)
  have mem: "live_client ?u b" if "c_channel (the_client ?u a) = Some ch" "b \<in> set (ch_connset (channels ?u ! ch))" for ch b
    using rooms_okD(3) [OF ok, of ch b] rooms_okD(1) [OF ok a] that a v au by (auto simp: good_client_def)
  have c: "left_channels a ?u = left_channels a w" by (rule left_channels_cong [OF au(2,3)])
  have "wp (Game_Join g a) Q w = Q () ((gone_channel a ?u)\<lparr>clients := (clients ?u)[a := Some ((the_client ?u a)\<lparr>c_game := Some g\<rparr>)]\<rparr>)" for Q
  proof -
    have 1: "wp (upd_game g (\<lambda>x. x\<lparr>g_host := if g_connlist x = [] then Some a else g_host x, g_connlist := g_connlist x @ [a]\<rparr>)) R w
        = R () ?v" for R
      using g by (simp add: listed_def joined_game_def)
    have 2: "wp (leave_game a) R ?v = R () ?u" for R by (rule wp_leave_game [OF _ gv]) (use a v in simp_all)
    have 3: "wp (leave_channel a) R ?u = R () (gone_channel a ?u)" for R
      by (rule wp_leave_channel [OF good]) (rule mem)
    show ?thesis unfolding Game_Join_def wp_seq 1 2 3 using au(1) by simp
  qed
  moreover have "core ((gone_channel a ?u)\<lparr>clients := (clients ?u)[a := Some ((the_client ?u a)\<lparr>c_game := Some g\<rparr>)]\<rparr>)
      = core ((in_game g a w)\<lparr>channels := left_channels a w\<rparr>)"
    by (simp add: core_def gone_channel_def in_game_def Let_def c)
  ultimately show ?thesis by simp
qed

lemma rooms_ok_Game_Join:
  assumes ok: "rooms_ok w" and a: "live_client w a" and g: "live_game w g"
  shows "rooms_ok ((in_game g a w)\<lparr>channels := left_channels a w\<rparr>)"
proof -
  note f = in_game_facts [OF assms]
  have "left_channels a (in_game g a w) = left_channels a w"
    by (rule left_channels_cong) (simp_all add: f)
  moreover have "live_client (in_game g a w) a" using f(1) a by blast
  ultimately show ?thesis using rooms_ok_left_channels(1) [OF rooms_ok_in_game [OF assms], of a] by simp
qed

section \<open>Connecting, logging in and disconnecting\<close>

lemma rooms_ok_pool_sub:
  assumes ok: "rooms_ok w"
  shows "rooms_ok (w\<lparr>clientMap := uerase CompareInCaseEqual (clientMap w) n\<rparr>)"
proof (rule rooms_okI)
  let ?w = "w\<lparr>clientMap := uerase CompareInCaseEqual (clientMap w) n\<rparr>"
  show "good_client ?w a" if "live_client ?w a" for a
    using that rooms_okD(1) [OF ok, of a] by (simp add: good_client_def)
  show "game_ok ?w g" if "live_game ?w g" for g
    using that rooms_okD(4) [OF ok, of g] by (simp add: game_ok_def members_def)
  show "maps_ok ?w"
  proof (rule maps_okI)
    show "live_client ?w a \<and> c_user (the_client ?w a) \<noteq> None \<and> CompareInCaseEqual k (username_of ?w a)"
      if "(k, a) \<in> set (clientMap ?w)" for k a
      using that maps_okD(4) [OF rooms_okD(5) [OF ok], of k a] set_uerase_subset
      by (fastforce simp: username_of_def split: option.splits)
  qed (use maps_okD [OF rooms_okD(5) [OF ok]] ci.udistinct_uerase in auto)
qed (use rooms_okD(2,3) [OF ok] in auto)

lemma rooms_ok_pool_add:
  assumes ok: "rooms_ok w" and a: "live_client w a" and u: "c_user (the_client w a) = Some u"
  shows "rooms_ok (w\<lparr>clientMap := uset CompareInCaseEqual (clientMap w) (u_username (users w ! u)) a\<rparr>)"
proof (rule rooms_okI)
  let ?w = "w\<lparr>clientMap := uset CompareInCaseEqual (clientMap w) (u_username (users w ! u)) a\<rparr>"
  show "good_client ?w b" if "live_client ?w b" for b
    using that rooms_okD(1) [OF ok, of b] by (simp add: good_client_def)
  show "game_ok ?w g" if "live_game ?w g" for g
    using that rooms_okD(4) [OF ok, of g] by (simp add: game_ok_def members_def)
  show "maps_ok ?w"
  proof (rule maps_okI)
    have un: "username_of ?w b = username_of w b" for b by (simp add: username_of_def split: option.split)
    show "live_client ?w b \<and> c_user (the_client ?w b) \<noteq> None \<and> CompareInCaseEqual k (username_of ?w b)"
      if "(k, b) \<in> set (clientMap ?w)" for k b
    proof (cases "(k, b) \<in> set (clientMap w)")
      case True
      then show ?thesis using maps_okD(4) [OF rooms_okD(5) [OF ok], of k b] un by simp
    next
      case False
      then have "b = a" "k = u_username (users w ! u) \<or> CompareInCaseEqual k (u_username (users w ! u))"
        using that uset_memberD [of "(k, b)" CompareInCaseEqual "clientMap w"] by auto
      then show ?thesis using a u un by (auto simp: username_of_def ci.eq_refl)
    qed
  qed (use maps_okD [OF rooms_okD(5) [OF ok]] ci.udistinct_uset in auto)
qed (use rooms_okD(2,3) [OF ok] in auto)

text \<open>The pool's entry for a client's own name is the only one that can lead to it.\<close>

lemma pool_entry_erased:
  assumes "rooms_ok w" and "c_user (the_client w a) = Some u"
  shows "a \<notin> snd ` set (uerase CompareInCaseEqual (clientMap w) (u_username (users w ! u)))"
proof
  assume "a \<in> snd ` set (uerase CompareInCaseEqual (clientMap w) (u_username (users w ! u)))"
  then obtain k where k: "(k, a) \<in> set (uerase CompareInCaseEqual (clientMap w) (u_username (users w ! u)))" by auto
  from uerase_entryD [OF maps_okD(2) [OF rooms_okD(5) [OF assms(1)]] k]
  show False using maps_okD(4) [OF rooms_okD(5) [OF assms(1)], of k a] assms(2) by (simp add: username_of_def)
qed

definition unpooled :: "nat \<Rightarrow> world \<Rightarrow> world" where
  "unpooled a w = (case c_user (the_client w a) of None \<Rightarrow> w
     | Some u \<Rightarrow> w\<lparr>clientMap := uerase CompareInCaseEqual (clientMap w) (u_username (users w ! u))\<rparr>)"

lemma unpooled_facts [simp]:
  "users (unpooled a w) = users w" "channels (unpooled a w) = channels w" "clients (unpooled a w) = clients w"
  "games (unpooled a w) = games w" "live_client (unpooled a w) b = live_client w b" "the_client (unpooled a w) b = the_client w b"
  by (simp_all add: unpooled_def split: option.split)

lemma rooms_ok_unpooled:
  assumes "rooms_ok w" and "live_client w a"
  shows "rooms_ok (unpooled a w)" and "a \<notin> snd ` set (clientMap (unpooled a w))"
proof -
  show "rooms_ok (unpooled a w)"
    using assms(1) rooms_ok_pool_sub [OF assms(1)] by (simp add: unpooled_def split: option.split)
  show "a \<notin> snd ` set (clientMap (unpooled a w))"
  proof (cases "c_user (the_client w a)")
    case None
    then show ?thesis using maps_okD(4) [OF rooms_okD(5) [OF assms(1)], of _ a] by (auto simp: unpooled_def)
  next
    case (Some u)
    then show ?thesis using pool_entry_erased [OF assms(1) Some] by (simp add: unpooled_def)
  qed
qed

lemma wp_unpool:
  assumes ok: "rooms_ok w" and a: "live_client w a" and u: "c_user (the_client w a) = Some u"
  shows "wp (bind (user_at u) (\<lambda>v. pool_Remove (u_username v))) (\<lambda>_ x. core x = core (unpooled a w)) w"
proof -
  have ul: "u < length (users w)" using rooms_okD(1) [OF ok a] u by (simp add: good_client_def)
  show ?thesis
  proof (cases "ufind CompareInCaseEqual (clientMap w) (u_username (users w ! u))")
    case None
    then show ?thesis using ul u uerase_absent [OF None] by (simp add: pool_Remove_def unpooled_def)
  next
    case (Some b)
    then obtain k where "(k, b) \<in> set (clientMap w)" using ufind_SomeD by fast
    then have "live_client w b" using maps_okD(4) [OF rooms_okD(5) [OF ok]] by blast
    then show ?thesis using ul u Some by (simp add: pool_Remove_def unpooled_def core_def)
  qed
qed

lemma wp_pool_Add:
  assumes "live_client w a" and "c_user (the_client w a) = Some u" and "u < length (users w)"
  shows "wp (pool_Add a) Q w = Q () (w\<lparr>clientMap := uset CompareInCaseEqual (clientMap w) (u_username (users w ! u)) a\<rparr>)"
  using assms by (simp add: pool_Add_def)

lemma wp_SetUser:
  assumes ok: "rooms_ok w" and a: "live_client w a" and u: "\<And>v. u = Some v \<Longrightarrow> v < length (users w)"
  shows "wp (SetUser a u) (\<lambda>_. rooms_ok) w"
proof -
  have first: "wp (case c_user (the_client w a) of None \<Rightarrow> ret () | Some v \<Rightarrow> bind (user_at v) (\<lambda>v. pool_Remove (u_username v)))
      (\<lambda>_ x. core x = core (unpooled a w)) w"
    using wp_unpool [OF ok a] by (auto simp: unpooled_def split: option.split)
  have rest: "wp (seq (upd_client a (\<lambda>c. c\<lparr>c_user := u\<rparr>)) (if u = None then ret () else pool_Add a)) (\<lambda>_. rooms_ok) x"
    if x: "core x = core (unpooled a w)" for x
  proof -
    have okx: "rooms_ok x" by (rule rooms_ok_core [OF x rooms_ok_unpooled(1) [OF ok a]])
    have ax: "live_client x a" using core_live(1) [OF x] a by simp
    have ux: "users x = users w" "clientMap x = clientMap (unpooled a w)" using core_eqs [OF x] by simp_all
    let ?y = "x\<lparr>clients := (clients x)[a := Some ((the_client x a)\<lparr>c_user := u\<rparr>)]\<rparr>"
    have y: "rooms_ok ?y"
      by (rule rooms_ok_client [OF okx ax]) (use rooms_ok_unpooled(2) [OF ok a] ux u in auto)
    have ay: "live_client ?y a" "the_client ?y a = (the_client x a)\<lparr>c_user := u\<rparr>" using ax by simp_all
    show ?thesis
    proof (cases u)
      case None
      then show ?thesis using y ax by simp
    next
      case (Some v)
      then have "wp (pool_Add a) (\<lambda>_. rooms_ok) ?y"
        using wp_pool_Add [OF ay(1), of v] rooms_ok_pool_add [OF y ay(1), of v] ay(2) u ux(1) by simp
      then show ?thesis using Some ax by simp
    qed
  qed
  have "wp (seq (case c_user (the_client w a) of None \<Rightarrow> ret () | Some v \<Rightarrow> bind (user_at v) (\<lambda>v. pool_Remove (u_username v)))
     (seq (upd_client a (\<lambda>c. c\<lparr>c_user := u\<rparr>)) (if u = None then ret () else pool_Add a))) (\<lambda>_. rooms_ok) w"
    by (rule wp_seqI [OF first rest])
  then show ?thesis unfolding SetUser_def wp_bind [of "client_at a"] wp_client_at using a by simp
qed

lemma rooms_ok_new_client:
  assumes ok: "rooms_ok w" and c: "place c = (None, None, None)"
  shows "rooms_ok (w\<lparr>clients := clients w @ [Some c]\<rparr>)"
proof (rule rooms_okI)
  let ?w = "w\<lparr>clients := clients w @ [Some c]\<rparr>"
  note p = c [unfolded place_def prod.inject]
  have live: "live_client ?w b \<longleftrightarrow> live_client w b \<or> b = length (clients w)" for b
    by (auto simp: live_client_def nth_append)
  have cl: "the_client ?w b = (if b = length (clients w) then c else the_client w b)" if "live_client ?w b" for b
    using that by (auto simp: live_client_def the_client_def nth_append)
  have old: "live_client w b \<Longrightarrow> b \<noteq> length (clients w)" for b by (auto simp: live_client_def)
  show "good_client ?w b" if "live_client ?w b" for b
    using that cl [OF that] rooms_okD(1) [OF ok, of b] live [of b] p by (auto simp: good_client_def)
  show "live_game ?w g" if "live_client ?w b" "c_game (the_client ?w b) = Some g" for b g
    using that cl [OF that(1)] rooms_okD(2) [OF ok, of b g] live [of b] p by (auto split: if_splits)
  show "live_client ?w b \<and> c_channel (the_client ?w b) = Some ch"
    if "ch < length (channels ?w)" "b \<in> set (ch_connset (channels ?w ! ch))" for ch b
    using that rooms_okD(3) [OF ok, of ch b] cl [of b] live [of b] old [of b] by auto
  show "game_ok ?w g" if "live_game ?w g" for g
  proof -
    have "members ?w g = members w g" using live cl p old by (auto simp: members_def split: if_splits)
    then show ?thesis using that rooms_okD(4) [OF ok, of g] by (simp add: game_ok_def)
  qed
  show "maps_ok ?w"
  proof (rule maps_okI)
    show "live_client ?w b \<and> c_user (the_client ?w b) \<noteq> None \<and> CompareInCaseEqual n (username_of ?w b)"
      if "(n, b) \<in> set (clientMap ?w)" for n b
      using that maps_okD(4) [OF rooms_okD(5) [OF ok], of n b] cl [of b] live [of b] old [of b]
      by (auto simp: username_of_def split: option.splits)
  qed (use maps_okD [OF rooms_okD(5) [OF ok]] in auto)
qed

lemma wp_Client_new:
  assumes "rooms_ok w"
  shows "wp (Client_new e peer) (\<lambda>a x. rooms_ok x \<and> live_client x a) w"
proof -
  have "rooms_ok (w\<lparr>current_session := s, nrand := n, clients := clients w @ [Some (new_client e b peer t k)], tokenMap := tm\<rparr>)" for s n b t k tm
  proof (rule rooms_ok_core)
    show "rooms_ok (w\<lparr>clients := clients w @ [Some (new_client e b peer t k)]\<rparr>)"
      by (rule rooms_ok_new_client [OF assms]) (simp add: new_client_def place_def)
  qed (simp add: core_def)
  then show ?thesis
    by (simp add: Client_new_def pool_AddByToken_def live_client_def nth_append)
qed

lemma rooms_ok_drop_client:
  assumes ok: "rooms_ok w" and a: "live_client w a" and g: "c_game (the_client w a) = None"
    and ch: "\<forall>x\<in>set (channels w). a \<notin> set (ch_connset x)" and p: "a \<notin> snd ` set (clientMap w)"
  shows "rooms_ok (w\<lparr>clients := (clients w)[a := None]\<rparr>)"
proof (rule rooms_okI)
  let ?w = "w\<lparr>clients := (clients w)[a := None]\<rparr>"
  have live: "live_client ?w b \<longleftrightarrow> live_client w b \<and> b \<noteq> a" for b using a by (cases "b = a") (auto simp: live_client_def)
  have cl: "b \<noteq> a \<Longrightarrow> the_client ?w b = the_client w b" for b by (simp add: the_client_def)
  show "good_client ?w b" if "live_client ?w b" for b
    using that rooms_okD(1) [OF ok, of b] live [of b] cl [of b] by (auto simp: good_client_def)
  show "live_game ?w g" if "live_client ?w b" "c_game (the_client ?w b) = Some g" for b g
    using that rooms_okD(2) [OF ok, of b g] live [of b] cl [of b] by auto
  show "live_client ?w b \<and> c_channel (the_client ?w b) = Some c"
    if "c < length (channels ?w)" "b \<in> set (ch_connset (channels ?w ! c))" for c b
  proof -
    have "b \<noteq> a" using that ch nth_mem [of c "channels w"] by auto
    then show ?thesis using that rooms_okD(3) [OF ok, of c b] live [of b] cl [of b] by auto
  qed
  show "game_ok ?w h" if "live_game ?w h" for h
  proof -
    have "b \<in> members ?w h \<longleftrightarrow> b \<in> members w h" for b
      using live [of b] cl [of b] g by (cases "b = a") (simp_all add: members_def)
    then have "members ?w h = members w h" by blast
    then show ?thesis using that rooms_okD(4) [OF ok, of h] by (simp add: game_ok_def)
  qed
  show "maps_ok ?w"
  proof (rule maps_okI)
    show "live_client ?w b \<and> c_user (the_client ?w b) \<noteq> None \<and> CompareInCaseEqual n (username_of ?w b)"
      if nb: "(n, b) \<in> set (clientMap ?w)" for n b
    proof -
      have "b \<noteq> a" using p nb by force
      then show ?thesis using nb maps_okD(4) [OF rooms_okD(5) [OF ok], of n b] live [of b] cl [of b]
        by (auto simp: username_of_def split: option.splits)
    qed
  qed (use maps_okD [OF rooms_okD(5) [OF ok]] in auto)
qed

lemma wp_Client_delete:
  assumes ok: "rooms_ok w" and a: "live_client w a"
  shows "wp (Client_delete a) (\<lambda>_ x. rooms_ok x \<and> \<not> live_client x a) w"
proof -
  let ?v = "gone_game a w"
  let ?u = "gone_channel a ?v"
  have v: "rooms_ok ?v" "live_client ?v a" using rooms_ok_gone_game [OF ok a] a by simp_all
  have u: "rooms_ok ?u" "live_client ?u a" using rooms_ok_gone_channel [OF v] a by simp_all
  note lc = rooms_ok_left_channels [OF v]
  have fin: "rooms_ok (x\<lparr>clients := (clients x)[a := None]\<rparr>) \<and> \<not> live_client (x\<lparr>clients := (clients x)[a := None]\<rparr>) a"
    if x: "core x = core (unpooled a ?u)" for x
  proof
    have okx: "rooms_ok x" by (rule rooms_ok_core [OF x rooms_ok_unpooled(1) [OF u]])
    have ax: "live_client x a" using core_live(1) [OF x] u by simp
    have "c_game (the_client x a) = None"
      using place_fields(2) [OF core_live(2) [OF x]] u(2) a by simp
    moreover have "\<forall>y\<in>set (channels x). a \<notin> set (ch_connset y)"
      using core_eqs(1) [OF x] lc(2) by (auto simp: in_set_conv_nth [of _ "left_channels a ?v"])
    moreover have "a \<notin> snd ` set (clientMap x)" using core_eqs(5) [OF x] rooms_ok_unpooled(2) [OF u] by simp
    ultimately show "rooms_ok (x\<lparr>clients := (clients x)[a := None]\<rparr>)" by (rule rooms_ok_drop_client [OF okx ax])
    show "\<not> live_client (x\<lparr>clients := (clients x)[a := None]\<rparr>) a" by (auto simp: live_client_def)
  qed
  have pool: "wp (case c_user (the_client ?u a) of None \<Rightarrow> pool_Remove_token (c_session (the_client ?u a))
       | Some v \<Rightarrow> bind (user_at v) (\<lambda>v. pool_Remove (u_username v))) (\<lambda>_ x. core x = core (unpooled a ?u)) ?u"
    using wp_unpool [OF u] by (auto simp: pool_Remove_token_def unpooled_def split: option.split)
  have "wp (seq (case c_user (the_client ?u a) of None \<Rightarrow> pool_Remove_token (c_session (the_client ?u a))
       | Some v \<Rightarrow> bind (user_at v) (\<lambda>v. pool_Remove (u_username v))) (modify (\<lambda>w. w\<lparr>clients := (clients w)[a := None]\<rparr>)))
      (\<lambda>_ x. rooms_ok x \<and> \<not> live_client x a) ?u"
    by (rule wp_seqI [OF pool]) (simp only: wp_modify fin simp_thms)
  then show ?thesis
    unfolding Client_delete_def wp_seq [of "leave_game a"] wp_leave_game_ok [OF ok a] wp_seq [of "leave_channel a"]
      wp_leave_channel_ok [OF v] wp_bind [of "client_at a"] wp_client_at
    using u(2) by blast
qed

lemma rooms_ok_game_data:
  assumes ok: "rooms_ok w" and g: "live_game w g" and x: "g_name x = g_name (the_game w g)"
    "g_connlist x = g_connlist (the_game w g)" "g_host x = g_host (the_game w g)"
  shows "rooms_ok (w\<lparr>games := (games w)[g := Some x]\<rparr>)"
proof (rule rooms_okI)
  let ?w = "w\<lparr>games := (games w)[g := Some x]\<rparr>"
  have lg: "live_game ?w h = live_game w h" for h using g by (cases "h = g") (auto simp: live_game_def)
  have tg: "g_name (the_game ?w h) = g_name (the_game w h)" "g_connlist (the_game ?w h) = g_connlist (the_game w h)"
    "g_host (the_game ?w h) = g_host (the_game w h)" for h using x g by simp_all
  show "good_client ?w a" if "live_client ?w a" for a
    using that rooms_okD(1) [OF ok, of a] by (simp add: good_client_def)
  show "live_game ?w h" if "live_client ?w a" "c_game (the_client ?w a) = Some h" for a h
    using that rooms_okD(2) [OF ok, of a h] lg by simp
  show "game_ok ?w h" if "live_game ?w h" for h
  proof -
    have "host_ok (the_game ?w h) = host_ok (the_game w h)" using tg [of h] by (simp add: host_ok_def)
    then show ?thesis using that rooms_okD(4) [OF ok, of h] lg [of h] tg [of h] by (simp add: game_ok_def members_def)
  qed
  show "maps_ok ?w"
  proof (rule maps_okI)
    show "live_client ?w b \<and> c_user (the_client ?w b) \<noteq> None \<and> CompareInCaseEqual n (username_of ?w b)"
      if "(n, b) \<in> set (clientMap ?w)" for n b
      using that maps_okD(4) [OF rooms_okD(5) [OF ok], of n b] by (simp add: username_of_def split: option.splits)
    show "live_game ?w h \<and> CompareInCaseEqual n (g_name (the_game ?w h))" if "(n, h) \<in> set (game_map ?w)" for n h
      using that maps_okD(3) [OF rooms_okD(5) [OF ok], of n h] lg [of h] tg [of h] by simp
  qed (use maps_okD [OF rooms_okD(5) [OF ok]] in auto)
qed (use rooms_okD(3) [OF ok] in auto)

lemma rooms_ok_new_game:
  assumes ok: "rooms_ok w" and no: "ufind CompareInCaseEqual (game_map w) (g_name x) = None"
    and x: "g_connlist x = []" "g_host x = None"
  shows "rooms_ok (w\<lparr>games := games w @ [Some x], game_map := uset CompareInCaseEqual (game_map w) (g_name x) (length (games w))\<rparr>)"
proof (rule rooms_okI)
  let ?g = "length (games w)"
  let ?w = "w\<lparr>games := games w @ [Some x], game_map := uset CompareInCaseEqual (game_map w) (g_name x) ?g\<rparr>"
  have lg: "live_game ?w h \<longleftrightarrow> live_game w h \<or> h = ?g" for h by (auto simp: live_game_def nth_append)
  have tg: "the_game ?w h = (if h = ?g then x else the_game w h)" if "live_game ?w h" for h
    using that by (auto simp: live_game_def the_game_def nth_append)
  have old: "live_game w h \<Longrightarrow> h \<noteq> ?g" for h by (auto simp: live_game_def)
  have other: "\<not> CompareInCaseEqual (g_name x) (g_name (the_game w h))" if "live_game w h" for h
    using rooms_okD(4) [OF ok that] no ci.ufind_cong [of "g_name x" "g_name (the_game w h)" "game_map w"]
    by (auto simp: game_ok_def)
  show "good_client ?w a" if "live_client ?w a" for a
    using that rooms_okD(1) [OF ok, of a] by (simp add: good_client_def)
  show "live_game ?w h" if "live_client ?w a" "c_game (the_client ?w a) = Some h" for a h
    using that rooms_okD(2) [OF ok, of a h] lg by simp
  show "game_ok ?w h" if h: "live_game ?w h" for h
  proof (cases "h = ?g")
    case True
    have "members ?w ?g = {}" using rooms_okD(2) [OF ok] old by (auto simp: members_def)
    then show ?thesis using True tg [OF h] x ci.ufind_uset_same [OF ci.eq_refl] by (simp add: game_ok_def host_ok_def)
  next
    case False
    then have l: "live_game w h" using h lg by blast
    then have "game_ok w h" by (rule rooms_okD(4) [OF ok])
    moreover have "ufind CompareInCaseEqual (uset CompareInCaseEqual (game_map w) (g_name x) ?g) (g_name (the_game w h))
        = ufind CompareInCaseEqual (game_map w) (g_name (the_game w h))"
      by (rule ci.ufind_uset_other [OF other [OF l]])
    ultimately show ?thesis using False tg [OF h] by (simp add: game_ok_def members_def)
  qed
  show "maps_ok ?w"
  proof (rule maps_okI)
    show "live_client ?w b \<and> c_user (the_client ?w b) \<noteq> None \<and> CompareInCaseEqual n (username_of ?w b)"
      if "(n, b) \<in> set (clientMap ?w)" for n b
      using that maps_okD(4) [OF rooms_okD(5) [OF ok], of n b] by (simp add: username_of_def split: option.splits)
    show "live_game ?w h \<and> CompareInCaseEqual n (g_name (the_game ?w h))" if nh: "(n, h) \<in> set (game_map ?w)" for n h
    proof (cases "(n, h) \<in> set (game_map w)")
      case True
      then have l: "live_game w h \<and> CompareInCaseEqual n (g_name (the_game w h))" by (rule maps_okD(3) [OF rooms_okD(5) [OF ok]])
      then have "live_game ?w h" "h \<noteq> ?g" using lg old by blast+
      then show ?thesis using l tg by simp
    next
      case False
      then have n: "h = ?g" "n = g_name x \<or> CompareInCaseEqual n (g_name x)"
        using nh uset_memberD [of "(n, h)" CompareInCaseEqual "game_map w"] by auto
      then have "live_game ?w h" using lg by blast
      then show ?thesis using n tg [of h] by (auto simp: ci.eq_refl)
    qed
  qed (use maps_okD [OF rooms_okD(5) [OF ok]] ci.udistinct_uset in auto)
qed (use rooms_okD(3) [OF ok] in auto)

lemma wp_Games_Add:
  assumes "rooms_ok w" and "ufind CompareInCaseEqual (game_map w) name = None"
  shows "wp (Games_Add e name) (\<lambda>g x. rooms_ok x \<and> live_game x g \<and> (\<forall>b. live_client x b = live_client w b)) w"
proof -
  have "rooms_ok (w\<lparr>games := games w @ [Some (new_game e (length (games w)) name)],
      game_map := uset CompareInCaseEqual (game_map w) name (length (games w))\<rparr>)"
    using rooms_ok_new_game [OF assms(1), of "new_game e (length (games w)) name"] assms(2) by (simp add: new_game_def)
  then show ?thesis using assms(2) by (simp add: Games_Add_def live_game_def live_client_def nth_append)
qed

section \<open>Finding a channel\<close>

text \<open>The channel part of the state grows; everything else stays.\<close>

definition more_channels :: "world \<Rightarrow> world \<Rightarrow> bool" where
  "more_channels w v \<longleftrightarrow> rooms_ok v \<and> clients v = clients w \<and> length (channels w) \<le> length (channels v)"

lemma more_channels_refl: "rooms_ok w \<Longrightarrow> more_channels w w"
  by (simp add: more_channels_def)

lemma oset_entryD: "(k, v) \<in> set (oset lt m t x) \<Longrightarrow> (k, v) \<in> set m \<or> v = x"
  by (induction lt m t x rule: oset.induct) (auto split: if_splits)

lemma ofind_entry: "ofind lt m k = Some v \<Longrightarrow> \<exists>k'. (k', v) \<in> set m"
  unfolding ofind_def by (auto dest: ufind_SomeD)

lemma tag_list_ok:
  assumes "maps_ok w" and "ch \<in> set (tag_list t (game_channelmap w))"
  shows "ch < length (channels w)"
proof -
  obtain l where l: "ofind (<) (game_channelmap w) t = Some l" "ch \<in> set l"
    using assms(2) by (cases "ofind (<) (game_channelmap w) t") (auto simp: tag_list_def)
  from ofind_entry [OF l(1)] show ?thesis using maps_okD(6) [OF assms(1)] l(2) by blast
qed

lemma rooms_ok_channel_maps:
  assumes ok: "rooms_ok w" and "\<And>n ch. (n, ch) \<in> set cm \<Longrightarrow> ch < length (channels w)"
    and "\<And>t l ch. (t, l) \<in> set gm \<Longrightarrow> ch \<in> set l \<Longrightarrow> ch < length (channels w)"
  shows "rooms_ok (w\<lparr>channelmap := cm, game_channelmap := gm\<rparr>)"
proof -
  let ?w = "w\<lparr>channelmap := cm, game_channelmap := gm\<rparr>"
  have c: "live_client ?w = live_client w" "the_client ?w = the_client w" "live_game ?w = live_game w" "the_game ?w = the_game w"
    by (simp_all add: fun_eq_iff live_client_def the_client_def live_game_def the_game_def)
  have u: "username_of ?w a = username_of w a" for a by (simp add: username_of_def c split: option.split)
  show ?thesis
  proof (rule rooms_okI)
    show "good_client ?w a" if "live_client ?w a" for a
      using that rooms_okD(1) [OF ok, of a] by (simp add: c good_client_def)
    show "live_game ?w g" if "live_client ?w a" "c_game (the_client ?w a) = Some g" for a g
      using that rooms_okD(2) [OF ok, of a g] by (simp add: c)
    show "live_client ?w a \<and> c_channel (the_client ?w a) = Some ch"
      if "ch < length (channels ?w)" "a \<in> set (ch_connset (channels ?w ! ch))" for ch a
      using that rooms_okD(3) [OF ok, of ch a] by (simp add: c)
    show "game_ok ?w g" if "live_game ?w g" for g
      using that rooms_okD(4) [OF ok, of g] by (simp add: c game_ok_def members_def)
    show "maps_ok ?w"
    proof (rule maps_okI)
      show "live_game ?w h \<and> CompareInCaseEqual n (g_name (the_game ?w h))" if "(n, h) \<in> set (game_map ?w)" for n h
        using that maps_okD(3) [OF rooms_okD(5) [OF ok], of n h] by (simp add: c)
      show "live_client ?w b \<and> c_user (the_client ?w b) \<noteq> None \<and> CompareInCaseEqual n (username_of ?w b)"
        if "(n, b) \<in> set (clientMap ?w)" for n b
        using that maps_okD(4) [OF rooms_okD(5) [OF ok], of n b] by (simp add: c u)
    qed (use maps_okD(1,2,7) [OF rooms_okD(5) [OF ok]] assms(2,3) in simp_all)
  qed
qed

lemma wp_Channels_find [simp]: "wp (Channels_find n) Q w = Q (ufind CompareInCaseEqual (channelmap w) n) w"
  by (simp add: Channels_find_def)

lemma channelmap_ok: "rooms_ok w \<Longrightarrow> ufind CompareInCaseEqual (channelmap w) n = Some a \<Longrightarrow> a < length (channels w)"
  using maps_okD(5) [OF rooms_okD(5)] by (auto dest!: ufind_SomeD)

lemma wp_Channels_Add_new:
  assumes ok: "rooms_ok w" and x: "ch_connset x = []" "NUL \<notin> set (ch_name x)"
  shows "wp (Channels_Add_new x) (\<lambda>a v. more_channels w v \<and> a < length (channels v)) w"
proof -
  let ?a = "length (channels w)" and ?v = "w\<lparr>channels := channels w @ [x]\<rparr>"
  have v: "rooms_ok ?v"
    by (rule rooms_ok_channels [OF ok]) (use x rooms_okD(3) [OF ok] maps_okD(7) [OF rooms_okD(5) [OF ok]] in \<open>auto simp: nth_append split: if_splits\<close>)
  note mo = rooms_okD(5) [OF v]
  let ?gm = "oset (<) (game_channelmap w) (ch_gameid x) (tag_list (ch_gameid x) (game_channelmap w) @ [?a])"
  have gm: "ch < Suc ?a" if "(t, l) \<in> set ?gm" "ch \<in> set l" for t l ch
    using oset_entryD [OF that(1)] that(2) maps_okD(6) [OF mo, of t l ch] tag_list_ok [OF mo, of ch "ch_gameid x"] by auto
  have maps: "rooms_ok (?v\<lparr>channelmap := cm, game_channelmap := ?gm\<rparr>)" if "\<And>n ch. (n, ch) \<in> set cm \<Longrightarrow> ch < Suc ?a" for cm
    by (rule rooms_ok_channel_maps [OF v]) (use that gm in auto)
  have 1: "ch < Suc ?a" if "(n, ch) \<in> set (uset CompareInCaseEqual (channelmap w) k ?a)" for n k ch
    using uset_entryD [OF that] maps_okD(5) [OF mo, of n ch] by auto
  have 2: "ch < Suc ?a" if "(n, ch) \<in> set (uset CompareInCaseEqual (uset CompareInCaseEqual (channelmap w) k ?a) k' ?a)" for n k k' ch
    using uset_entryD [OF that] 1 [of n ch k] by auto
  show ?thesis
    using maps [OF 1] maps [OF 2]
    by (simp add: Channels_Add_new_def new_channel_def Channels_Add_def more_channels_def)
qed

text \<open>The names that the loop tries are all different, so one of them is free before the fuel is used up.\<close>

lemma numbered_inject:
  assumes "NUL \<notin> set p" and "CompareInCaseEqual (fmt_append p i) (fmt_append p j)"
  shows "i = j"
proof -
  have nn: "NUL \<notin> set (dec_int k)" for k using dec_int_chars [of NUL k] by (auto simp: is_digit_def NUL_def)
  have low: "map tolower (dec_int k) = dec_int k" for k
  proof (rule map_idI)
    fix c assume "c \<in> set (dec_int k)"
    then show "tolower c = c" using dec_int_chars [of c k] by (auto simp: tolower_def is_digit_def)
  qed
  have "c_str (fmt_append p k) = fmt_append p k" for k using assms(1) nn [of k] by (intro c_str_id) (simp add: fmt_append_def)
  then have "map tolower (fmt_append p i) = map tolower (fmt_append p j)"
    using assms(2) by (simp add: CompareInCaseEqual_iff fold_case_def)
  then show ?thesis using low by (simp add: fmt_append_def dec_int_inject)
qed

definition tried :: "string \<Rightarrow> int \<Rightarrow> (string \<times> nat) list \<Rightarrow> (string \<times> nat) list" where
  "tried p idx m = filter (\<lambda>q. \<exists>j\<ge>idx. CompareInCaseEqual (fst q) (fmt_append p j)) m"

lemma tried_less:
  assumes "NUL \<notin> set p" and "ufind CompareInCaseEqual m (fmt_append p idx) = Some a"
  shows "length (tried p (idx + 1) m) < length (tried p idx m)"
proof -
  obtain k where k: "(k, a) \<in> set m" "CompareInCaseEqual k (fmt_append p idx)" using ufind_SomeD [OF assms(2)] by blast
  have no: "\<not> (\<exists>j\<ge>idx + 1. CompareInCaseEqual (fst (k, a)) (fmt_append p j))"
    unfolding fst_conv
  proof
    assume "\<exists>j\<ge>idx + 1. CompareInCaseEqual k (fmt_append p j)"
    then obtain j where j: "j \<ge> idx + 1" "CompareInCaseEqual k (fmt_append p j)" by blast
    have "CompareInCaseEqual (fmt_append p idx) (fmt_append p j)" using ci.eq_trans [OF ci.eq_sym [OF k(2)] j(2)] .
    then have "idx = j" by (rule numbered_inject [OF assms(1)])
    then show False using j(1) by simp
  qed
  have eq: "tried p (idx + 1) m = filter (\<lambda>q. \<exists>j\<ge>idx + 1. CompareInCaseEqual (fst q) (fmt_append p j)) (tried p idx m)"
  proof -
    have "\<exists>j\<ge>idx. CompareInCaseEqual y (fmt_append p j)" if "\<exists>j\<ge>idx + 1. CompareInCaseEqual y (fmt_append p j)" for y
    proof -
      obtain j where "j \<ge> idx + 1" "CompareInCaseEqual y (fmt_append p j)" using \<open>\<exists>j\<ge>idx + 1. _ j\<close> by blast
      then show ?thesis by (intro exI [of _ j]) simp
    qed
    then show ?thesis unfolding tried_def filter_filter by (intro filter_cong) blast+
  qed
  have "(k, a) \<in> set (tried p idx m)" using k by (auto simp: tried_def)
  then show ?thesis unfolding eq by (rule length_filter_less) (rule no)
qed

lemma wp_ensure_index:
  assumes ok: "rooms_ok w" and p: "NUL \<notin> set newname" and n: "length (tried (newname @ ''-'') idx (channelmap w)) < n"
  shows "wp (ensure_index n r newname idx) (\<lambda>q v. more_channels w v \<and> (\<exists>a. q = Some a \<and> a < length (channels v))) w"
  using n
proof (induction n arbitrary: idx)
  case 0
  then show ?case by simp
next
  case (Suc n)
  let ?nm = "fmt_append (newname @ ''-'') idx"
  show ?case
  proof (cases "ufind CompareInCaseEqual (channelmap w) ?nm")
    case None
    have "wp (Channels_Add_new (Spawn ?nm r)) (\<lambda>a v. more_channels w v \<and> a < length (channels v)) w"
      by (rule wp_Channels_Add_new [OF ok])
        (use p dec_int_chars [of NUL idx] in \<open>auto simp: Spawn_def ChannelCacheItem_def fmt_append_def is_digit_def NUL_def\<close>)
    then show ?thesis using None by (simp add: Let_def)
  next
    case (Some a)
    have "NUL \<notin> set (newname @ ''-'')" using p by (simp add: NUL_def)
    from tried_less [OF this Some] have "length (tried (newname @ ''-'') (idx + 1) (channelmap w)) < n" using Suc.prems by simp
    from Suc.IH [OF this] show ?thesis
      using Some channelmap_ok [OF ok Some] more_channels_refl [OF ok] by (simp add: Let_def)
  qed
qed

lemma tried_length: "length (tried p idx m) \<le> length m"
  by (simp add: tried_def)

lemma wp_Ensure:
  assumes ok: "rooms_ok w" and n: "NUL \<notin> set name" and c: "NUL \<notin> set country"
  shows "wp (Ensure name tag country) (\<lambda>q v. more_channels w v \<and> (\<forall>a. q = Some a \<longrightarrow> a < length (channels v))) w"
proof -
  have add: "wp (bind (Channels_Add_new x) (\<lambda>a. ret (Some a))) (\<lambda>q v. more_channels w v \<and> (\<forall>a. q = Some a \<longrightarrow> a < length (channels v))) w"
    if "ch_connset x = []" "NUL \<notin> set (ch_name x)" for x
    using wp_Channels_Add_new [OF ok that] by simp
  have mem: "NUL \<notin> set (ch_name (channels w ! ch))" if "ch < length (channels w)" for ch
    using maps_okD(7) [OF rooms_okD(5) [OF ok]] that by simp
  show ?thesis
  proof (cases "ufind CompareInCaseEqual (channelmap w) name")
    case None
    then show ?thesis using add [of "ChannelCacheItem name name tag 0 100 False False"] n by (simp add: Ensure_def ChannelCacheItem_def)
  next
    case (Some res)
    let ?r = "channels w ! res"
    have res: "res < length (channels w)" by (rule channelmap_ok [OF ok Some])
    define nn where "nn = (if ch_byCountry ?r then ch_name ?r @ '' '' @ country else [])"
    have nu: "NUL \<notin> set (if nn = [] then ch_name ?r else nn)" using mem [OF res] c by (auto simp: nn_def NUL_def)
    consider "ch_byIndex ?r" | "\<not> ch_byIndex ?r" "nn \<noteq> []" | "\<not> ch_byIndex ?r" "nn = []" by blast
    then show ?thesis
    proof cases
      case 1
      have "length (tried ((if nn = [] then ch_name ?r else nn) @ ''-'') 1 (channelmap w)) < Suc (length (channelmap w))"
        using tried_length by (simp add: less_Suc_eq_le)
      from wp_ensure_index [OF ok nu this, of ?r]
      have "wp (ensure_index (Suc (length (channelmap w))) ?r (if nn = [] then ch_name ?r else nn) 1)
          (\<lambda>q v. more_channels w v \<and> (\<forall>a. q = Some a \<longrightarrow> a < length (channels v))) w"
        by (rule wp_mono) auto
      then have "wp (if ch_byIndex ?r then bind (gets channelmap) (\<lambda>m. ensure_index (Suc (length m)) ?r (if nn = [] then ch_name ?r else nn) 1) else K)
          (\<lambda>q v. more_channels w v \<and> (\<forall>a. q = Some a \<longrightarrow> a < length (channels v))) w" for K
        using 1 by (simp del: ensure_index.simps)
      then show ?thesis using Some res unfolding Ensure_def wp_bind [of "Channels_find _"] wp_Channels_find
        by (simp only: option.case wp_bind [of "channel_at _"] wp_channel_at Let_def nn_def [symmetric] simp_thms)
    next
      case 2
      then show ?thesis using Some res add [of "Spawn nn ?r"] nu channelmap_ok [OF ok, of nn] more_channels_refl [OF ok]
        by (cases "ufind CompareInCaseEqual (channelmap w) nn") (auto simp: Ensure_def Let_def nn_def Spawn_def ChannelCacheItem_def split: if_splits)
    next
      case 3
      then show ?thesis using Some res more_channels_refl [OF ok] by (simp add: Ensure_def Let_def nn_def split: if_splits)
    qed
  qed
qed

section \<open>Everything together\<close>

text \<open>
  What clients can make the server do with rooms: connecting, getting an account, joining a channel,
  hosting, joining and leaving a game, leaving the chat, talking, whispering and disconnecting, the
  way the request handlers call the operations. A request of a client that is gone does nothing.
\<close>

datatype room_op = Connect "u32 option" | Login nat nat | JoinCh nat string u32 string | HostGame nat string
  | JoinGame nat string | QuitGame nat | QuitChat nat | Say nat string | Tell nat string string | Disconnect nat

definition room_do :: "env \<Rightarrow> room_op \<Rightarrow> unit M" where
  "room_do e r = bind (gets id) (\<lambda>w. case r of
       Connect peer \<Rightarrow> bind (Client_new e peer) (\<lambda>_. ret ())
     | Login a u \<Rightarrow> whenM (live_client w a \<and> u < length (users w)) (SetUser a (Some u))
     | JoinCh a name tag country \<Rightarrow> whenM (live_client w a) (bind (Ensure (c_str name) tag (c_str country)) (\<lambda>p.
         case p of Some ch \<Rightarrow> Channel_Join ch a
         | None \<Rightarrow> bind (Message_Send (Some a) None MT_Info ''The channel is full.'') (\<lambda>_. ret ())))
     | HostGame a name \<Rightarrow> whenM (live_client w a) (bind (Games_find name) (\<lambda>p.
         case p of Some g \<Rightarrow> ret () | None \<Rightarrow> bind (Games_Add e name) (\<lambda>g. Game_Join g a)))
     | JoinGame a name \<Rightarrow> whenM (live_client w a) (bind (Games_find name) (\<lambda>p.
         case p of Some g \<Rightarrow> Game_Join g a | None \<Rightarrow> ret ()))
     | QuitGame a \<Rightarrow> whenM (live_client w a) (leave_game a)
     | QuitChat a \<Rightarrow> whenM (live_client w a) (leave_channel a)
     | Say a msg \<Rightarrow> whenM (live_client w a) (bind (client_at a) (\<lambda>c.
         case c_channel c of None \<Rightarrow> ret () | Some ch \<Rightarrow> Talk ch a msg))
     | Tell a name msg \<Rightarrow> whenM (live_client w a) (bind (SendWhisper name (Some a) msg True) (\<lambda>_. ret ()))
     | Disconnect a \<Rightarrow> whenM (live_client w a) (Client_delete a))"

lemma rooms_ok_pool_good: "rooms_ok w \<Longrightarrow> pool_good w"
  using maps_okD(4) [OF rooms_okD(5)] rooms_okD(1) unfolding pool_good_def by fastforce

lemma game_map_live: "rooms_ok w \<Longrightarrow> ufind CompareInCaseEqual (game_map w) n = Some g \<Longrightarrow> live_game w g"
  using maps_okD(3) [OF rooms_okD(5)] by (auto dest!: ufind_SomeD)

lemma wp_Games_find [simp]: "wp (Games_find n) Q w = Q (ufind CompareInCaseEqual (game_map w) n) w"
  by (simp add: Games_find_def)

lemma Channel_Join_ok: "rooms_ok w \<Longrightarrow> live_client w a \<Longrightarrow> ch < length (channels w) \<Longrightarrow> wp (Channel_Join ch a) (\<lambda>_. rooms_ok) w"
  by (rule wp_mono [OF wp_Channel_Join]) (auto intro: rooms_ok_core rooms_ok_in_channel)

lemma Game_Join_ok: "rooms_ok w \<Longrightarrow> live_client w a \<Longrightarrow> live_game w g \<Longrightarrow> wp (Game_Join g a) (\<lambda>_. rooms_ok) w"
  by (rule wp_mono [OF wp_Game_Join]) (auto intro: rooms_ok_core rooms_ok_Game_Join)

lemma core_ok: "rooms_ok w \<Longrightarrow> wp m (\<lambda>_ v. core v = core w) w \<Longrightarrow> wp (bind m (\<lambda>_. ret ())) (\<lambda>_. rooms_ok) w"
  unfolding wp_bind wp_ret_eta by (auto elim!: wp_mono intro: rooms_ok_core)

lemma Talk_ok:
  assumes "rooms_ok w" and "live_client w a" and "ch < length (channels w)"
  shows "wp (Talk ch a msg) (\<lambda>_. rooms_ok) w"
proof -
  have "wp (Message_SendSet (ch_connset (channels w ! ch)) (Some a) MT_Talk msg True) (\<lambda>_ v. core v = core w) w"
    by (rule wp_sendset_ok [OF assms(1)]) (use rooms_okD(3) [OF assms(1,3)] assms(2) in auto)
  from core_ok [OF assms(1) this] show ?thesis using assms(3) by (simp add: Talk_def)
qed

lemma room_do_ok:
  assumes ok: "rooms_ok w"
  shows "wp (room_do e r) (\<lambda>_. rooms_ok) w"
proof (cases r)
  case (Connect peer)
  then show ?thesis using wp_mono [OF wp_Client_new [OF ok, of e peer]] by (simp add: room_do_def)
next
  case (Login a u)
  then show ?thesis using wp_SetUser [OF ok, of a "Some u"] ok by (simp add: room_do_def)
next
  case (JoinCh a name tag country)
  have "wp (bind (Ensure (c_str name) tag (c_str country)) (\<lambda>p. case p of Some ch \<Rightarrow> Channel_Join ch a
       | None \<Rightarrow> bind (Message_Send (Some a) None MT_Info ''The channel is full.'') (\<lambda>_. ret ()))) (\<lambda>_. rooms_ok) w"
    if a: "live_client w a"
  proof (rule wp_bindI [OF wp_Ensure [OF ok NUL_notin_c_str NUL_notin_c_str]])
    fix p v assume v: "more_channels w v \<and> (\<forall>ch. p = Some ch \<longrightarrow> ch < length (channels v))"
    then have av: "rooms_ok v" "live_client v a" using a by (auto simp: more_channels_def live_client_def)
    show "wp (case p of Some ch \<Rightarrow> Channel_Join ch a
       | None \<Rightarrow> bind (Message_Send (Some a) None MT_Info ''The channel is full.'') (\<lambda>_. ret ())) (\<lambda>_. rooms_ok) v"
    proof (cases p)
      case None
      have "wp (Message_Send (Some a) None MT_Info ''The channel is full.'') (\<lambda>_ x. core x = core v) v"
        by (rule wp_send_ok [OF av(1)]) (use av(2) in auto)
      from core_ok [OF av(1) this] show ?thesis using None by simp
    next
      case (Some ch)
      then show ?thesis using Channel_Join_ok [OF av] v by simp
    qed
  qed
  then show ?thesis using JoinCh ok by (simp add: room_do_def)
next
  case (HostGame a name)
  have "wp (bind (Games_Add e name) (\<lambda>g. Game_Join g a)) (\<lambda>_. rooms_ok) w"
    if "live_client w a" "ufind CompareInCaseEqual (game_map w) name = None"
    by (rule wp_bindI [OF wp_Games_Add [OF ok that(2)]]) (use Game_Join_ok that(1) in blast)
  then show ?thesis using HostGame ok by (auto simp: room_do_def split: option.split)
next
  case (JoinGame a name)
  then show ?thesis using Game_Join_ok [OF ok] game_map_live [OF ok] ok by (auto simp: room_do_def split: option.split)
next
  case (QuitGame a)
  then show ?thesis using ok wp_leave_game_ok [OF ok, of a] rooms_ok_gone_game [OF ok, of a] by (simp add: room_do_def)
next
  case (QuitChat a)
  then show ?thesis using ok wp_leave_channel_ok [OF ok, of a] rooms_ok_gone_channel [OF ok, of a] by (simp add: room_do_def)
next
  case (Say a msg)
  then show ?thesis using ok Talk_ok [OF ok] rooms_okD(1) [OF ok, of a] by (auto simp: room_do_def good_client_def split: option.split)
next
  case (Tell a name msg)
  then show ?thesis using ok core_ok [OF ok wp_SendWhisper_core [OF rooms_ok_pool_good [OF ok]]] rooms_okD(1) [OF ok, of a]
    by (simp add: room_do_def)
next
  case (Disconnect a)
  then show ?thesis using ok wp_mono [OF wp_Client_delete [OF ok, of a]] by (simp add: room_do_def)
qed

interpretation rm: safe_ops rooms_ok "room_do e" for e
  by unfold_locales (rule room_do_ok)

text \<open>
  C12. Whatever clients do, in any order, from a server that has just started with any accounts: no
  operation follows a NULL pointer or a pointer to a client or game that is gone, and afterwards
  every channel and game lists exactly live clients that point back to it, every game's host is one
  of its players, and the client pool leads only to connected clients of that name.
\<close>

theorem rooms_safe: "\<exists>w. forM ops (room_do e) (world0\<lparr>users := us\<rparr>) = Inr ((), w) \<and> rooms_ok w"
  by (rule rm.run_result) (simp add: rooms_ok_def maps_ok_def world0_def live_client_def live_game_def)

text \<open>
  C25. Joining a channel puts the client into that channel and takes it out of every other channel
  and of its game; nobody else moves.
\<close>

theorem Channel_Join_moves:
  assumes ok: "rooms_ok w" and a: "live_client w a" and ch: "ch < length (channels w)"
  shows "\<exists>w'. Channel_Join ch a w = Inr ((), w') \<and> rooms_ok w' \<and> a \<in> set (ch_connset (channels w' ! ch))
     \<and> c_channel (the_client w' a) = Some ch \<and> c_game (the_client w' a) = None
     \<and> (\<forall>c<length (channels w'). c \<noteq> ch \<longrightarrow> a \<notin> set (ch_connset (channels w' ! c)))
     \<and> (\<forall>b. b \<noteq> a \<and> live_client w b \<longrightarrow> live_client w' b \<and> place (the_client w' b) = place (the_client w b))"
proof -
  let ?v = "in_channel ch a w"
  obtain w' where w': "Channel_Join ch a w = Inr ((), w')" and c: "core w' = core ?v"
    using wp_Channel_Join [OF assms] by (auto simp: wp_run)
  have ok': "rooms_ok w'" by (rule rooms_ok_core [OF c rooms_ok_in_channel [OF assms]])
  let ?u = "gone_channel a (gone_game a w)"
  have u: "live_client ?u a" "ch < length (channels ?u)"
    using a ch rooms_ok_left_channels(3) [OF rooms_ok_gone_game [OF ok a]] by simp_all
  have v: "live_client ?v b = live_client w b"
    "the_client ?v b = (if b = a then (the_client w a)\<lparr>c_game := None, c_channel := Some ch\<rparr> else the_client w b)"
    "a \<in> set (ch_connset (channels ?v ! ch))" for b
    using u a by (simp_all add: in_channel_def)
  have pl: "live_client w' b = live_client w b" "live_client w b \<Longrightarrow> place (the_client w' b) = place (the_client ?v b)" for b
    using core_live [OF c, of b] v(1) by simp_all
  have "a \<notin> set (ch_connset (channels w' ! d))" if "d < length (channels w')" "d \<noteq> ch" for d
    using rooms_okD(3) [OF ok' that(1), of a] that(2) pl(2) [OF a] v(2) [of a] by (auto simp: place_def)
  moreover have "c_channel (the_client w' a) = Some ch" "c_game (the_client w' a) = None"
    using pl(2) [OF a] v(2) [of a] by (simp_all add: place_def)
  moreover have "live_client w' b \<and> place (the_client w' b) = place (the_client w b)" if "b \<noteq> a" "live_client w b" for b
    using that pl [of b] v(2) [of b] by simp
  ultimately show ?thesis using w' ok' v(3) core_eqs(1) [OF c] by auto
qed

definition lobby :: world where
  "lobby = world0\<lparr>users := [(UserCacheItem env0 0 ''ann'')\<lparr>u_id := 1\<rparr>, (UserCacheItem env0 1 ''bob'')\<lparr>u_id := 2\<rparr>],
     clients := [Some ((new_client env0 0 None 1 10)\<lparr>c_user := Some 0, c_channel := Some 0\<rparr>),
                 Some ((new_client env0 1 None 2 20)\<lparr>c_user := Some 1, c_channel := Some 0\<rparr>)],
     clientMap := [(''ann'', 0), (''bob'', 1)], tokenMap := [(10, 0), (20, 1)],
     channels := [(ChannelCacheItem ''chat'' ''chat'' 0 1 100 False False)\<lparr>ch_connset := [0, 1]\<rparr>,
                  ChannelCacheItem ''news'' ''news'' 0 1 100 False False],
     channelmap := [(''chat'', 0), (''news'', 1)]\<rparr>"

lemma lobby_live: "live_client lobby a \<longleftrightarrow> a = 0 \<or> a = Suc 0" "live_game lobby g \<longleftrightarrow> False"
  by (auto simp: lobby_def live_client_def live_game_def world0_def less_Suc_eq)

lemma lobby_facts:
  "c_user (the_client lobby 0) = Some 0" "c_user (the_client lobby (Suc 0)) = Some (Suc 0)"
  "c_game (the_client lobby 0) = None" "c_game (the_client lobby (Suc 0)) = None"
  "c_channel (the_client lobby 0) = Some 0" "c_channel (the_client lobby (Suc 0)) = Some 0"
  "length (users lobby) = 2" "length (channels lobby) = 2" "ch_connset (channels lobby ! 0) = [0, Suc 0]"
  "ch_connset (channels lobby ! Suc 0) = []"
  by (simp_all add: lobby_def the_client_def new_client_def ChannelCacheItem_def)

lemma lobby_ok: "rooms_ok lobby"
proof -
  have "maps_ok lobby"
    by (simp add: maps_ok_def lobby_live username_of_def)
      (simp add: lobby_def world0_def the_client_def new_client_def UserCacheItem_def ChannelCacheItem_def
        CompareInCaseEqual_def generic_strcmpia_def c_str_def NUL_def tolower_def char_of_def bit_0)
  then show ?thesis
    by (intro rooms_okI) (auto simp: lobby_live lobby_facts good_client_def less_2_cases_iff)
qed

theorem Channel_Join_moves_witness:
  "\<exists>w'. Channel_Join 1 0 lobby = Inr ((), w') \<and> rooms_ok w' \<and> 0 \<in> set (ch_connset (channels w' ! 1))
     \<and> c_channel (the_client w' 0) = Some 1 \<and> c_game (the_client w' 0) = None
     \<and> (\<forall>c<length (channels w'). c \<noteq> 1 \<longrightarrow> 0 \<notin> set (ch_connset (channels w' ! c)))
     \<and> (\<forall>b. b \<noteq> 0 \<and> live_client lobby b \<longrightarrow> live_client w' b \<and> place (the_client w' b) = place (the_client lobby b))"
  by (rule Channel_Join_moves [OF lobby_ok]) (simp_all add: lobby_live lobby_facts)

text \<open>
  C26. Talking reaches every other member of the client's channel, in one packet each, and nobody
  outside it.
\<close>

theorem talk_delivered:
  assumes ok: "rooms_ok w" and a: "live_client w a" and ch: "c_channel (the_client w a) = Some ch"
  shows "Talk ch a msg w = Inr ((), w\<lparr>sent := sent w @
     map (\<lambda>b. (b, message_packet w (Some a) MT_Talk msg)) (filter (\<lambda>b. b \<noteq> a) (ch_connset (channels w ! ch)))\<rparr>)"
proof -
  have g: "good_client w a" by (rule rooms_okD(1) [OF ok a])
  then have c: "ch < length (channels w)" using ch by (simp add: good_client_def)
  have "wp (Message_SendSet (ch_connset (channels w ! ch)) (Some a) MT_Talk msg True) Q w =
      Q True (w\<lparr>sent := sent w @ map (\<lambda>b. (b, message_packet w (Some a) MT_Talk msg))
        (filter (\<lambda>b. \<not> (True \<and> Some b = Some a)) (ch_connset (channels w ! ch)))\<rparr>)" for Q
    by (rule wp_Message_SendSet) (use rooms_okD(3) [OF ok c] g in auto)
  then have "wp (Talk ch a msg) (\<lambda>_ v. v = w\<lparr>sent := sent w @
     map (\<lambda>b. (b, message_packet w (Some a) MT_Talk msg)) (filter (\<lambda>b. b \<noteq> a) (ch_connset (channels w ! ch)))\<rparr>) w"
    using c by (simp add: Talk_def)
  then show ?thesis by (auto simp: wp_run)
qed

theorem talk_delivered_witness:
  "Talk 0 0 ''hi'' lobby = Inr ((), lobby\<lparr>sent := sent lobby @ [(1, message_packet lobby (Some 0) MT_Talk ''hi'')]\<rparr>)"
  using talk_delivered [OF lobby_ok, of 0 0 "''hi''"] by (simp add: lobby_live lobby_facts)

text \<open>
  C28. Looking for a channel always ends: the search for a numbered channel with a free place stops
  at the latest when every channel of the map was tried, and the channel found exists.
\<close>

theorem Ensure_terminates:
  assumes "rooms_ok w" and "NUL \<notin> set name" and "NUL \<notin> set country"
  shows "\<exists>p v. Ensure name tag country w = Inr (p, v) \<and> rooms_ok v \<and> clients v = clients w
     \<and> (\<forall>ch. p = Some ch \<longrightarrow> ch < length (channels v))"
  using wp_Ensure [OF assms, of tag] by (auto simp: wp_run more_channels_def)

theorem Ensure_terminates_witness:
  "\<exists>p v. Ensure ''chat'' 0 ''US'' lobby = Inr (p, v) \<and> rooms_ok v \<and> clients v = clients lobby
     \<and> (\<forall>ch. p = Some ch \<longrightarrow> ch < length (channels v))"
  by (rule Ensure_terminates [OF lobby_ok]) (simp_all add: NUL_def)

section \<open>Defects\<close>

text \<open>
  A channel that is opened by number takes over the name of the channel it was opened for: the
  next client that asks for the name is sent to the numbered channel, and refused once that is
  full; no second numbered channel is ever opened.
\<close>

theorem spawned_takes_name:
  assumes "ufind CompareInCaseEqual (channelmap w) name = Some r" and "r < length (channels w)"
    and "ch_byIndex (channels w ! r)" and "\<not> ch_byCountry (channels w ! r)"
    and "CompareInCaseEqual (ch_short (channels w ! r)) name"
    and "ufind CompareInCaseEqual (channelmap w) (ch_name (channels w ! r) @ ''-1'') = None"
    and "\<not> CompareInCaseEqual (ch_name (channels w ! r) @ ''-1'') name"
  shows "\<exists>v. Ensure name tag country w = Inr (Some (length (channels w)), v)
     \<and> ufind CompareInCaseEqual (channelmap v) name = Some (length (channels w))
     \<and> (\<forall>x. channelmap x = channelmap v \<and> map (\<lambda>c. c\<lparr>ch_connset := []\<rparr>) (channels x) = map (\<lambda>c. c\<lparr>ch_connset := []\<rparr>) (channels v)
          \<and> word_of_nat (length (ch_connset (channels x ! length (channels w)))) \<ge> ch_maxUser (channels w ! r)
          \<longrightarrow> Ensure name tag country x = Inr (None, x))"
proof -
  let ?r = "channels w ! r" and ?a = "length (channels w)"
  let ?nm = "ch_name ?r @ ''-1''"
  let ?s = "Spawn ?nm ?r"
  have fm: "fmt_append (ch_name ?r @ ''-'') 1 = ?nm" by (simp add: fmt_append_def dec_int_def dec_12)
  let ?cm = "if generic_strcmpia (c_str (ch_short ?r)) (c_str ?nm) \<noteq> 0
      then uset CompareInCaseEqual (uset CompareInCaseEqual (channelmap w) (ch_short ?r) ?a) ?nm ?a
      else uset CompareInCaseEqual (channelmap w) (ch_short ?r) ?a"
  let ?v = "w\<lparr>channels := channels w @ [?s], channelmap := ?cm,
      game_channelmap := oset (<) (game_channelmap w) (ch_gameid ?r) (tag_list (ch_gameid ?r) (game_channelmap w) @ [?a])\<rparr>"
  have run: "wp (Ensure name tag country) (\<lambda>p v. p = Some ?a \<and> v = ?v) w"
    using assms(1-4,6) fm
    by (simp add: Ensure_def Let_def Channels_Add_new_def new_channel_def Channels_Add_def Spawn_def ChannelCacheItem_def)
  have f: "ufind CompareInCaseEqual ?cm name = Some ?a"
    by (simp add: ci.ufind_uset_same [OF assms(5)] ci.ufind_uset_other [OF assms(7)])
  have "Ensure name tag country x = Inr (None, x)"
    if x: "channelmap x = ?cm" "map (\<lambda>c. c\<lparr>ch_connset := []\<rparr>) (channels x) = map (\<lambda>c. c\<lparr>ch_connset := []\<rparr>) (channels ?v)"
      "word_of_nat (length (ch_connset (channels x ! ?a))) \<ge> ch_maxUser ?r" for x
  proof -
    have l: "length (channels x) = Suc ?a" using arg_cong [OF x(2), of length] by simp
    then have "(channels x ! ?a)\<lparr>ch_connset := []\<rparr> = ?s\<lparr>ch_connset := []\<rparr>"
      using arg_cong [OF x(2), of "\<lambda>l. l ! ?a"] by (simp add: nth_append)
    then have c: "\<not> ch_byIndex (channels x ! ?a)" "\<not> ch_byCountry (channels x ! ?a)" "ch_maxUser (channels x ! ?a) = ch_maxUser ?r"
      by (cases "channels x ! ?a"; simp add: Spawn_def ChannelCacheItem_def)+
    have "wp (Ensure name tag country) (\<lambda>p u. p = None \<and> u = x) x"
      using x(1,3) f l c by (simp add: Ensure_def Let_def)
    then show ?thesis by (auto simp: wp_run)
  qed
  then show ?thesis using run f by (auto simp: wp_run)
qed

definition numbered :: world where
  "numbered = world0\<lparr>channels := [ChannelCacheItem ''w3'' ''w3'' 0 1 1 False True], channelmap := [(''w3'', 0)]\<rparr>"

theorem spawned_takes_name_witness:
  "\<exists>v. Ensure ''w3'' 0 [] numbered = Inr (Some 1, v) \<and> ufind CompareInCaseEqual (channelmap v) ''w3'' = Some 1"
proof -
  have r: "channels numbered ! 0 = ChannelCacheItem ''w3'' ''w3'' 0 1 1 False True" "length (channels numbered) = 1"
    "channelmap numbered = [(''w3'', 0)]" by (simp_all add: numbered_def)
  show ?thesis
    using spawned_takes_name [of numbered "''w3''" 0 0 "[]"] unfolding r
    by (auto simp: ChannelCacheItem_def CompareInCaseEqual_def generic_strcmpia_def c_str_def NUL_def tolower_def char_of_def bit_0)
qed

text \<open>
  Leaving the chat does not clear the client's channel: it is no longer a member, but what it
  says afterwards is still delivered to everybody who is.
\<close>

theorem left_still_talks:
  assumes ok: "rooms_ok w" and a: "live_client w a" and ch: "c_channel (the_client w a) = Some ch"
  shows "\<exists>v. leave_channel a w = Inr ((), v) \<and> a \<notin> set (ch_connset (channels v ! ch)) \<and> c_channel (the_client v a) = Some ch
     \<and> Talk ch a msg v = Inr ((), v\<lparr>sent := sent v @ map (\<lambda>b. (b, message_packet v (Some a) MT_Talk msg)) (ch_connset (channels v ! ch))\<rparr>)"
proof -
  let ?v = "gone_channel a w"
  have v: "rooms_ok ?v" "live_client ?v a" "c_channel (the_client ?v a) = Some ch"
    using rooms_ok_gone_channel [OF ok a] a ch by simp_all
  have l: "ch < length (channels w)" using rooms_okD(1) [OF ok a] ch by (simp add: good_client_def)
  then have n: "a \<notin> set (ch_connset (channels ?v ! ch))" using rooms_ok_left_channels(2,3) [OF ok a] by simp
  have g: "good_client ?v a" by (rule rooms_okD(1) [OF v(1,2)])
  have "wp (Message_SendSet (ch_connset (channels ?v ! ch)) (Some a) MT_Talk msg True) Q ?v =
      Q True (?v\<lparr>sent := sent ?v @ map (\<lambda>b. (b, message_packet ?v (Some a) MT_Talk msg))
        (filter (\<lambda>b. \<not> (True \<and> Some b = Some a)) (ch_connset (channels ?v ! ch)))\<rparr>)" for Q
    by (rule wp_Message_SendSet) (use rooms_okD(3) [OF v(1)] l rooms_ok_left_channels(3) [OF ok a] g in auto)
  moreover have "filter (\<lambda>b. \<not> (True \<and> Some b = Some a)) (ch_connset (channels ?v ! ch)) = ch_connset (channels ?v ! ch)"
    by (rule filter_True) (use n in auto)
  ultimately have "wp (Talk ch a msg) (\<lambda>_ x. x = ?v\<lparr>sent := sent ?v @ map (\<lambda>b. (b, message_packet ?v (Some a) MT_Talk msg)) (ch_connset (channels ?v ! ch))\<rparr>) ?v"
    unfolding Talk_def wp_bind wp_channel_at using l rooms_ok_left_channels(3) [OF ok a] by simp
  moreover have "wp (leave_channel a) (\<lambda>_ x. x = ?v) w" by (simp add: wp_leave_channel_ok [OF ok a])
  ultimately show ?thesis using n v(3) by (auto simp: wp_run)
qed

theorem left_still_talks_witness:
  "\<exists>v. leave_channel 0 lobby = Inr ((), v) \<and> 0 \<notin> set (ch_connset (channels v ! 0)) \<and> c_channel (the_client v 0) = Some 0
     \<and> Talk 0 0 ''psst'' v = Inr ((), v\<lparr>sent := sent v @ map (\<lambda>b. (b, message_packet v (Some 0) MT_Talk ''psst'')) (ch_connset (channels v ! 0))\<rparr>)"
  by (rule left_still_talks [OF lobby_ok]) (simp_all add: lobby_live lobby_facts)

lemma gone_tokens [simp]:
  assumes "live_client w a"
  shows "tokenMap (gone_channel a (gone_game a w)) = tokenMap w"
  by (auto simp: gone_channel_def gone_game_def split: option.split)

text \<open>What deleting a client leaves of the token table.\<close>

lemma wp_Client_delete_tokens:
  assumes ok: "rooms_ok w" and a: "live_client w a"
  shows "c_user (the_client w a) = None \<Longrightarrow>
      wp (Client_delete a) (\<lambda>_ v. tokenMap v = uerase (=) (tokenMap w) (c_session (the_client w a))) w"
    and "c_user (the_client w a) = Some u \<Longrightarrow> ufind CompareInCaseEqual (clientMap w) (u_username (users w ! u)) = Some a \<Longrightarrow>
      wp (Client_delete a) (\<lambda>_ v. tokenMap v = uerase (=) (tokenMap w) (c_token (the_client w a))) w"
proof -
  have v: "rooms_ok (gone_game a w)" "live_client (gone_game a w) a" using rooms_ok_gone_game [OF ok a] a by simp_all
  have l: "live_client (gone_channel a (gone_game a w)) a" using a by simp
  note steps = wp_seq [of "leave_game a"] wp_leave_game_ok [OF ok a] wp_seq [of "leave_channel a"] wp_leave_channel_ok [OF v]
    wp_bind [of "client_at a"] wp_client_at
  show "wp (Client_delete a) (\<lambda>_ v. tokenMap v = uerase (=) (tokenMap w) (c_session (the_client w a))) w"
    if "c_user (the_client w a) = None"
    unfolding Client_delete_def steps using that l a by (simp add: pool_Remove_token_def)
  show "wp (Client_delete a) (\<lambda>_ v. tokenMap v = uerase (=) (tokenMap w) (c_token (the_client w a))) w"
    if "c_user (the_client w a) = Some u" "ufind CompareInCaseEqual (clientMap w) (u_username (users w ! u)) = Some a"
    unfolding Client_delete_def steps using that l a rooms_okD(1) [OF ok a] by (simp add: pool_Remove_def good_client_def)
qed

text \<open>
  C29. A client that is found in the pool by its token is deleted without a fault, and afterwards its object is gone. If it was logged in,
  and found in the pool by the name of its account, its token is free. If it had no account, it is removed under its
  session number, under which it was never entered: unless token and session number happen to be equal, a later
  look-up of its token still returns the pointer to the deleted object.
\<close>

theorem stale_token:
  assumes "rooms_ok w" and "live_client w a" and "udistinct (=) (tokenMap w)"
    and "ufind (=) (tokenMap w) (c_token (the_client w a)) = Some a"
  shows "\<exists>v. Client_delete a w = Inr ((), v) \<and> client_at a v = Inl Dangling
     \<and> (c_user (the_client w a) = None \<and> c_session (the_client w a) \<noteq> c_token (the_client w a)
         \<longrightarrow> pool_by_token (c_token (the_client w a)) v = Inr (Some a, v))
     \<and> (\<forall>u. c_user (the_client w a) = Some u \<and> ufind CompareInCaseEqual (clientMap w) (u_username (users w ! u)) = Some a
         \<longrightarrow> pool_by_token (c_token (the_client w a)) v = Inr (None, v))"
proof -
  obtain v where v: "Client_delete a w = Inr ((), v)" "\<not> live_client v a"
    using wp_Client_delete [OF assms(1,2)] by (auto simp: wp_run)
  have "client_at a v = Inl Dangling" using v(2) by (auto simp: client_at_def live_client_def split: option.split)
  moreover have "ufind (=) (tokenMap v) (c_token (the_client w a)) = Some a"
    if "c_user (the_client w a) = None" "c_session (the_client w a) \<noteq> c_token (the_client w a)"
    using wp_Client_delete_tokens(1) [OF assms(1,2) that(1)] v(1) assms(4)
    by (simp add: wp_run keq.ufind_uerase_other [OF that(2)])
  moreover have "ufind (=) (tokenMap v) (c_token (the_client w a)) = None"
    if "c_user (the_client w a) = Some u" "ufind CompareInCaseEqual (clientMap w) (u_username (users w ! u)) = Some a" for u
    using wp_Client_delete_tokens(2) [OF assms(1,2) that] v(1)
    by (simp add: wp_run keq.ufind_uerase_same [OF assms(3) refl])
  ultimately show ?thesis using v(1) by (auto simp: pool_by_token_def gets_def)
qed

text \<open>A server with one connection, of session 1 and token 7, that has not logged in.\<close>

definition one_token :: world where
  "one_token = world0\<lparr>clients := [Some (new_client env0 0 None 1 7)], tokenMap := [(7, 0)]\<rparr>"

theorem stale_token_witness:
  "\<exists>v. Client_delete 0 one_token = Inr ((), v) \<and> client_at 0 v = Inl Dangling \<and> pool_by_token 7 v = Inr (Some 0, v)"
proof -
  have c: "the_client one_token 0 = new_client env0 0 None 1 7" and l: "live_client one_token 0"
    by (simp_all add: one_token_def the_client_def live_client_def)
  have "rooms_ok world0" by (simp add: rooms_ok_def maps_ok_def world0_def live_client_def live_game_def)
  then have "rooms_ok (world0\<lparr>clients := clients world0 @ [Some (new_client env0 0 None 1 7)]\<rparr>)"
    by (rule rooms_ok_new_client) (simp add: new_client_def place_def)
  then have "rooms_ok one_token" by (rule rooms_ok_core [rotated]) (simp add: one_token_def core_def world0_def)
  from stale_token [OF this l] show ?thesis unfolding c by (auto simp: one_token_def new_client_def)
qed

end
