(* ===== verification/Caches.thy ===== *)
theory Caches
  imports Rooms
begin

text \<open>
  The small caches of src/blitzd/cache that are filled at start: the message of the day and the
  news (NewsCache.cpp), the realms (RealmCache.cpp) and the files sent to clients (FileCache.cpp),
  with the time stamps of src/common/utils/Timestamp.cpp that the file cache hands out.
\<close>

section \<open>Time stamps\<close>

text \<open>
  A time stamp counts microseconds in a 64 bit integer; signed and unsigned sums are the same
  bits. \<open>tdiv\<close> is the division of C, which rounds towards zero.
\<close>

definition tdiv :: "int \<Rightarrow> int \<Rightarrow> int" where
  "tdiv a b = sgn a * sgn b * (\<bar>a\<bar> div \<bar>b\<bar>)"

definition fromEpochTime :: "u64 \<Rightarrow> u64" where
  "fromEpochTime t = t * 1000000"

definition epochTime :: "u64 \<Rightarrow> u64" where
  "epochTime ts = word_of_int (tdiv (sint ts) 1000000)"

definition utcTime :: "u64 \<Rightarrow> u64" where
  "utcTime ts = ts * 10 + push_bit 32 0x01b21dd2 + 0x13814000"

definition fromUtcTime :: "u64 \<Rightarrow> u64" where
  "fromUtcTime val = word_of_int (tdiv (sint (val - (push_bit 32 0x01b21dd2 + 0x13814000))) 10)"

definition fileTime :: "u64 \<Rightarrow> u64" where
  "fileTime ts = ts * 10 + 0x019DB1DE + 0xD53E8000"

definition fromFileTime :: "u64 \<Rightarrow> u64" where
  "fromFileTime ft = (ft - 0x019DB1DE - 0xD53E8000) div 10"

section \<open>Files\<close>

text \<open>
  What the file system knows of a file is \<open>disk\<close>: its contents and its modification time in
  seconds. A file of 4 GiB or more is read up to its size modulo \<open>2 ^ 32\<close>.
\<close>

definition FileCacheItem :: "bytes \<Rightarrow> u64 \<Rightarrow> file_item" where
  "FileCacheItem d ft = \<lparr>f_data = take (unat (word_of_nat (length d) :: u32)) d, f_ft = ft\<rparr>"

definition FileLoad :: "env \<Rightarrow> string \<Rightarrow> file_item option" where
  "FileLoad e n =
     (case disk e (c_str n) of None \<Rightarrow> None
      | Some (d, mtime) \<Rightarrow> Some (FileCacheItem d (fileTime (fromEpochTime mtime))))"

definition GetSize :: "file_item \<Rightarrow> u32" where
  "GetSize f = word_of_nat (length (f_data f))"

definition FetchFile :: "env \<Rightarrow> string \<Rightarrow> string \<Rightarrow> file_item option M" where
  "FetchFile e dir fn =
     (case FileLoad e (dir @ ''/'' @ fn) of
        None \<Rightarrow> ret None
      | Some f \<Rightarrow> seq (modify (\<lambda>w. w\<lparr>file_map := uset (=) (file_map w) fn f\<rparr>)) (ret (Some f)))"

definition fileCache :: "env \<Rightarrow> string \<Rightarrow> string \<Rightarrow> file_item option M" where
  "fileCache e dir fn =
     bind (gets (\<lambda>w. ufind (=) (file_map w) fn)) (\<lambda>r.
     case r of None \<Rightarrow> FetchFile e dir fn | Some f \<Rightarrow> ret (Some f))"

section \<open>Realms\<close>

text \<open>\<^verbatim>\<open>std::map<std::string, ...>\<close> keeps its keys in byte order.\<close>

definition str_less :: "string \<Rightarrow> string \<Rightarrow> bool" where
  "str_less a b \<longleftrightarrow> ord_class.lexordp (map of_char a :: nat list) (map of_char b)"

definition Realm_Add :: "string \<Rightarrow> string \<Rightarrow> u16 \<Rightarrow> u32 \<Rightarrow> realm_item option M" where
  "Realm_Add name desc port ip =
     bind (gets (\<lambda>w. ofind str_less (realmMap w) name)) (\<lambda>r.
     case r of Some _ \<Rightarrow> ret None
     | None \<Rightarrow> let item = \<lparr>r_name = name, r_desc = desc, r_port = port, r_ip = ip\<rparr> in
         seq (modify (\<lambda>w. w\<lparr>realmMap := oset str_less (realmMap w) name item\<rparr>)) (ret (Some item)))"

definition realmCache :: "string \<Rightarrow> realm_item option M" where
  "realmCache name = gets (\<lambda>w. ofind str_less (realmMap w) name)"

definition Realm_BuildPacket :: "(string \<times> realm_item) list \<Rightarrow> bytes" where
  "Realm_BuildPacket m = le32 (word_of_nat (length m))
     @ concat (map (\<lambda>(_, r). le32 1 @ str_bytes (r_name r) @ str_bytes (r_desc r)) m)"

section \<open>News\<close>

text \<open>Both calls of \<^verbatim>\<open>Add\<close>; \<open>news\<close> is the map from time to text, in ascending order.\<close>

definition News_Add :: "u32 \<Rightarrow> string \<Rightarrow> (u32 \<times> string) list \<Rightarrow> (u32 \<times> string) list" where
  "News_Add t n news = oset (<) news t n"

text \<open>
  \<^verbatim>\<open>sscanf\<close> with the format \<^verbatim>\<open>%d-%d-%d %d:%d:%d\<close> into six integers that hold \<open>old\<close>: a conversion
  skips white space and takes an optional sign and digits; the first mismatch ends the scan.
\<close>

definition is_space :: "char \<Rightarrow> bool" where
  "is_space c \<longleftrightarrow> c = CHR '' '' \<or> 9 \<le> (of_char c :: nat) \<and> (of_char c :: nat) \<le> 13"

definition scan_int :: "string \<Rightarrow> (int \<times> string) option" where
  "scan_int s =
     (let t = dropWhile is_space s;
          neg = (t \<noteq> [] \<and> hd t = CHR ''-'');
          u = (if t \<noteq> [] \<and> (hd t = CHR ''-'' \<or> hd t = CHR ''+'') then tl t else t);
          d = takeWhile is_digit u
      in if d = [] then None
         else Some (if neg then - int (read_nat d) else int (read_nat d), drop (length d) u))"

fun scan_fields :: "char list \<Rightarrow> string \<Rightarrow> int list \<Rightarrow> int list" where
  "scan_fields seps s [] = []"
| "scan_fields seps s (v # vs) =
     (case scan_int s of None \<Rightarrow> v # vs
      | Some (n, t) \<Rightarrow> n # (case seps of [] \<Rightarrow> vs
          | c # cs \<Rightarrow> if is_space c then scan_fields cs (dropWhile is_space t) vs
                      else if t \<noteq> [] \<and> hd t = c then scan_fields cs (tl t) vs else vs))"

text \<open>
  \<^verbatim>\<open>Add\<close> with a date: \<open>mktime\<close> is the C library's conversion of local time (year since 1900, month
  from 0, day, hour, minute, second).
\<close>

definition News_Add_date ::
  "(int list \<Rightarrow> u32) \<Rightarrow> env \<Rightarrow> string \<Rightarrow> string \<Rightarrow> (u32 \<times> string) list \<Rightarrow> (u32 \<times> string) list" where
  "News_Add_date mktime e t n news =
     (case scan_fields ''-- ::'' (c_str t) (map (\<lambda>i. sint (of_le32 (take 4 (drop (4 * i) (fresh e ''tm'' 24))))) [0..<6]) of
        y # mo # r \<Rightarrow> News_Add (mktime ((y - 1900) # (mo - 1) # r)) n news
      | _ \<Rightarrow> news)"

text \<open>
  \<^verbatim>\<open>Load\<close> walks over the text with an index; here each loop returns the rest of the text from its
  index on. \<open>to_mark c\<close> is the loop that stops at two characters \<open>c\<close> in a row, or at the last
  character of the text.
\<close>

fun to_mark :: "char \<Rightarrow> string \<Rightarrow> string" where
  "to_mark c (a # b # s) = (if a = c \<and> b = c then a # b # s else to_mark c (b # s))"
| "to_mark c s = s"

definition newline :: "char \<Rightarrow> bool" where
  "newline c \<longleftrightarrow> c = CHR 0x0D \<or> c = CHR 0x0A"

definition trim_end :: "string \<Rightarrow> string" where
  "trim_end s = rev (dropWhile newline (rev s))"

lemma length_to_mark: "length (to_mark c s) \<le> length s"
  by (induction c s rule: to_mark.induct) auto

text \<open>The loop over the items, from behind an opening mark: the dates and texts in order.\<close>

function news_items :: "string \<Rightarrow> (string \<times> string) list" where
  "news_items s =
     (if length s < 2 then []
      else let s1 = to_mark (CHR ''}'') s in
      if length s1 < 2 then []
      else let date = take (length s - length s1) s; s2 = dropWhile newline (drop 2 s1) in
      if s2 = [] then []
      else let s3 = to_mark (CHR ''{'') s2; item = (date, trim_end (take (length s2 - length s3) s2)) in
      if length s3 < 2 then [item] else item # news_items (drop 2 s3))"
  by pat_completeness auto
termination
proof (relation "measure length"; clarsimp)
  fix s :: string
  let ?s1 = "to_mark (CHR ''}'') s"
  assume *: "\<not> length s < 2" "\<not> length ?s1 < 2"
  have "length (to_mark (CHR ''{'') (dropWhile newline (drop 2 ?s1))) \<le> length (dropWhile newline (drop 2 ?s1))"
    by (rule length_to_mark)
  also have "\<dots> \<le> length (drop 2 ?s1)" by (rule length_dropWhile_le)
  finally show "length (to_mark (CHR ''{'') (dropWhile newline (drop 2 ?s1))) - 2 < length s"
    using * length_to_mark [of "CHR ''}''" s] by simp
qed

declare news_items.simps [simp del]

definition news_list :: "string \<Rightarrow> (string \<times> string) list" where
  "news_list content =
     (let s = to_mark (CHR ''{'') content in news_items (if length s < 2 then s else drop 2 s))"

text \<open>A file that cannot be opened is read through a null file handle.\<close>

definition file_text :: "env \<Rightarrow> string \<Rightarrow> string M" where
  "file_text e n = (case disk e (c_str n) of None \<Rightarrow> fail NullDeref
     | Some (d, _) \<Rightarrow> ret (map char_of_byte (take (unat (word_of_nat (length d) :: u32)) d)))"

definition News_Load :: "(int list \<Rightarrow> u32) \<Rightarrow> env \<Rightarrow> string \<Rightarrow> string \<Rightarrow> unit M" where
  "News_Load mktime e motdfile newsfile =
     bind (file_text e motdfile) (\<lambda>m. seq (modify (\<lambda>w. w\<lparr>motd := m\<rparr>))
     (bind (file_text e newsfile) (\<lambda>content.
      modify (\<lambda>w. w\<lparr>newsmap := fold (\<lambda>(d, n). News_Add_date mktime e d n) (news_list content) (newsmap w)\<rparr>))))"

definition OldestTime :: "(u32 \<times> string) list \<Rightarrow> u32" where
  "OldestTime news = (case news of [] \<Rightarrow> 0 | p # _ \<Rightarrow> fst p)"

definition NewestTime :: "(u32 \<times> string) list \<Rightarrow> u32" where
  "NewestTime news = (if news = [] then 0 else fst (last news))"

fun collect_news :: "(u32 \<times> string) list \<Rightarrow> u8 \<Rightarrow> (u32 \<times> string) list \<Rightarrow> u8 \<times> (u32 \<times> string) list" where
  "collect_news [] c result = (c, result)"
| "collect_news (p # ps) c result =
     (let result = News_Add (fst p) (snd p) result; c = c + 1
      in if c = 250 then (c, result) else collect_news ps c result)"

definition upper_bound :: "u32 \<Rightarrow> (u32 \<times> string) list \<Rightarrow> (u32 \<times> string) list" where
  "upper_bound t news = dropWhile (\<lambda>p. fst p \<le> t) news"

definition GetAfter :: "u32 \<Rightarrow> (u32 \<times> string) list \<Rightarrow> (u32 \<times> string) list \<Rightarrow> u8 \<times> (u32 \<times> string) list" where
  "GetAfter t news result =
     (case upper_bound t news of [] \<Rightarrow> (0, result) | _ # it \<Rightarrow> collect_news it 0 result)"

section \<open>Reading the news file\<close>

lemma to_mark_here: "to_mark c (c # c # s) = c # c # s"
  by simp

lemma to_mark_skip: "c \<notin> set d \<Longrightarrow> to_mark c (d @ c # c # s) = c # c # s"
proof (induction d)
  case Nil
  then show ?case by simp
next
  case (Cons a d)
  then show ?case by (cases d) auto
qed

lemma to_mark_none: "c \<notin> set s \<Longrightarrow> s \<noteq> [] \<Longrightarrow> to_mark c s = [last s]"
  by (induction c s rule: to_mark.induct) auto

lemma trim_end_newline: "newline c \<Longrightarrow> trim_end (s @ [c]) = trim_end s"
  by (simp add: trim_end_def)

lemma trim_end_id: "s = [] \<or> \<not> newline (last s) \<Longrightarrow> trim_end s = s"
  by (cases s rule: rev_cases) (auto simp: trim_end_def)

text \<open>An item as a news file holds it, and when an item can be written so.\<close>

definition news_entry :: "string \<times> string \<Rightarrow> string" where
  "news_entry p = ''{{'' @ fst p @ ''}}'' @ [CHR 0x0A] @ snd p @ [CHR 0x0A]"

definition plain_news :: "string \<times> string \<Rightarrow> bool" where
  "plain_news p \<longleftrightarrow> CHR ''}'' \<notin> set (fst p) \<and> CHR ''{'' \<notin> set (snd p) \<and> snd p \<noteq> []
     \<and> \<not> newline (hd (snd p)) \<and> \<not> newline (last (snd p))"

lemma newline_LF [simp]: "newline (CHR 0x0A)"
  by (simp add: newline_def)

lemma dropWhile_newlines: "b \<noteq> [] \<Longrightarrow> \<not> newline (hd b) \<Longrightarrow> dropWhile newline (CHR 0x0A # b @ s) = b @ s"
  by (cases b) auto

lemma news_items_entry:
  assumes "plain_news (d, b)" and "to_mark (CHR ''{'') (b @ CHR 0x0A # t) = s3"
    and "take (length (b @ CHR 0x0A # t) - length s3) (b @ CHR 0x0A # t) = b @ nl" and "nl = [] \<or> nl = [CHR 0x0A]"
  shows "news_items (d @ ''}}'' @ CHR 0x0A # b @ CHR 0x0A # t) =
    (d, b) # (if length s3 < 2 then [] else news_items (drop 2 s3))"
proof -
  let ?s2 = "b @ CHR 0x0A # t" and ?s1 = "''}}'' @ CHR 0x0A # b @ CHR 0x0A # t"
  have b: "b \<noteq> []" "\<not> newline (hd b)" "\<not> newline (last b)" and d: "CHR ''}'' \<notin> set d"
    using assms(1) by (simp_all add: plain_news_def)
  have s1: "to_mark (CHR ''}'') (d @ ?s1) = ?s1" using to_mark_skip [OF d] by simp
  have s2: "dropWhile newline (drop 2 ?s1) = ?s2" using dropWhile_newlines [OF b(1,2)] by simp
  have i: "trim_end (take (length ?s2 - length s3) ?s2) = b"
    using assms(3,4) b by (auto simp: trim_end_newline trim_end_id)
  have *: "news_items (d @ ?s1) = (let s3 = to_mark (CHR ''{'') ?s2;
      item = (take (length (d @ ?s1) - length ?s1) (d @ ?s1), trim_end (take (length ?s2 - length s3) ?s2))
      in if length s3 < 2 then [item] else item # news_items (drop 2 s3))"
    by (subst news_items.simps) (simp only: s1 s2 Let_def, simp)
  show ?thesis unfolding * assms(2) Let_def i by simp
qed

lemma news_items_round_trip:
  assumes "\<forall>p\<in>set (p # ps). plain_news p"
  shows "news_items (drop 2 (concat (map news_entry (p # ps)))) = p # ps"
  using assms
proof (induction ps arbitrary: p)
  case Nil
  obtain d b where p: "p = (d, b)" by (cases p)
  have "CHR ''{'' \<notin> set (b @ [CHR 0x0A])" using Nil by (simp add: p plain_news_def)
  then have "to_mark (CHR ''{'') (b @ CHR 0x0A # []) = [CHR 0x0A]" using to_mark_none by fastforce
  from news_items_entry [OF _ this, of d "[]"] Nil show ?case by (simp add: p news_entry_def)
next
  case (Cons q qs)
  obtain d b where p: "p = (d, b)" by (cases p)
  let ?t = "concat (map news_entry (q # qs))"
  have t: "?t = CHR ''{'' # CHR ''{'' # drop 2 ?t" by (simp add: news_entry_def)
  have "CHR ''{'' \<notin> set (b @ [CHR 0x0A])" using Cons.prems by (simp add: p plain_news_def)
  from to_mark_skip [OF this, of "drop 2 ?t"] have "to_mark (CHR ''{'') (b @ CHR 0x0A # ?t) = ?t" using t by simp
  from news_items_entry [OF _ this, of d "[CHR 0x0A]"] Cons.prems
  have "news_items (d @ ''}}'' @ CHR 0x0A # b @ CHR 0x0A # ?t) = (d, b) # (if length ?t < 2 then [] else news_items (drop 2 ?t))"
    by (simp add: p del: list.map concat.simps)
  moreover have "\<not> length ?t < 2" using t by (metis length_Cons less_Suc_eq not_less_eq numeral_2_eq_2 zero_less_Suc)
  moreover have "news_items (drop 2 ?t) = q # qs" using Cons by simp
  moreover have "drop 2 (concat (map news_entry (p # q # qs))) = d @ ''}}'' @ CHR 0x0A # b @ CHR 0x0A # ?t"
    by (simp add: p news_entry_def)
  ultimately show ?case by (simp only: if_False p)
qed

text \<open>
  C31. A news file of dated items in double braces is read back as exactly these items, in order.
\<close>

theorem news_round_trip:
  assumes "\<forall>p\<in>set items. plain_news p"
  shows "news_list (concat (map news_entry items)) = items"
proof (cases items)
  case Nil
  then show ?thesis by (simp add: news_list_def news_items.simps)
next
  case (Cons p ps)
  then have "to_mark (CHR ''{'') (concat (map news_entry items)) = concat (map news_entry items)"
    and "\<not> length (concat (map news_entry items)) < 2" by (simp_all add: news_entry_def)
  then show ?thesis using news_items_round_trip [of p ps] assms Cons by (simp add: news_list_def Let_def)
qed

theorem news_round_trip_witness:
  "news_list (concat (map news_entry [(''2009-04-01 10:00:00'', ''Welcome''), (''2009-05-02 11:30:00'', ''New maps'')]))
   = [(''2009-04-01 10:00:00'', ''Welcome''), (''2009-05-02 11:30:00'', ''New maps'')]"
  by (rule news_round_trip) (simp add: plain_news_def newline_def)

text \<open>
  The walk over the text never steps behind its last character: without a newline at its end the
  file loses the last character of its last item.
\<close>

lemma last_character_lost:
  assumes "CHR ''}'' \<notin> set d" and "CHR ''{'' \<notin> set b" and "b \<noteq> []" and "\<not> newline (hd b)"
  shows "news_list (''{{'' @ d @ ''}}'' @ b) = [(d, trim_end (butlast b))]"
proof -
  have s1: "to_mark (CHR ''}'') (d @ ''}}'' @ b) = ''}}'' @ b" using to_mark_skip [OF assms(1)] by simp
  have s2: "dropWhile newline (drop 2 (''}}'' @ b)) = b" using assms(3,4) by (cases b) auto
  have s3: "to_mark (CHR ''{'') b = [last b]" by (rule to_mark_none [OF assms(2,3)])
  have "news_items (d @ ''}}'' @ b) = [(d, trim_end (take (length b - 1) b))]"
    by (subst news_items.simps) (simp only: s1 s2 s3 Let_def, simp add: assms(3))
  then show ?thesis by (simp add: news_list_def Let_def butlast_conv_take)
qed

section \<open>Selecting news\<close>

lemma unat_250: "unat (250 :: u8) = 250"
  by simp

lemma oset_append: "(\<forall>p\<in>set r. fst p < k) \<Longrightarrow> oset (<) r (k :: u32) v = r @ [(k, v)]"
  by (induction r) (auto simp: not_less_iff_gr_or_eq)

lemma collect_news_eq:
  "osorted (<) (r @ ps) \<Longrightarrow> unat c < 250 \<Longrightarrow>
   collect_news ps c r = (c + word_of_nat (min (250 - unat c) (length ps)), r @ take (250 - unat c) ps)"
proof (induction ps arbitrary: c r)
  case Nil
  then show ?case by simp
next
  case (Cons p ps)
  have "\<forall>q\<in>set r. fst q < fst p" using Cons.prems(1) by (auto simp: osorted_def sorted_wrt_append)
  then have a: "News_Add (fst p) (snd p) r = r @ [p]" unfolding News_Add_def by (simp add: oset_append)
  have u: "unat (c + 1) = Suc (unat c)" using Cons.prems(2) by (simp add: unat_word_ariths)
  have e: "c + 1 = 250 \<longleftrightarrow> unat c = 249" unfolding word_unat_eq_iff u unat_250 by simp
  show ?case
  proof (cases "unat c = 249")
    case True
    then show ?thesis using e by (simp add: a Let_def)
  next
    case False
    then have lt: "unat (c + 1) < 250" using u Cons.prems(2) by linarith
    have "osorted (<) ((r @ [p]) @ ps)" using Cons.prems(1) by simp
    from Cons.IH [OF this lt] have "collect_news ps (c + 1) (r @ [p]) =
      (c + 1 + word_of_nat (min (250 - Suc (unat c)) (length ps)), (r @ [p]) @ take (250 - Suc (unat c)) ps)"
      unfolding u .
    moreover obtain k where "250 - unat c = Suc k" "250 - Suc (unat c) = k" using Cons.prems(2) by (metis Suc_diff_Suc)
    ultimately show ?thesis using False e by (simp add: a Let_def)
  qed
qed

lemma upper_bound_filter: "osorted (<) news \<Longrightarrow> upper_bound t news = filter (\<lambda>p. t < fst p) news"
proof (induction news)
  case Nil
  then show ?case by (simp add: upper_bound_def)
next
  case (Cons p ps)
  have "filter (\<lambda>q. t < fst q) ps = ps" if "t < fst p"
    using Cons.prems that by (auto simp: osorted_def filter_id_conv)
  then show ?case using Cons by (auto simp: upper_bound_def osorted_def not_le)
qed

text \<open>
  A client that asks for the news after a time gets the items that are newer, in order and at
  most 250 of them, but never the first of them: an item that is the only newer one is not sent.
\<close>

theorem GetAfter_skips_first:
  assumes "osorted (<) news"
  shows "GetAfter t news [] =
    (word_of_nat (min 250 (length (filter (\<lambda>p. t < fst p) news) - 1)), take 250 (tl (filter (\<lambda>p. t < fst p) news)))"
proof -
  let ?f = "filter (\<lambda>p. t < fst p) news"
  have "osorted (<) ?f" using assms unfolding osorted_def by (rule sorted_wrt_filter)
  then have "osorted (<) ([] @ tl ?f)" by (cases ?f) (simp_all add: osorted_def)
  from collect_news_eq [OF this, of 0] show ?thesis
    by (cases ?f) (simp_all add: GetAfter_def upper_bound_filter [OF assms])
qed

theorem GetAfter_skips_first_witness:
  "GetAfter 15 [(10, ''a''), (20, ''b'')] [] = (0, []) \<and> GetAfter 5 [(10, ''a''), (20, ''b'')] [] = (1, [(20, ''b'')])"
  using GetAfter_skips_first [of "[(10, ''a''), (20, ''b'')]" 15] GetAfter_skips_first [of "[(10, ''a''), (20, ''b'')]" 5]
  by (simp add: osorted_def)

section \<open>Time stamps of files\<close>

lemma file_time_round_trip: "10 * unat ts + 0xD6DC31DE < 2 ^ 64 \<Longrightarrow> fromFileTime (fileTime ts) = ts"
proof -
  assume *: "10 * unat ts + 0xD6DC31DE < 2 ^ 64"
  have "fileTime ts - 0x019DB1DE - 0xD53E8000 = ts * 10" by (simp add: fileTime_def)
  then have "fromFileTime (fileTime ts) = ts * 10 div 10" by (simp only: fromFileTime_def)
  moreover have "unat (ts * 10 div 10) = unat ts"
    using * by (simp add: unat_div unat_word_ariths mult.commute)
  ultimately show ?thesis by (simp add: word_unat_eq_iff)
qed

text \<open>
  The epoch of Unix in file time is \<open>0x019DB1DED53E8000\<close>; the two halves of that number are added
  instead of being put together, so every file time sent to a client is short by the same amount.
\<close>

lemma file_time_short: "fileTime ts + 0x019DB1DDFE624E22 = ts * 10 + 0x019DB1DED53E8000"
  by (simp add: fileTime_def)

section \<open>The file cache\<close>

text \<open>A look-up changes nothing but the file cache, and returns what it returned before.\<close>

lemma wp_fileCache:
  assumes "\<And>m. Q (if ufind (=) (file_map w) fn = None then FileLoad e (dir @ ''/'' @ fn) else ufind (=) (file_map w) fn)
    (w\<lparr>file_map := m\<rparr>)"
  shows "wp (fileCache e dir fn) Q w"
proof -
  have *: "w\<lparr>file_map := file_map w\<rparr> = w" by simp
  show ?thesis
    using assms [of "file_map w"] assms
    by (cases "ufind (=) (file_map w) fn") (auto simp: fileCache_def FetchFile_def * split: option.split)
qed

end
