(* ===== verification/CheckRev.thy ===== *)
theory CheckRev
  imports Caches
begin

text \<open>
  \<^verbatim>\<open>Cache::CheckRevision\<close> (src/blitzd/cache/CheckRevision.cpp): the server draws a formula, computes
  with it a checksum of the game's program files, and compares what a client computed. \<open>Calculate\<close>
  is an interpreter of formulas: four registers A, B, C and S, and up to four assignments that are
  run for every 32 bit word of the files.
\<close>

section \<open>The formula\<close>

text \<open>An assignment: target, first operand, operator, second operand.\<close>

record assign =
  opTarg :: u32
  opVal1 :: u32
  opType :: char
  opVal2 :: u32

definition char_int :: "char \<Rightarrow> int" where
  "char_int c = sint (byte_of c)"

definition reg_index :: "char \<Rightarrow> int" where
  "reg_index c = (if c = CHR ''S'' then 3 else char_int c - 65)"

text \<open>
  \<^verbatim>\<open>strtoul\<close> of the C library, cut to 32 bits: white space, a sign, in base 16 a prefix, digits; a
  value too large is \<^verbatim>\<open>ULONG_MAX\<close>, a negative one wraps.
\<close>

definition hex_char :: "char \<Rightarrow> nat option" where
  "hex_char c = (let n = of_char c in if 48 \<le> n \<and> n \<le> 57 then Some (n - 48)
     else if 65 \<le> n \<and> n \<le> 70 then Some (n - 55) else if 97 \<le> n \<and> n \<le> 102 then Some (n - 87) else None)"

definition read_hex :: "string \<Rightarrow> nat" where
  "read_hex s = fold (\<lambda>c n. 16 * n + the (hex_char c)) (takeWhile (\<lambda>c. hex_char c \<noteq> None) s) 0"

definition ulong :: "bool \<Rightarrow> nat \<Rightarrow> u32" where
  "ulong neg n = (if n < 2 ^ 64 then if neg then - word_of_nat n else word_of_nat n else - 1)"

definition strtoul :: "nat \<Rightarrow> string \<Rightarrow> u32" where
  "strtoul base s =
     (let t = dropWhile is_space s;
          neg = (t \<noteq> [] \<and> hd t = CHR ''-'');
          u = (if t \<noteq> [] \<and> (hd t = CHR ''-'' \<or> hd t = CHR ''+'') then tl t else t);
          v = (if map tolower (take 2 u) = ''0x'' \<and> length u > 2 \<and> hex_char (u ! 2) \<noteq> None then drop 2 u else u)
      in ulong neg (if base = 16 then read_hex v else read_nat (takeWhile is_digit u)))"

text \<open>Character \<open>i\<close> of a \<^verbatim>\<open>std::string\<close>; the place behind the last one holds a NUL.\<close>

definition str_at :: "string \<Rightarrow> nat \<Rightarrow> char res" where
  "str_at v i = (if i < length v then Inr (v ! i) else if i = length v then Inr NUL else Inl OutOfBounds)"

text \<open>
  The loop over the tokens, with the initial registers and the assignments found so far. \<open>None\<close>: the
  code returns false.
\<close>

fun read_formula :: "string list \<Rightarrow> u32 list \<Rightarrow> assign list \<Rightarrow> (u32 list \<times> assign list) option res" where
  "read_formula [] oval ops = Inr (Some (oval, ops))"
| "read_formula (token # tokens) oval ops =
     (if CHR ''='' \<in> set token then
        (case SeperateString [] token (CHR ''='') 0 of
           [name, v] \<Rightarrow>
             let targ = reg_index (hd name) in
             if is_digit (hd v) then
               if 0 \<le> targ \<and> targ < 4 then read_formula tokens (oval[nat targ := strtoul 10 (c_str v)]) ops
               else Inl OutOfBounds
             else if length ops \<ge> 4 then Inl OutOfBounds
             else bind_res (str_at v 1) (\<lambda>t. bind_res (str_at v 2) (\<lambda>x.
               read_formula tokens oval (ops @ [\<lparr>opTarg = word_of_int targ, opVal1 = word_of_int (reg_index (hd v)),
                 opType = t, opVal2 = word_of_int (reg_index x)\<rparr>])))
         | _ \<Rightarrow> if length token > 1 then Inr None else read_formula tokens oval ops)
      else read_formula tokens oval ops)"

section \<open>The checksum\<close>

definition mpqHashValues :: "u32 list" where
  "mpqHashValues = [0xE7F4CB62, 0xF6A14FFC, 0xAA5504AF, 0x871FCDC2, 0x11BF6A18, 0xC57292E6, 0x7927D27E, 0x2FEC8733]"

definition reg_get :: "u32 list \<Rightarrow> u32 \<Rightarrow> u32 res" where
  "reg_get val i = (if unat i < length val then Inr (val ! unat i) else Inl OutOfBounds)"

definition reg_set :: "u32 list \<Rightarrow> u32 \<Rightarrow> u32 \<Rightarrow> u32 list res" where
  "reg_set val i x = (if unat i < length val then Inr (val[unat i := x]) else Inl OutOfBounds)"

definition run_assign :: "assign \<Rightarrow> u32 list \<Rightarrow> u32 list res" where
  "run_assign k val =
     (if opType k \<in> set ''+-^*/'' then
        bind_res (reg_get val (opVal1 k)) (\<lambda>x. bind_res (reg_get val (opVal2 k)) (\<lambda>y.
          if opType k = CHR ''/'' \<and> y = 0 then Inl DivByZero
          else reg_set val (opTarg k)
            (if opType k = CHR ''+'' then x + y else if opType k = CHR ''-'' then x - y
             else if opType k = CHR ''^'' then x XOR y else if opType k = CHR ''*'' then x * y else x div y)))
      else Inr val)"

fun run_ops :: "assign list \<Rightarrow> u32 list \<Rightarrow> u32 list res" where
  "run_ops [] val = Inr val"
| "run_ops (k # ks) val = bind_res (run_assign k val) (run_ops ks)"

fun run_words :: "assign list \<Rightarrow> u32 list \<Rightarrow> u32 list \<Rightarrow> u32 list res" where
  "run_words ops [] val = Inr val"
| "run_words ops (b # bs) val = bind_res (run_ops ops (val[3 := b])) (run_words ops bs)"

text \<open>
  The file, filled up to a multiple of 1024 bytes with 255, 254 and so on; the rounded size may
  wrap, and then the file is read behind the buffer.
\<close>

definition padded :: "bytes \<Rightarrow> bytes res" where
  "padded d =
     (let fLen = (word_of_nat (length d) :: u32); bufSize = (fLen + 1023) AND NOT 1023
      in if bufSize < fLen then Inl OutOfBounds
         else Inr (take (unat fLen) d @ map (\<lambda>i. 0xff - word_of_nat i) [0..<unat bufSize - unat fLen]))"

primrec read_files :: "env \<Rightarrow> string \<Rightarrow> string list \<Rightarrow> bytes list res" where
  "read_files e dir [] = Inr []"
| "read_files e dir (fn # fns) =
     (case disk e (c_str (dir @ ''/'' @ fn)) of None \<Rightarrow> Inl NullDeref
      | Some (d, _) \<Rightarrow> bind_res (padded d) (\<lambda>b. bind_res (read_files e dir fns) (\<lambda>bs. Inr (b # bs))))"

definition checksum :: "assign list \<Rightarrow> u32 list \<Rightarrow> bytes list \<Rightarrow> nat \<Rightarrow> u32 res" where
  "checksum ops oval bufs verIndex =
     (if verIndex < 8 then
        bind_res (run_words ops (concat (map words_of bufs)) (oval[0 := oval ! 0 XOR mpqHashValues ! verIndex]))
          (\<lambda>val. Inr (val ! 2))
      else Inl OutOfBounds)"

fun checksums :: "assign list \<Rightarrow> u32 list \<Rightarrow> bytes list \<Rightarrow> nat list \<Rightarrow> u32 list \<Rightarrow> u32 list res" where
  "checksums ops oval bufs [] result = Inr result"
| "checksums ops oval bufs (i # is) result =
     bind_res (checksum ops oval bufs i) (\<lambda>v. checksums ops oval bufs is (result[i := v]))"

text \<open>\<open>None\<close>: false is returned and the result is as it was.\<close>

definition Calculate :: "env \<Rightarrow> string \<Rightarrow> string \<Rightarrow> string list \<Rightarrow> u32 list \<Rightarrow> u32 \<Rightarrow> u32 \<Rightarrow> u32 list option res" where
  "Calculate e gamesDir formulaStr fileNames result sindex eindex =
     bind_res (read_formula (SeperateString [] formulaStr (CHR '' '') 0)
        (map (\<lambda>i. of_le32 (take 4 (drop (4 * i) (fresh e ''oval'' 16)))) [0..<4]) []) (\<lambda>r.
     case r of None \<Rightarrow> Inr None
     | Some (oval, ops) \<Rightarrow> bind_res (read_files e gamesDir fileNames) (\<lambda>bufs.
         bind_res (checksums ops oval bufs [unat sindex..<Suc (unat eindex)] result) (\<lambda>r. Inr (Some r))))"

section \<open>Loading and looking up\<close>

record revision =
  gameName :: string
  gameId :: u32
  chksum :: "u32 list"
  exeVer :: u32

definition rop :: "u8 \<Rightarrow> char" where
  "rop r = ''+-^'' ! unat (r mod 3)"

definition next8 :: "env \<Rightarrow> nat \<Rightarrow> u8" where
  "next8 e n = ucast (c_rand e n AND 0xFF)"

definition GetRandom8 :: "env \<Rightarrow> u8 M" where
  "GetRandom8 e w = Inr (next8 e (nrand w), w\<lparr>nrand := nrand w + 1\<rparr>)"

definition formula_text :: "u32 \<Rightarrow> u32 \<Rightarrow> u32 \<Rightarrow> char \<Rightarrow> char \<Rightarrow> char \<Rightarrow> char \<Rightarrow> string" where
  "formula_text a b c r1 r2 r3 r4 =
     ''A='' @ dec_nat (unat a) @ '' B='' @ dec_nat (unat b) @ '' C='' @ dec_nat (unat c)
       @ '' 4 A=A'' @ [r1] @ ''S B=B'' @ [r2] @ ''C C=C'' @ [r3] @ ''A A=A'' @ [r4] @ ''B''"

definition draw_formula :: "env \<Rightarrow> string M" where
  "draw_formula e =
     bind (GetRandom32 e) (\<lambda>a. bind (GetRandom32 e) (\<lambda>b. bind (GetRandom32 e) (\<lambda>c.
     bind (GetRandom8 e) (\<lambda>r1. bind (GetRandom8 e) (\<lambda>r2. bind (GetRandom8 e) (\<lambda>r3. bind (GetRandom8 e) (\<lambda>r4.
       ret (formula_text (a AND 0x7FFFFFFF) (b AND 0x7FFFFFFF) (c AND 0x7FFFFFFF) (rop r1) (rop r2) (rop r3) (rop r4)))))))))"

definition exe_version :: "string \<Rightarrow> u32" where
  "exe_version s = (if map tolower (take 2 (c_str s)) = ''0x'' then strtoul 16 (drop 2 (c_str s)) else strtoul 10 (c_str s))"

text \<open>
  One row of the configuration: name, game, three files, version. The game is read as a 32 bit
  word from the text's buffer.
\<close>

definition load_revision :: "env \<Rightarrow> string \<Rightarrow> string \<Rightarrow> string list \<Rightarrow> revision list \<Rightarrow> revision list res" where
  "load_revision e dir formula row revs =
     (case row of [name, game, f1, f2, f3, ver] \<Rightarrow>
        if length game < 3 then Inl OutOfBounds
        else let gid = Reverse (of_le32 (map byte_of (take 4 (game @ [NUL])))) in
        if f1 \<noteq> [] \<and> f2 \<noteq> [] \<and> f3 \<noteq> [] \<and> gid \<noteq> 0 then
          bind_res (Calculate e dir formula (map (\<lambda>f. game @ ''/'' @ f) [f1, f2, f3])
             (map (\<lambda>i. of_le32 (take 4 (drop (4 * i) (fresh e ''chksum'' 32)))) [0..<8]) 0 7) (\<lambda>r.
          case r of None \<Rightarrow> Inr revs
          | Some sums \<Rightarrow> Inr (revs @ [\<lparr>gameName = name, gameId = gid, chksum = sums, exeVer = exe_version ver\<rparr>]))
        else Inr revs
      | _ \<Rightarrow> Inl OutOfBounds)"

fun load_revisions :: "env \<Rightarrow> string \<Rightarrow> string \<Rightarrow> string list list \<Rightarrow> revision list \<Rightarrow> revision list res" where
  "load_revisions e dir formula [] revs = Inr revs"
| "load_revisions e dir formula (row # rows) revs =
     bind_res (load_revision e dir formula row revs) (load_revisions e dir formula rows)"

definition findRev :: "nat \<Rightarrow> u32 \<Rightarrow> u32 \<Rightarrow> revision list \<Rightarrow> revision option" where
  "findRev verIndex chk exe revs =
     List.find (\<lambda>r. chksum r ! verIndex = chk \<and> (exeVer r = 0 \<or> exeVer r = exe)) revs"

section \<open>The formula the server draws\<close>

text \<open>What the formula means: the four assignments, on the registers A, B and C and a word S.\<close>

definition operator :: "char \<Rightarrow> u32 \<Rightarrow> u32 \<Rightarrow> u32" where
  "operator r x y = (if r = CHR ''+'' then x + y else if r = CHR ''-'' then x - y else x XOR y)"

fun round_step :: "char \<times> char \<times> char \<times> char \<Rightarrow> u32 \<Rightarrow> u32 \<times> u32 \<times> u32 \<Rightarrow> u32 \<times> u32 \<times> u32" where
  "round_step (r1, r2, r3, r4) s (a, b, c) =
     (let a1 = operator r1 a s; b1 = operator r2 b c; c1 = operator r3 c a1 in (operator r4 a1 b1, b1, c1))"

definition server_ops :: "char \<times> char \<times> char \<times> char \<Rightarrow> assign list" where
  "server_ops = (\<lambda>(r1, r2, r3, r4).
     [\<lparr>opTarg = 0, opVal1 = 0, opType = r1, opVal2 = 3\<rparr>, \<lparr>opTarg = 1, opVal1 = 1, opType = r2, opVal2 = 2\<rparr>,
      \<lparr>opTarg = 2, opVal1 = 2, opType = r3, opVal2 = 0\<rparr>, \<lparr>opTarg = 0, opVal1 = 0, opType = r4, opVal2 = 1\<rparr>])"

lemma SeperateString_words:
  assumes "d \<notin> set t" and "t \<noteq> []"
  shows "SeperateString [] t d 0 = [t]"
    and "SeperateString [] (t @ d # u) d 0 = t # SeperateString [] u d 0"
proof -
  have ns: "\<forall>v. t @ u' \<noteq> d # v" for u' using assms by (cases t) auto
  have sk: "skip d (t @ u') = t @ u'" for u' using assms by (cases t) (auto simp: skip_def)
  show "SeperateString [] t d 0 = [t]"
    using seperate_fields [of t d] ns [of "[]"] sk [of "[]"] assms by (simp add: SeperateString_def fields_none)
  have "\<forall>v. skip d u \<noteq> d # v"
    unfolding skip_def by (metis (mono_tags, lifting) hd_dropWhile list.distinct(1) list.sel(1))
  then show "SeperateString [] (t @ d # u) d 0 = t # SeperateString [] u d 0"
    using seperate_fields [of "t @ d # u" d] ns sk assms
    by (simp add: SeperateString_def fields_step seperate_fields fields_skip)
qed

lemma dec_nat_no: "\<not> is_digit c \<Longrightarrow> c \<notin> set (dec_nat n)"
  using dec_nat_digits by blast

lemma not_digits: "\<not> is_digit (CHR '' '')" "\<not> is_digit (CHR ''='')" "\<not> is_digit NUL"
    "\<not> is_digit (CHR ''-'')" "\<not> is_digit (CHR ''+'')"
  by (simp_all add: is_digit_def NUL_def)

lemma digit_not_space: "is_digit c \<Longrightarrow> \<not> is_space c"
  by (auto simp: is_digit_def is_space_def)

lemma strtoul_dec: "strtoul 10 (c_str (dec_nat (unat a))) = a"
proof -
  let ?d = "dec_nat (unat a)"
  have "c_str ?d = ?d" using dec_nat_no [OF not_digits(3)] by (simp add: c_str_def takeWhile_eq_all_conv) metis
  moreover have "dropWhile is_space ?d = ?d"
    by (metis dec_nat_nonempty dec_nat_digits digit_not_space dropWhile_eq_self_iff hd_in_set)
  moreover have "hd ?d \<noteq> CHR ''-''" "hd ?d \<noteq> CHR ''+''"
    using dec_nat_digits [of "hd ?d" "unat a"] not_digits by auto
  moreover have "unat a < 2 ^ 64" using unsigned_less [of a] by (rule less_trans) simp
  moreover have "read_nat (takeWhile is_digit ?d) = unat a"
    using takeWhile_all [of ?d is_digit, OF dec_nat_digits] by (simp only: read_dec_nat)
  ultimately show ?thesis by (simp add: strtoul_def Let_def ulong_def)
qed

lemma and_not_1023: "unat ((x :: u32) AND - 1024) = unat x div 1024 * 1024"
proof -
  have n: "(- 1024 :: u32) = NOT 1023" by simp
  have "x AND - 1024 = push_bit 10 (drop_bit 10 x)"
  proof (rule bit_word_eqI)
    have m: "(1023 :: u32) = mask 10" by (simp add: mask_eq_exp_minus_1)
    fix n assume "n < LENGTH(32)"
    then show "bit (x AND - 1024) n = bit (push_bit 10 (drop_bit 10 x)) n"
      unfolding n m by (auto simp: bit_simps)
  qed
  moreover have "unat (push_bit 10 (drop_bit 10 x)) = unat x div 1024 * 1024"
    unfolding unsigned_push_bit_eq unsigned_drop_bit_eq
    using unat_bound(3) [of x] by (simp add: push_bit_eq_mult drop_bit_eq_div take_bit_eq_mod)
  ultimately show ?thesis by simp
qed

lemma read_formula_assign:
  assumes "t \<noteq> CHR ''=''"
  shows "read_formula ((t # CHR ''='' # dec_nat (unat x)) # ts) oval ops =
     (if 0 \<le> reg_index t \<and> reg_index t < 4 then read_formula ts (oval[nat (reg_index t) := x]) ops
      else Inl OutOfBounds)"
proof -
  have "SeperateString [] ([t] @ CHR ''='' # dec_nat (unat x)) (CHR ''='') 0 = [[t], dec_nat (unat x)]"
    using assms dec_nat_no [OF not_digits(2)] by (subst SeperateString_words(2)) (auto simp: SeperateString_words)
  moreover have "is_digit (hd (dec_nat (unat x)))" by (rule dec_nat_digits [of _ "unat x"]) simp
  ultimately show ?thesis by (simp add: strtoul_dec Let_def)
qed

lemma read_formula_op:
  assumes "CHR ''='' \<notin> set [t, v, r, x]" and "length ops < 4" and "\<not> is_digit v"
  shows "read_formula ([t, CHR ''='', v, r, x] # ts) oval ops =
     read_formula ts oval (ops @ [\<lparr>opTarg = word_of_int (reg_index t), opVal1 = word_of_int (reg_index v),
        opType = r, opVal2 = word_of_int (reg_index x)\<rparr>])"
proof -
  have "SeperateString [] ([t] @ CHR ''='' # [v, r, x]) (CHR ''='') 0 = [[t], [v, r, x]]"
    using assms(1) by (subst SeperateString_words(2)) (auto simp: SeperateString_words)
  then show ?thesis using assms by (simp add: Let_def str_at_def)
qed

lemma formula_tokens:
  assumes "CHR '' '' \<notin> {r1, r2, r3, r4}"
  shows "SeperateString [] (formula_text a b c r1 r2 r3 r4) (CHR '' '') 0 =
     [''A='' @ dec_nat (unat a), ''B='' @ dec_nat (unat b), ''C='' @ dec_nat (unat c), ''4'',
      [CHR ''A'', CHR ''='', CHR ''A'', r1, CHR ''S''], [CHR ''B'', CHR ''='', CHR ''B'', r2, CHR ''C''],
      [CHR ''C'', CHR ''='', CHR ''C'', r3, CHR ''A''], [CHR ''A'', CHR ''='', CHR ''A'', r4, CHR ''B'']]"
proof -
  note n = dec_nat_no [OF not_digits(1)]
  have t: "formula_text a b c r1 r2 r3 r4 =
     (''A='' @ dec_nat (unat a)) @ CHR '' '' # (''B='' @ dec_nat (unat b)) @ CHR '' '' # (''C='' @ dec_nat (unat c))
       @ CHR '' '' # ''4'' @ CHR '' '' # [CHR ''A'', CHR ''='', CHR ''A'', r1, CHR ''S''] @ CHR '' ''
       # [CHR ''B'', CHR ''='', CHR ''B'', r2, CHR ''C''] @ CHR '' ''
       # [CHR ''C'', CHR ''='', CHR ''C'', r3, CHR ''A''] @ CHR '' '' # [CHR ''A'', CHR ''='', CHR ''A'', r4, CHR ''B'']"
    by (simp add: formula_text_def)
  show ?thesis unfolding t using assms n
    by (subst SeperateString_words(2), simp, simp)+ (subst SeperateString_words(1), auto)
qed

lemma reg_indexes: "reg_index (CHR ''A'') = 0" "reg_index (CHR ''B'') = 1" "reg_index (CHR ''C'') = 2"
    "reg_index (CHR ''S'') = 3"
  by (simp_all add: reg_index_def char_int_def byte_of_def)

lemma read_server_formula:
  assumes "{r1, r2, r3, r4} \<subseteq> set ''+-^''"
  shows "read_formula (SeperateString [] (formula_text a b c r1 r2 r3 r4) (CHR '' '') 0) oval [] =
     Inr (Some (oval[0 := a, 1 := b, 2 := c], server_ops (r1, r2, r3, r4)))"
proof -
  have r: "CHR '' '' \<notin> {r1, r2, r3, r4}" "CHR ''='' \<notin> {r1, r2, r3, r4}" using assms by auto
  have d: "\<not> is_digit (CHR ''A'')" "\<not> is_digit (CHR ''B'')" "\<not> is_digit (CHR ''C'')" by (simp_all add: is_digit_def)
  have f: "read_formula (''4'' # ts) ov op = read_formula ts ov op" for ts ov op by simp
  show ?thesis unfolding formula_tokens [OF r(1)] using r(2)
    by (simp add: read_formula_assign read_formula_op f d reg_indexes server_ops_def del: read_formula.simps(2))
qed

lemma run_server_ops:
  assumes "{r1, r2, r3, r4} \<subseteq> set ''+-^''"
  shows "run_ops (server_ops (r1, r2, r3, r4)) [a, b, c, s] =
     (case round_step (r1, r2, r3, r4) s (a, b, c) of (a', b', c') \<Rightarrow> Inr [a', b', c', s])"
proof -
  have o: "run_assign \<lparr>opTarg = t, opVal1 = x, opType = r, opVal2 = y\<rparr> val =
      bind_res (reg_get val x) (\<lambda>x. bind_res (reg_get val y) (\<lambda>y. reg_set val t (operator r x y)))"
    if "r \<in> {r1, r2, r3, r4}" for t x r y val
  proof -
    have r: "r = CHR ''+'' \<or> r = CHR ''-'' \<or> r = CHR ''^''" using that assms by auto
    then show ?thesis by (elim disjE) (simp_all add: run_assign_def operator_def)
  qed
  show ?thesis by (simp add: server_ops_def o reg_get_def reg_set_def Let_def)
qed

lemma run_server_words:
  assumes "{r1, r2, r3, r4} \<subseteq> set ''+-^''"
  shows "bind_res (run_words (server_ops (r1, r2, r3, r4)) ws [a, b, c, s]) (\<lambda>v. Inr (v ! 2)) =
     Inr (snd (snd (fold (round_step (r1, r2, r3, r4)) ws (a, b, c))))"
proof (induction ws arbitrary: a b c s)
  case Nil
  show ?case by simp
next
  case (Cons x ws)
  show ?case by (simp add: run_server_ops [OF assms] Cons del: round_step.simps split: prod.split)
qed

text \<open>The files as the formula sees them: filled with 255, 254, \<open>\<dots>\<close> up to the next multiple of 1024.\<close>

definition fill_up :: "bytes \<Rightarrow> bytes" where
  "fill_up d = d @ map (\<lambda>i. 0xff - word_of_nat i) [0..<(1024 - length d mod 1024) mod 1024]"

lemma round_up: "(n + 1023) div 1024 * 1024 = n + (1024 - n mod 1024) mod (1024 :: nat)"
proof -
  obtain q m where n: "n = 1024 * q + m" and m: "m < 1024"
    by (metis mod_less_divisor mult_div_mod_eq zero_less_numeral)
  have nm: "n mod 1024 = m" using n m by simp
  show ?thesis
  proof (cases "m = 0")
    case False
    then have "(n + 1023) div 1024 = q + 1" using n m by (intro div_nat_eqI) simp_all
    then show ?thesis using n m nm False by simp
  qed (simp add: n)
qed

lemma padded_fill_up:
  assumes "length d < 2 ^ 32 - 1024"
  shows "padded d = Inr (fill_up d)"
proof -
  let ?l = "word_of_nat (length d) :: u32"
  have l: "unat ?l = length d" using assms by (simp add: unat_of_nat)
  have "unat (?l + 1023) = length d + 1023" using assms l by (simp add: unat_add_lem [THEN iffD1])
  then have b: "unat ((?l + 1023) AND - 1024) = (length d + 1023) div 1024 * 1024" by (simp add: and_not_1023)
  with b l round_up [of "length d"] show ?thesis by (simp add: padded_def fill_up_def Let_def word_less_nat_alt)
qed

definition readable :: "env \<Rightarrow> string \<Rightarrow> string list \<Rightarrow> bool" where
  "readable e dir fns \<longleftrightarrow> list_all (\<lambda>fn. case disk e (c_str (dir @ ''/'' @ fn)) of
     Some (d, _) \<Rightarrow> length d < 2 ^ 32 - 1024 | None \<Rightarrow> False) fns"

definition game_words :: "env \<Rightarrow> string \<Rightarrow> string list \<Rightarrow> u32 list" where
  "game_words e dir fns =
     concat (map (\<lambda>fn. words_of (fill_up (fst (the (disk e (c_str (dir @ ''/'' @ fn))))))) fns)"

lemma read_files_readable:
  assumes "readable e dir fns"
  shows "\<exists>bufs. read_files e dir fns = Inr bufs \<and> concat (map words_of bufs) = game_words e dir fns"
  using assms
proof (induction fns)
  case (Cons fn fns)
  then obtain d t where "disk e (c_str (dir @ ''/'' @ fn)) = Some (d, t)" "length d < 2 ^ 32 - 1024"
    by (auto simp: readable_def split: option.splits)
  with Cons show ?case by (auto simp: readable_def game_words_def padded_fill_up)
qed (simp add: readable_def game_words_def)

text \<open>The checksum for one of the eight hash values, as a fold over the words of the files.\<close>

definition server_sum :: "char \<times> char \<times> char \<times> char \<Rightarrow> u32 \<times> u32 \<times> u32 \<Rightarrow> u32 list \<Rightarrow> nat \<Rightarrow> u32" where
  "server_sum rs = (\<lambda>(a, b, c) ws i. snd (snd (fold (round_step rs) ws (a XOR mpqHashValues ! i, b, c))))"

lemma checksum_server:
  assumes "{r1, r2, r3, r4} \<subseteq> set ''+-^''" and "i < 8"
  shows "checksum (server_ops (r1, r2, r3, r4)) [a, b, c, s] bufs i =
     Inr (server_sum (r1, r2, r3, r4) (a, b, c) (concat (map words_of bufs)) i)"
  using assms(2) by (simp add: checksum_def server_sum_def run_server_words [OF assms(1)])

lemma checksums_server:
  assumes "{r1, r2, r3, r4} \<subseteq> set ''+-^''" and "\<forall>i \<in> set is. i < 8"
  shows "checksums (server_ops (r1, r2, r3, r4)) [a, b, c, s] bufs is result =
     Inr (fold (\<lambda>i r. r[i := server_sum (r1, r2, r3, r4) (a, b, c) (concat (map words_of bufs)) i]) is result)"
  using assms(2) by (induction "is" arbitrary: result) (simp_all add: checksum_server [OF assms(1)])

lemma fold_update_upt:
  "n \<le> length r \<Longrightarrow> fold (\<lambda>i r. r[i := g i]) [0..<n] r = map g [0..<n] @ drop n r"
  by (induction n) (auto simp: list_update_append Cons_nth_drop_Suc [symmetric])

lemma Calculate_server:
  assumes "{r1, r2, r3, r4} \<subseteq> set ''+-^''" and "readable e dir fns" and "length result = 8"
  shows "Calculate e dir (formula_text a b c r1 r2 r3 r4) fns result 0 7 =
     Inr (Some (map (server_sum (r1, r2, r3, r4) (a, b, c) (game_words e dir fns)) [0..<8]))"
proof -
  obtain bufs where f: "read_files e dir fns = Inr bufs" "concat (map words_of bufs) = game_words e dir fns"
    using read_files_readable [OF assms(2)] by blast
  have u: "[unat (0 :: u32)..<Suc (unat (7 :: u32))] = [0..<8]"
    by simp
  have o: "(map g [0..<4])[0 := a, 1 := b, 2 := c] = [a, b, c, g 3]" for g :: "nat \<Rightarrow> u32"
    by (simp add: eval_nat_numeral)
  have r: "fold (\<lambda>i r. r[i := g i]) [0..<8] result = map g [0..<8]" for g
    using fold_update_upt [of 8 result g] assms(3) by simp
  show ?thesis
    unfolding Calculate_def read_server_formula [OF assms(1)] u o
    using f by (simp add: checksums_server [OF assms(1)] r del: upt.simps upt_rec)
qed

lemma rop_cases: "rop r \<in> set ''+-^''"
proof -
  have "unat (r mod 3) < 3" by (simp add: unat_mod)
  then have "unat (r mod 3) \<in> {0, 1, 2}" by auto
  then show ?thesis by (auto simp: rop_def)
qed

lemma positive31: "(x :: u32) AND 0x7FFFFFFF < 2 ^ 31"
proof -
  have m: "(0x7FFFFFFF :: u32) = mask 31" by (simp add: mask_eq_exp_minus_1)
  have "unat (x AND mask 31) = unat x mod 2 ^ 31" by (simp add: take_bit_eq_mask [symmetric] take_bit_eq_mod unat_mod)
  then show ?thesis unfolding m word_less_nat_alt by simp
qed

lemma wp_draw_formula:
  assumes "\<And>a b c p q r s v.
     Q (formula_text (a AND 0x7FFFFFFF) (b AND 0x7FFFFFFF) (c AND 0x7FFFFFFF) (rop p) (rop q) (rop r) (rop s)) v"
  shows "wp (draw_formula e) Q w"
  by (simp add: draw_formula_def GetRandom32_def GetRandom8_def wp_def bind_def ret_def assms)

text \<open>
  C30. Whatever the random numbers, the server draws a text that gives A, B and C their initial values \<open>a\<close>, \<open>b\<close> and \<open>c\<close>,
  each below 2 to the power of 31, and the four assignments \<open>A=A r1 S\<close>, \<open>B=B r2 C\<close>, \<open>C=C r3 A\<close> and \<open>A=A r4 B\<close> with each operator one
  of \<open>+\<close>, \<open>-\<close> and \<open>^\<close>. Reading that text back, the checksums it computes for readable files are the fold of exactly these
  assignments, with these operators and from these initial values, over the words of the files: there is no register outside A, B, C
  and S, no assignment too many, no division by zero.
\<close>

theorem drawn_formula_computes:
  assumes "readable e dir fns" and "length result = 8"
  shows "wp (draw_formula e) (\<lambda>f v. \<exists>a b c r1 r2 r3 r4.
     f = ''A='' @ dec_nat (unat a) @ '' B='' @ dec_nat (unat b) @ '' C='' @ dec_nat (unat c)
       @ '' 4 A=A'' @ [r1] @ ''S B=B'' @ [r2] @ ''C C=C'' @ [r3] @ ''A A=A'' @ [r4] @ ''B''
     \<and> a < 2 ^ 31 \<and> b < 2 ^ 31 \<and> c < 2 ^ 31 \<and> {r1, r2, r3, r4} \<subseteq> {CHR ''+'', CHR ''-'', CHR ''^''}
     \<and> Calculate e dir f fns result 0 7 =
         Inr (Some (map (server_sum (r1, r2, r3, r4) (a, b, c) (game_words e dir fns)) [0..<8]))) w"
proof -
  have calc: "Calculate e dir (formula_text a b c (rop p) (rop q) (rop r) (rop s)) fns result 0 7 =
      Inr (Some (map (server_sum (rop p, rop q, rop r, rop s) (a, b, c) (game_words e dir fns)) [0..<8]))" for a b c p q r s
    using rop_cases assms by (intro Calculate_server) auto
  have rop: "{rop p, rop q, rop r, rop s} \<subseteq> {CHR ''+'', CHR ''-'', CHR ''^''}" for p q r s
    using rop_cases [of p] rop_cases [of q] rop_cases [of r] rop_cases [of s] by simp
  show ?thesis
    by (rule wp_draw_formula) (intro exI conjI, rule formula_text_def, (rule positive31)+, rule rop, rule calc)
qed

theorem drawn_formula_computes_witness:
  "wp (draw_formula (env0\<lparr>disk := \<lambda>_. Some ([1, 2, 3, 4, 5], 0)\<rparr>)) (\<lambda>f v. \<exists>a b c r1 r2 r3 r4.
     f = formula_text a b c r1 r2 r3 r4
     \<and> Calculate (env0\<lparr>disk := \<lambda>_. Some ([1, 2, 3, 4, 5], 0)\<rparr>) ''games'' f [''game.exe''] (replicate 8 0) 0 7 =
       Inr (Some (map (server_sum (r1, r2, r3, r4) (a, b, c)
         (game_words (env0\<lparr>disk := \<lambda>_. Some ([1, 2, 3, 4, 5], 0)\<rparr>) ''games'' [''game.exe''])) [0..<8]))) world0"
proof -
  have "readable (env0\<lparr>disk := \<lambda>_. Some ([1, 2, 3, 4, 5], 0)\<rparr>) ''games'' [''game.exe'']"
    by (simp add: readable_def)
  from drawn_formula_computes [OF this length_replicate] show ?thesis
    unfolding formula_text_def by (rule wp_mono) (elim exE conjE, intro exI conjI)
qed

text \<open>The result of \<^verbatim>\<open>Open\<close> is not looked at: a missing file is a NULL pointer for \<^verbatim>\<open>ftell\<close>.\<close>

lemma missing_game_file:
  assumes "disk e (c_str (dir @ ''/'' @ fn)) = None" and "{r1, r2, r3, r4} \<subseteq> set ''+-^''"
  shows "Calculate e dir (formula_text a b c r1 r2 r3 r4) (fn # fns) result 0 7 = Inl NullDeref"
  using assms(1) by (simp add: Calculate_def read_server_formula [OF assms(2)])

end
