(* ===== verification/Sha.thy ===== *)
theory Sha
  imports ByteStream
begin

text \<open>
  The two hashes of the server. \<^verbatim>\<open>SHA1Hash.cpp\<close> (src/common/crypto) is SHA-1,
  \<^verbatim>\<open>BSHA1Hash.cpp\<close> (src/blitzd/crypto) the variant of the old login protocol. Both files have
  the same context, \<^verbatim>\<open>Reset\<close>, \<^verbatim>\<open>Input\<close> and \<^verbatim>\<open>Result\<close>, written out twice; the shared text is
  modelled once, over the block function it calls. A pointer parameter the code tests for NULL
  is an option.

  The locale \<open>block_hash\<close> is the contract between the block function and the buffering code.
  Its lemmas show that feeding a message in any pieces gives the digest of the whole, and its
  two interpretations give the digests of both files as functions of the message, equal to
  reference definitions written from the standard.
\<close>

section \<open>The context\<close>

record sha_ctx =
  Intermediate_Hash :: "u32 list"
  Length_Low :: u32
  Length_High :: u32
  Message_Block_Index :: nat
  Message_Block :: bytes
  Computed :: int
  Corrupted :: int

abbreviation (input) "shaSuccess \<equiv> (0::int)"
abbreviation (input) "shaNull \<equiv> (1::int)"
abbreviation (input) "shaInputTooLong \<equiv> (2::int)"
abbreviation (input) "shaStateError \<equiv> (3::int)"

definition sha_ok :: "sha_ctx \<Rightarrow> bool" where
  "sha_ok c \<longleftrightarrow> length (Intermediate_Hash c) = 5 \<and> length (Message_Block c) = 64
     \<and> Message_Block_Index c < 64"

definition H0 :: "u32 list" where
  "H0 = [0x67452301, 0xEFCDAB89, 0x98BADCFE, 0x10325476, 0xC3D2E1F0]"

definition sha_Reset :: "sha_ctx option \<Rightarrow> int \<times> sha_ctx option" where
  "sha_Reset context = (case context of None \<Rightarrow> (shaNull, None)
     | Some c \<Rightarrow> (shaSuccess, Some (c\<lparr>Length_Low := 0, Length_High := 0, Message_Block_Index := 0,
         Intermediate_Hash := H0, Computed := 0, Corrupted := 0\<rparr>)))"

section \<open>Input\<close>

definition input_byte :: "(sha_ctx \<Rightarrow> sha_ctx) \<Rightarrow> sha_ctx \<Rightarrow> u8 \<Rightarrow> sha_ctx" where
  "input_byte proc c b =
     (let c1 = c\<lparr>Message_Block := (Message_Block c)[Message_Block_Index c := b AND 0xFF],
                 Message_Block_Index := Message_Block_Index c + 1,
                 Length_Low := Length_Low c + 8\<rparr>;
          c2 = (if Length_Low c1 = 0
                then let ch = c1\<lparr>Length_High := Length_High c1 + 1\<rparr>
                     in if Length_High ch = 0 then ch\<lparr>Corrupted := 1\<rparr> else ch
                else c1)
      in if Message_Block_Index c2 = 64 then proc c2 else c2)"

fun input_loop :: "(sha_ctx \<Rightarrow> sha_ctx) \<Rightarrow> sha_ctx \<Rightarrow> bytes \<Rightarrow> sha_ctx" where
  "input_loop proc c [] = c"
| "input_loop proc c (b # bs) =
     (if Corrupted c \<noteq> 0 then c else input_loop proc (input_byte proc c b) bs)"

definition sha_Input ::
  "(sha_ctx \<Rightarrow> sha_ctx) \<Rightarrow> sha_ctx option \<Rightarrow> bytes option \<Rightarrow> u32 \<Rightarrow> int \<times> sha_ctx option" where
  "sha_Input proc context message_array len =
     (if len = 0 then (shaSuccess, context)
      else case (context, message_array) of
        (Some c, Some m) \<Rightarrow>
          if Computed c \<noteq> 0 then (shaStateError, Some (c\<lparr>Corrupted := shaStateError\<rparr>))
          else if Corrupted c \<noteq> 0 then (Corrupted c, Some c)
          else (shaSuccess, Some (input_loop proc c (take (unat len) m)))
      | _ \<Rightarrow> (shaNull, context))"

section \<open>Result\<close>

definition digest_bytes :: "u32 list \<Rightarrow> bytes" where
  "digest_bytes H = map (\<lambda>i. ucast (drop_bit (8 * (3 - i mod 4)) (H ! (i div 4)))) [0..<20]"

text \<open>\<open>out\<close> is the caller's \<^verbatim>\<open>Message_Digest\<close> array, its old contents or NULL.\<close>

definition sha_Result ::
  "(sha_ctx \<Rightarrow> sha_ctx) \<Rightarrow> sha_ctx option \<Rightarrow> bytes option \<Rightarrow> int \<times> sha_ctx option \<times> bytes option" where
  "sha_Result pad context out =
     (case (context, out) of
        (Some c, Some d) \<Rightarrow>
          if Corrupted c \<noteq> 0 then (Corrupted c, Some c, Some d)
          else let c' = (if Computed c = 0
                         then (pad c)\<lparr>Message_Block := replicate 64 0, Length_Low := 0,
                                      Length_High := 0, Computed := 1\<rparr>
                         else c)
               in (shaSuccess, Some c', Some (digest_bytes (Intermediate_Hash c')))
      | _ \<Rightarrow> (shaNull, context, out))"

section \<open>The block functions\<close>

definition CircularShift :: "nat \<Rightarrow> u32 \<Rightarrow> u32" where
  "CircularShift bits w = push_bit bits w OR drop_bit (32 - bits) w"

definition K :: "u32 list" where
  "K = [0x5A827999, 0x6ED9EBA1, 0x8F1BBCDC, 0xCA62C1D6]"

type_synonym regs = "u32 \<times> u32 \<times> u32 \<times> u32 \<times> u32"

text \<open>The body of the four round loops, \<open>f\<close> and \<open>k\<close> what they differ in.\<close>

definition round_step :: "(u32 \<Rightarrow> u32 \<Rightarrow> u32 \<Rightarrow> u32) \<Rightarrow> u32 \<Rightarrow> u32 list \<Rightarrow> nat \<Rightarrow> regs \<Rightarrow> regs" where
  "round_step f k W t r = (case r of (A, B, C, D, E) \<Rightarrow>
     (let temp = CircularShift 5 A + f B C D + E + W ! t + k
      in (temp, A, CircularShift 30 B, C, D)))"

definition rounds :: "u32 list \<Rightarrow> regs \<Rightarrow> regs" where
  "rounds W r =
     (let r = fold (round_step (\<lambda>B C D. (B AND C) OR (NOT B AND D)) (K ! 0) W) [0..<20] r;
          r = fold (round_step (\<lambda>B C D. B XOR C XOR D) (K ! 1) W) [20..<40] r;
          r = fold (round_step (\<lambda>B C D. (B AND C) OR (B AND D) OR (C AND D)) (K ! 2) W) [40..<60] r
      in fold (round_step (\<lambda>B C D. B XOR C XOR D) (K ! 3) W) [60..<80] r)"

definition add_regs :: "u32 list \<Rightarrow> regs \<Rightarrow> u32 list" where
  "add_regs H r = (case r of (A, B, C, D, E) \<Rightarrow>
     [H ! 0 + A, H ! 1 + B, H ! 2 + C, H ! 3 + D, H ! 4 + E])"

definition regs_of :: "u32 list \<Rightarrow> regs" where
  "regs_of H = (H ! 0, H ! 1, H ! 2, H ! 3, H ! 4)"

text \<open>The array \<^verbatim>\<open>W\<close> is filled from its first element on; the model appends.\<close>

definition SHA1_W :: "bytes \<Rightarrow> u32 list" where
  "SHA1_W M =
     fold (\<lambda>t W. W @ [CircularShift 1 (W ! (t - 3) XOR W ! (t - 8) XOR W ! (t - 14) XOR W ! (t - 16))])
       [16..<80]
       (map (\<lambda>t. push_bit 24 (ucast (M ! (t * 4))) OR push_bit 16 (ucast (M ! (t * 4 + 1)))
               OR push_bit 8 (ucast (M ! (t * 4 + 2))) OR ucast (M ! (t * 4 + 3))) [0..<16])"

definition SHA1ProcessMessageBlock :: "sha_ctx \<Rightarrow> sha_ctx" where
  "SHA1ProcessMessageBlock c =
     (let H = Intermediate_Hash c; W = SHA1_W (Message_Block c)
      in c\<lparr>Intermediate_Hash := add_regs H (rounds W (regs_of H)), Message_Block_Index := 0\<rparr>)"

text \<open>
  \<^verbatim>\<open>BSHA1CircularShift(x, 1)\<close> has its arguments in the other order: it shifts the constant 1 by
  \<^verbatim>\<open>x\<close>. The shift counts are taken modulo 32, as the x86 shift instructions do; the C++ standard
  leaves a count of 32 or more undefined.
\<close>

definition shift_one :: "u32 \<Rightarrow> u32" where
  "shift_one x = push_bit (unat (x AND 31)) 1 OR drop_bit (unat ((32 - x) AND 31)) 1"

definition BSHA1_W :: "bytes \<Rightarrow> nat \<Rightarrow> u32 list" where
  "BSHA1_W M idx =
     (let B = take idx M @ replicate (64 - idx) 0
      in fold (\<lambda>t W. W @ [shift_one (W ! (t - 3) XOR W ! (t - 8) XOR W ! (t - 14) XOR W ! (t - 16))])
           [16..<80] (map (\<lambda>t. of_le32 (take 4 (drop (t * 4) B))) [0..<16]))"

definition BSHA1ProcessMessageBlock :: "sha_ctx \<Rightarrow> sha_ctx" where
  "BSHA1ProcessMessageBlock c =
     (let H = Intermediate_Hash c; W = BSHA1_W (Message_Block c) (Message_Block_Index c)
      in c\<lparr>Intermediate_Hash := add_regs H (rounds W (regs_of H)), Message_Block_Index := 0\<rparr>)"

section \<open>Padding\<close>

function zero_to :: "nat \<Rightarrow> sha_ctx \<Rightarrow> sha_ctx" where
  "zero_to n c =
     (if Message_Block_Index c < n
      then zero_to n (c\<lparr>Message_Block := (Message_Block c)[Message_Block_Index c := 0],
                        Message_Block_Index := Message_Block_Index c + 1\<rparr>)
      else c)"
  by pat_completeness auto
termination by (relation "measure (\<lambda>(n, c). n - Message_Block_Index c)") auto

declare zero_to.simps [simp del]

definition put_0x80 :: "sha_ctx \<Rightarrow> sha_ctx" where
  "put_0x80 c = c\<lparr>Message_Block := (Message_Block c)[Message_Block_Index c := 0x80],
                  Message_Block_Index := Message_Block_Index c + 1\<rparr>"

definition store_length :: "sha_ctx \<Rightarrow> sha_ctx" where
  "store_length c =
     (let h = Length_High c; l = Length_Low c
      in c\<lparr>Message_Block := (Message_Block c)
            [56 := ucast (drop_bit 24 h), 57 := ucast (drop_bit 16 h), 58 := ucast (drop_bit 8 h),
             59 := ucast h, 60 := ucast (drop_bit 24 l), 61 := ucast (drop_bit 16 l),
             62 := ucast (drop_bit 8 l), 63 := ucast l]\<rparr>)"

definition SHA1PadMessage :: "sha_ctx \<Rightarrow> sha_ctx" where
  "SHA1PadMessage c =
     (let c1 = (if Message_Block_Index c > 55
                then zero_to 56 (SHA1ProcessMessageBlock (zero_to 64 (put_0x80 c)))
                else zero_to 56 (put_0x80 c))
      in SHA1ProcessMessageBlock (store_length c1))"

definition BSHA1PadMessage :: "sha_ctx \<Rightarrow> sha_ctx" where
  "BSHA1PadMessage c = BSHA1ProcessMessageBlock c"

section \<open>The functions of the two files\<close>

definition SHA1Reset :: "sha_ctx option \<Rightarrow> int \<times> sha_ctx option" where
  "SHA1Reset = sha_Reset"

definition SHA1Input :: "sha_ctx option \<Rightarrow> bytes option \<Rightarrow> u32 \<Rightarrow> int \<times> sha_ctx option" where
  "SHA1Input = sha_Input SHA1ProcessMessageBlock"

definition SHA1Result :: "sha_ctx option \<Rightarrow> bytes option \<Rightarrow> int \<times> sha_ctx option \<times> bytes option" where
  "SHA1Result = sha_Result SHA1PadMessage"

definition BSHA1Reset :: "sha_ctx option \<Rightarrow> int \<times> sha_ctx option" where
  "BSHA1Reset = sha_Reset"

definition BSHA1Input :: "sha_ctx option \<Rightarrow> bytes option \<Rightarrow> u32 \<Rightarrow> int \<times> sha_ctx option" where
  "BSHA1Input = sha_Input BSHA1ProcessMessageBlock"

definition BSHA1Result :: "sha_ctx option \<Rightarrow> bytes option \<Rightarrow> int \<times> sha_ctx option \<times> bytes option" where
  "BSHA1Result = sha_Result BSHA1PadMessage"

section \<open>Reference definitions\<close>

text \<open>
  The compression function as the standard writes it: a word sequence \<open>wseq\<close> defined by
  recursion, and round \<open>t\<close> with the function and constant of its number. \<open>sh\<close> is the one-bit
  rotation of the schedule and \<open>b\<close> the reading of the sixteen message words.
\<close>

function wseq :: "(u32 \<Rightarrow> u32) \<Rightarrow> (nat \<Rightarrow> u32) \<Rightarrow> nat \<Rightarrow> u32" where
  "wseq sh b t = (if t < 16 then b t
     else sh (wseq sh b (t - 3) XOR wseq sh b (t - 8) XOR wseq sh b (t - 14) XOR wseq sh b (t - 16)))"
  by pat_completeness auto
termination by (relation "measure (\<lambda>(sh, b, t). t)") auto

declare wseq.simps [simp del]

definition round_fun :: "nat \<Rightarrow> u32 \<Rightarrow> u32 \<Rightarrow> u32 \<Rightarrow> u32" where
  "round_fun t x y z =
     (if t < 20 then (x AND y) OR (NOT x AND z)
      else if 40 \<le> t \<and> t < 60 then (x AND y) OR (x AND z) OR (y AND z)
      else x XOR y XOR z)"

definition round_const :: "nat \<Rightarrow> u32" where
  "round_const t = (if t < 20 then 0x5A827999 else if t < 40 then 0x6ED9EBA1
     else if t < 60 then 0x8F1BBCDC else 0xCA62C1D6)"

fun state_after :: "(nat \<Rightarrow> u32) \<Rightarrow> regs \<Rightarrow> nat \<Rightarrow> regs" where
  "state_after w r 0 = r"
| "state_after w r (Suc t) = (case state_after w r t of (a, b, c, d, e) \<Rightarrow>
     (CircularShift 5 a + round_fun t b c d + e + w t + round_const t, a, CircularShift 30 b, c, d))"

definition compress :: "(u32 \<Rightarrow> u32) \<Rightarrow> (bytes \<Rightarrow> nat \<Rightarrow> u32) \<Rightarrow> u32 list \<Rightarrow> bytes \<Rightarrow> u32 list" where
  "compress sh b H M = add_regs H (state_after (wseq sh (b M)) (regs_of H) 80)"

definition be_word :: "bytes \<Rightarrow> nat \<Rightarrow> u32" where
  "be_word M t = of_le32 (rev (take 4 (drop (4 * t) M)))"

definition le_word :: "bytes \<Rightarrow> nat \<Rightarrow> u32" where
  "le_word M t = of_le32 (take 4 (drop (4 * t) M))"

definition compress1 :: "u32 list \<Rightarrow> bytes \<Rightarrow> u32 list" where
  "compress1 = compress (CircularShift 1) be_word"

definition compressB :: "u32 list \<Rightarrow> bytes \<Rightarrow> u32 list" where
  "compressB = compress (\<lambda>x. 2 ^ (unat x mod 32)) le_word"

text \<open>The whole blocks of a message, compressed in order, and what is left of it.\<close>

function absorb :: "(u32 list \<Rightarrow> bytes \<Rightarrow> u32 list) \<Rightarrow> u32 list \<Rightarrow> bytes \<Rightarrow> u32 list" where
  "absorb f H m = (if length m < 64 then H else absorb f (f H (take 64 m)) (drop 64 m))"
  by pat_completeness auto
termination by (relation "measure (\<lambda>(f, H, m). length m)") auto

declare absorb.simps [simp del]

definition leftover :: "bytes \<Rightarrow> bytes" where
  "leftover m = drop (64 * (length m div 64)) m"

definition sha1_pad :: "bytes \<Rightarrow> bytes" where
  "sha1_pad m = m @ [0x80] @ replicate ((119 - length m mod 64) mod 64) 0
     @ rev (le64 (word_of_nat (8 * length m)))"

definition sha1 :: "bytes \<Rightarrow> bytes" where
  "sha1 m = concat (map (\<lambda>x. rev (le32 x)) (absorb compress1 H0 (sha1_pad m)))"

definition bsha1 :: "bytes \<Rightarrow> bytes" where
  "bsha1 m = concat (map (\<lambda>x. rev (le32 x))
     (compressB (absorb compressB H0 m) (leftover m @ replicate (64 - length (leftover m)) 0)))"

section \<open>The block functions compute the reference compression\<close>

lemma fill_wseq:
  "16 \<le> n \<Longrightarrow>
    fold (\<lambda>t W. W @ [sh (W ! (t - 3) XOR W ! (t - 8) XOR W ! (t - 14) XOR W ! (t - 16))])
      [16..<n] (map b [0..<16]) = map (wseq sh b) [0..<n]"
proof (induction n rule: nat_induct_at_least)
  case base
  show ?case by (simp add: wseq.simps)
next
  case (Suc n)
  then show ?case by (simp add: wseq.simps [of sh b n])
qed

lemma fold_rounds:
  assumes "\<And>t. m \<le> t \<Longrightarrow> t < n \<Longrightarrow> f = round_fun t \<and> k = round_const t" and "m \<le> n" and "n \<le> 80"
  shows "fold (round_step f k (map w [0..<80])) [m..<n] (state_after w r m) = state_after w r n"
  using assms(2,1,3)
proof (induction n rule: nat_induct_at_least)
  case base
  show ?case by simp
next
  case (Suc n)
  from Suc.prems(1) [of n] Suc.hyps have fk: "f = round_fun n" "k = round_const n" by simp_all
  have "fold (round_step f k (map w [0..<80])) [m..<n] (state_after w r m) = state_after w r n"
    by (rule Suc.IH) (use Suc.prems in simp_all)
  then have "fold (round_step f k (map w [0..<80])) [m..<Suc n] (state_after w r m)
      = round_step f k (map w [0..<80]) n (state_after w r n)"
    using Suc.hyps by simp
  also have "\<dots> = state_after w r (Suc n)"
    using Suc.prems(2) by (simp add: fk round_step_def Let_def nth_append split: prod.splits)
  finally show ?case .
qed

lemma round_table:
  "t < 20 \<Longrightarrow> (\<lambda>B C D. (B AND C) OR (NOT B AND D)) = round_fun t \<and> K ! 0 = round_const t"
  "20 \<le> t \<Longrightarrow> t < 40 \<Longrightarrow> (\<lambda>B C D. B XOR C XOR D) = round_fun t \<and> K ! 1 = round_const t"
  "40 \<le> t \<Longrightarrow> t < 60 \<Longrightarrow>
     (\<lambda>B C D. (B AND C) OR (B AND D) OR (C AND D)) = round_fun t \<and> K ! 2 = round_const t"
  "60 \<le> t \<Longrightarrow> (\<lambda>B C D. B XOR C XOR D) = round_fun t \<and> K ! 3 = round_const t"
  by (simp_all add: round_fun_def round_const_def K_def fun_eq_iff)

lemma rounds_state: "rounds (map w [0..<80]) r = state_after w r 80"
proof -
  let ?W = "map w [0..<80]"
  have "fold (round_step (\<lambda>B C D. (B AND C) OR (NOT B AND D)) (K ! 0) ?W) [0..<20] (state_after w r 0)
      = state_after w r 20"
    by (rule fold_rounds) (rule round_table(1), assumption+, simp_all)
  then have 1: "fold (round_step (\<lambda>B C D. (B AND C) OR (NOT B AND D)) (K ! 0) ?W) [0..<20] r
      = state_after w r 20" by (simp only: state_after.simps)
  have 2: "fold (round_step (\<lambda>B C D. B XOR C XOR D) (K ! 1) ?W) [20..<40] (state_after w r 20)
      = state_after w r 40"
    by (rule fold_rounds) (rule round_table(2), assumption+, simp_all)
  have 3: "fold (round_step (\<lambda>B C D. (B AND C) OR (B AND D) OR (C AND D)) (K ! 2) ?W)
      [40..<60] (state_after w r 40) = state_after w r 60"
    by (rule fold_rounds) (rule round_table(3), assumption+, simp_all)
  have 4: "fold (round_step (\<lambda>B C D. B XOR C XOR D) (K ! 3) ?W) [60..<80] (state_after w r 60)
      = state_after w r 80"
    by (rule fold_rounds) (rule round_table(4), assumption+, simp_all)
  show ?thesis unfolding rounds_def 1 2 3 Let_def by (rule 4)
qed

lemma length_compress [simp]: "length (compress sh b H M) = 5"
  by (simp add: compress_def add_regs_def split: prod.splits)

lemma compress_cong: "(\<And>t. t < 16 \<Longrightarrow> b M t = b' M' t) \<Longrightarrow> compress sh b H M = compress sh b' H M'"
proof -
  assume *: "\<And>t. t < 16 \<Longrightarrow> b M t = b' M' t"
  have "wseq sh (b M) t = wseq sh (b' M') t" for t
  proof (induction t rule: less_induct)
    case (less t)
    then show ?case using * by (simp add: wseq.simps [of sh _ t])
  qed
  then have "wseq sh (b M) = wseq sh (b' M')" by (rule ext)
  then show ?thesis by (simp add: compress_def)
qed

lemma take4_drop: "i + 4 \<le> length M \<Longrightarrow> take 4 (drop i M) = [M ! i, M ! (i + 1), M ! (i + 2), M ! (i + 3)]"
  by (rule nth_equalityI) (auto simp: less_Suc_eq numeral_eq_Suc)

lemma or_shifts_be:
  "(push_bit 24 (ucast a) OR push_bit 16 (ucast b) OR push_bit 8 (ucast c) OR ucast d :: u32)
     = of_le32 [d, c, b, a]" for a b c d :: u8
proof -
  let ?x = "push_bit 24 (ucast a) OR push_bit 16 (ucast b) OR push_bit 8 (ucast c) OR ucast d :: u32"
  have "le32 ?x = [d, c, b, a]"
    unfolding le32_bytes
    by (simp only: list.inject, intro conjI refl byte_bit_cases; simp add: bit_simps)
  then have "of_le32 (le32 ?x) = of_le32 [d, c, b, a]" by (rule arg_cong)
  then show ?thesis by simp
qed

lemma SHA1_W_wseq:
  assumes "length M = 64"
  shows "SHA1_W M = map (wseq (CircularShift 1) (be_word M)) [0..<80]"
proof -
  have "push_bit 24 (ucast (M ! (t * 4))) OR push_bit 16 (ucast (M ! (t * 4 + 1)))
      OR push_bit 8 (ucast (M ! (t * 4 + 2))) OR ucast (M ! (t * 4 + 3)) = be_word M t" if "t < 16" for t
    using that assms take4_drop [of "4 * t" M]
    by (simp add: be_word_def or_shifts_be mult.commute [of t])
  then have "map (\<lambda>t. push_bit 24 (ucast (M ! (t * 4))) OR push_bit 16 (ucast (M ! (t * 4 + 1)))
      OR push_bit 8 (ucast (M ! (t * 4 + 2))) OR ucast (M ! (t * 4 + 3))) [0..<16]
      = map (be_word M) [0..<16]"
    by (intro map_cong) simp_all
  then show ?thesis unfolding SHA1_W_def by (simp only: fill_wseq)
qed

lemma mod32_neg: "unat (32 - x) mod 32 = (32 - unat x mod 32) mod 32" for x :: u32
proof -
  define q r where "q = unat x div 32" and "r = unat x mod 32"
  have u: "unat x = 32 * q + r" and r: "r < 32" by (simp_all add: q_def r_def)
  have b: "unat x < 4294967296" by (rule unat_bound)
  have "unat (32 - x) = (if unat x \<le> 32 then 32 - unat x else 4294967328 - unat x)"
    using b by (simp add: unat_sub_if')
  also have "\<dots> mod 32 = (32 - r) mod 32"
  proof (cases "r = 0")
    case True
    then have "4294967328 - unat x = 32 * (134217729 - q)" and "32 - unat x = 32 * (1 - q)"
      using u by (simp_all add: diff_mult_distrib2)
    then show ?thesis using True by simp
  next
    case False
    show ?thesis
    proof (cases "unat x \<le> 32")
      case le: True
      then have "q = 0" using u False by simp
      then show ?thesis using le u by simp
    next
      case gt: False
      have "4294967328 - unat x = (32 - r) + 32 * (134217728 - q)"
        using u b r by (simp add: diff_mult_distrib2)
      then show ?thesis using gt by simp
    qed
  qed
  finally show ?thesis by (simp add: r_def)
qed

lemma shift_one_eq: "shift_one x = 2 ^ (unat x mod 32)"
proof -
  have m: "unat (y AND 31) = unat y mod 32" for y :: u32
  proof -
    have "(31 :: u32) = mask 5" by (simp add: mask_eq_exp_minus_1)
    then have "y AND 31 = take_bit 5 y" by (simp only: take_bit_eq_mask)
    then show ?thesis by (simp only: unsigned_take_bit_eq take_bit_eq_mod [of 5 "unat y"]) simp
  qed
  have d: "drop_bit n (1 :: u32) = (if n = 0 then 1 else 0)" for n
    by (cases n) (simp_all add: drop_bit_Suc)
  show ?thesis
  proof (cases "unat x mod 32 = 0")
    case True
    then show ?thesis unfolding shift_one_def m mod32_neg d by simp
  next
    case False
    then have "(32 - unat x mod 32) mod 32 \<noteq> 0" by simp
    then show ?thesis unfolding shift_one_def m mod32_neg d by (simp add: push_bit_eq_mult)
  qed
qed

lemma BSHA1_W_wseq:
  assumes "length M = 64" and "idx \<le> 64"
  shows "BSHA1_W M idx =
    map (wseq (\<lambda>x. 2 ^ (unat x mod 32)) (le_word (take idx M @ replicate (64 - idx) 0))) [0..<80]"
proof -
  have "(16::nat) \<le> 80" by simp
  from fill_wseq [OF this] show ?thesis
    unfolding BSHA1_W_def Let_def shift_one_eq le_word_def mult.commute [of 4] by (rule trans) (rule refl)
qed

section \<open>Absorbing a message\<close>

lemma absorb_short: "length m < 64 \<Longrightarrow> absorb f H m = H"
  by (simp add: absorb.simps)

lemma absorb_append: "length a = 64 * k \<Longrightarrow> absorb f H (a @ b) = absorb f (absorb f H a) b"
proof (induction k arbitrary: H a)
  case 0
  then show ?case by (simp add: absorb_short)
next
  case (Suc k)
  then have "absorb f H (a @ b) = absorb f (f H (take 64 a)) (drop 64 a @ b)"
    and "absorb f H a = absorb f (f H (take 64 a)) (drop 64 a)"
    by (simp_all add: absorb.simps [of f H])
  with Suc show ?case by simp
qed

lemma absorb_block: "length a = 64 * k \<Longrightarrow> length b = 64 \<Longrightarrow> absorb f H (a @ b) = f (absorb f H a) b"
  by (simp add: absorb_append absorb.simps [of f _ b] absorb_short)

text \<open>A message is its whole blocks followed by \<open>leftover\<close>; one more byte moves the boundary.\<close>

definition whole :: "bytes \<Rightarrow> bytes" where
  "whole m = take (64 * (length m div 64)) m"

lemma whole_leftover: "whole m @ leftover m = m"
  by (simp add: whole_def leftover_def)

lemma length_whole: "length (whole m) = 64 * (length m div 64)"
  by (simp add: whole_def)

lemma length_leftover [simp]: "length (leftover m) = length m mod 64"
  by (simp add: leftover_def minus_mult_div_eq_mod)

lemma absorb_whole: "absorb f H m = absorb f H (whole m)"
proof -
  have "absorb f H (whole m @ leftover m) = absorb f H (whole m)"
    by (simp add: absorb_append [OF length_whole] absorb_short)
  then show ?thesis by (simp add: whole_leftover)
qed

lemma leftover_append: "length (whole m @ a) div 64 = length m div 64 + length a div 64"
  by (simp add: length_whole)

lemma leftover_whole_append: "length a < 64 \<Longrightarrow> leftover (whole m @ a) = a"
  by (simp add: leftover_def length_whole)

lemma append_byte_short:
  assumes "length m mod 64 \<noteq> 63"
  shows "leftover (m @ [b]) = leftover m @ [b]" and "absorb f H (m @ [b]) = absorb f H m"
proof -
  have "length m mod 64 < 64" by simp
  then have l: "length (leftover m @ [b]) < 64" using assms by simp
  have m: "m @ [b] = whole m @ (leftover m @ [b])" by (simp add: whole_leftover [symmetric])
  show "leftover (m @ [b]) = leftover m @ [b]"
    unfolding m by (rule leftover_whole_append [OF l])
  show "absorb f H (m @ [b]) = absorb f H m"
    unfolding m absorb_append [OF length_whole] absorb_short [OF l] by (rule absorb_whole [symmetric])
qed

lemma append_byte_full:
  assumes "length m mod 64 = 63"
  shows "leftover (m @ [b]) = []" and "absorb f H (m @ [b]) = f (absorb f H m) (leftover m @ [b])"
proof -
  have m: "m @ [b] = whole m @ (leftover m @ [b])" by (simp add: whole_leftover [symmetric])
  have "length (leftover (m @ [b])) = 0" using assms by (simp add: mod_Suc)
  then show "leftover (m @ [b]) = []" by (simp only: length_0_conv)
  show "absorb f H (m @ [b]) = f (absorb f H m) (leftover m @ [b])"
    unfolding m absorb_whole [of f H m] by (rule absorb_block [OF length_whole]) (simp add: assms)
qed

section \<open>The buffering code over any block function\<close>

text \<open>\<open>sha_rep f c m\<close>: the context holds what has been fed so far, the message \<open>m\<close>.\<close>

definition sha_rep :: "(u32 list \<Rightarrow> bytes \<Rightarrow> u32 list) \<Rightarrow> sha_ctx \<Rightarrow> bytes \<Rightarrow> bool" where
  "sha_rep f c m \<longleftrightarrow> sha_ok c \<and> Computed c = 0 \<and> Corrupted c = 0
     \<and> Intermediate_Hash c = absorb f H0 m \<and> Message_Block_Index c = length m mod 64
     \<and> take (length m mod 64) (Message_Block c) = leftover m
     \<and> unat (Length_Low c) + 2 ^ 32 * unat (Length_High c) = 8 * length m"

lemma sha_rep_Reset:
  "length (Message_Block c) = 64 \<Longrightarrow> \<exists>c'. sha_Reset (Some c) = (shaSuccess, Some c') \<and> sha_rep f c' []"
  by (simp add: sha_Reset_def sha_rep_def sha_ok_def H0_def absorb_short leftover_def)

text \<open>The 64-bit bit counter: adding 8 to the low word, with its carry into the high word.\<close>

lemma length_carry:
  fixes l h :: u32
  assumes "unat l + 2 ^ 32 * unat h = 8 * n" and "8 * Suc n < 2 ^ 64"
  shows "l + 8 = 0 \<Longrightarrow> h + 1 \<noteq> 0 \<and> unat (l + 8) + 2 ^ 32 * unat (h + 1) = 8 * Suc n"
    and "l + 8 \<noteq> 0 \<Longrightarrow> unat (l + 8) + 2 ^ 32 * unat h = 8 * Suc n"
proof -
  have l: "unat l < 4294967296" and h: "unat h < 4294967296" using unat_bound(3) by simp_all
  have wrap: "x < 4294967296 \<Longrightarrow> k \<le> 8 \<Longrightarrow> (x + k) mod 4294967296 =
      (if x + k < 4294967296 then x + k else x + k - 4294967296)" for x k :: nat
    by (simp add: mod_if)
  have l8: "unat (l + 8) = (if unat l + 8 < 4294967296 then unat l + 8 else unat l + 8 - 4294967296)"
    and h1: "unat (h + 1) = (if unat h + 1 < 4294967296 then unat h + 1 else unat h + 1 - 4294967296)"
    using wrap [OF l, of 8] wrap [OF h, of 1] by (simp_all add: unat_word_ariths)
  have n: "unat l + 4294967296 * unat h = 8 * n" "8 * Suc n < 18446744073709551616"
    using assms by simp_all
  then have "8 dvd unat l" by presburger
  then have d: "unat l + 8 \<le> 4294967296" using l by presburger
  {
    assume "l + 8 = 0"
    then have "unat (l + 8) = 0" by simp
    then have "unat l + 8 = 4294967296" using l8 d by (auto split: if_splits)
    moreover from this n have "unat h + 1 < 4294967296" by simp
    ultimately have "unat (h + 1) = unat h + 1 \<and> unat (l + 8) + 4294967296 * unat (h + 1) = 8 * Suc n"
      using n(1) l8 h1 by simp
    then show "h + 1 \<noteq> 0 \<and> unat (l + 8) + 2 ^ 32 * unat (h + 1) = 8 * Suc n" by auto
  next
    assume "l + 8 \<noteq> 0"
    then have "unat (l + 8) \<noteq> 0" by (simp only: unat_eq_zero not_False_eq_True)
    then have "unat l + 8 < 4294967296" using l8 d by (auto split: if_splits)
    then show "unat (l + 8) + 2 ^ 32 * unat h = 8 * Suc n" using n(1) l8 by simp
  }
qed

text \<open>The contract of a block function: what it does to a full block.\<close>

locale block_hash =
  fixes proc :: "sha_ctx \<Rightarrow> sha_ctx"
    and f :: "u32 list \<Rightarrow> bytes \<Rightarrow> u32 list"
  assumes proc_full: "length (Message_Block c) = 64 \<Longrightarrow> Message_Block_Index c = 64 \<Longrightarrow>
      proc c = c\<lparr>Intermediate_Hash := f (Intermediate_Hash c) (Message_Block c), Message_Block_Index := 0\<rparr>"
    and length_f: "length (f H M) = 5"
begin

lemma rep_byte:
  assumes "sha_rep f c m" and "8 * Suc (length m) < 2 ^ 64"
  shows "sha_rep f (input_byte proc c b) (m @ [b])"
proof -
  let ?i = "length m mod 64"
  from assms(1) have i: "?i < 64" "Message_Block_Index c = ?i" "length (Message_Block c) = 64"
    and t: "take ?i (Message_Block c) = leftover m"
    and cnt: "unat (Length_Low c) + 2 ^ 32 * unat (Length_High c) = 8 * length m"
    by (simp_all add: sha_rep_def sha_ok_def)
  have b: "b AND 0xFF = b"
  proof -
    have "(0xFF :: u8) = -1" by simp
    then show ?thesis by (simp only: and.right_neutral)
  qed
  have tk: "take (Suc ?i) ((Message_Block c)[?i := b]) = leftover m @ [b]"
    using i t by (simp add: take_Suc_conv_app_nth)
  note carry = length_carry [OF cnt assms(2)]
  define c2 where "c2 = (let c1 = c\<lparr>Message_Block := (Message_Block c)[?i := b],
      Message_Block_Index := ?i + 1, Length_Low := Length_Low c + 8\<rparr>
    in if Length_Low c1 = 0 then c1\<lparr>Length_High := Length_High c1 + 1\<rparr> else c1)"
  have c2: "input_byte proc c b = (if Message_Block_Index c2 = 64 then proc c2 else c2)"
    using carry(1) i by (simp add: input_byte_def c2_def b Let_def)
  have c2_fields: "Message_Block c2 = (Message_Block c)[?i := b]" "Message_Block_Index c2 = ?i + 1"
      "Intermediate_Hash c2 = Intermediate_Hash c" "Computed c2 = Computed c" "Corrupted c2 = Corrupted c"
      "unat (Length_Low c2) + 2 ^ 32 * unat (Length_High c2) = 8 * Suc (length m)"
    using carry by (simp_all add: c2_def Let_def)
  show ?thesis
  proof (cases "?i = 63")
    case True
    then have full: "(Message_Block c)[63 := b] = leftover m @ [b]" using tk i by simp
    have "input_byte proc c b = c2\<lparr>Intermediate_Hash := f (absorb f H0 m) (leftover m @ [b]),
        Message_Block_Index := 0\<rparr>"
      using c2 proc_full [of c2] assms(1) i True
      by (simp add: c2_fields full sha_rep_def)
    then show ?thesis
      using assms(1) i True append_byte_full [OF True, where b = b] c2_fields(6)
      by (simp add: sha_rep_def sha_ok_def c2_fields length_f mod_Suc)
  next
    case False
    then have s: "Suc (length m) mod 64 = Suc ?i" using i(1) by (simp add: mod_Suc)
    have lt: "length m mod 64 < 63" using i(1) False by linarith
    have len: "length (absorb f H0 m) = 5" using assms(1) by (metis sha_rep_def sha_ok_def)
    have "input_byte proc c b = c2" using c2 False i(1) by (simp add: c2_fields)
    then show ?thesis
      using assms(1) i False append_byte_short [OF False, where b = b] tk s c2_fields(6) lt len
      by (simp add: sha_rep_def sha_ok_def c2_fields)
  qed
qed

lemma rep_loop:
  "sha_rep f c m \<Longrightarrow> 8 * (length m + length bs) < 2 ^ 64 \<Longrightarrow> sha_rep f (input_loop proc c bs) (m @ bs)"
proof (induction bs arbitrary: c m)
  case Nil
  then show ?case by simp
next
  case (Cons b bs)
  have "sha_rep f (input_byte proc c b) (m @ [b])" using Cons.prems by (intro rep_byte) simp_all
  moreover have "Corrupted c = 0" using Cons.prems(1) by (simp add: sha_rep_def)
  ultimately show ?case using Cons.IH [of "input_byte proc c b" "m @ [b]"] Cons.prems(2) by simp
qed

lemma rep_Input:
  assumes "sha_rep f c m" and "8 * (length m + length p) < 2 ^ 64" and "length p < 2 ^ 32"
  shows "\<exists>c'. sha_Input proc (Some c) (Some p) (word_of_nat (length p)) = (shaSuccess, Some c')
     \<and> sha_rep f c' (m @ p)"
proof -
  have l: "unat (word_of_nat (length p) :: u32) = length p" using assms(3) by (simp add: unat_of_nat)
  have "sha_rep f (input_loop proc c p) (m @ p)" using assms(1,2) by (rule rep_loop)
  moreover have "(word_of_nat (length p) :: u32) = 0 \<longleftrightarrow> p = []" using l by (metis length_0_conv unat_eq_zero)
  ultimately show ?thesis using assms(1) l by (simp add: sha_Input_def sha_rep_def)
qed

end

interpretation s1: block_hash SHA1ProcessMessageBlock compress1
  by unfold_locales
    (simp_all add: SHA1ProcessMessageBlock_def SHA1_W_wseq rounds_state compress1_def compress_def
      Let_def del: upt_rec_numeral, simp add: add_regs_def split: prod.splits)

interpretation bs: block_hash BSHA1ProcessMessageBlock compressB
  by unfold_locales
    (simp_all add: BSHA1ProcessMessageBlock_def BSHA1_W_wseq rounds_state compressB_def compress_def
      Let_def del: upt_rec_numeral, simp add: add_regs_def split: prod.splits)

section \<open>Padding and the digest\<close>

lemma digest_bytes_eq: "length H = 5 \<Longrightarrow> digest_bytes H = concat (map (\<lambda>x. rev (le32 x)) H)"
proof -
  assume "length H = 5"
  then obtain a b c d e where H: "H = [a, b, c, d, e]"
    by (auto simp: numeral_eq_Suc length_Suc_conv)
  show ?thesis unfolding H digest_bytes_def le32_bytes by (simp add: upt_rec)
qed

lemma zero_to_eq:
  "Message_Block_Index c \<le> n \<Longrightarrow> n \<le> length (Message_Block c) \<Longrightarrow>
    zero_to n c = c\<lparr>Message_Block := take (Message_Block_Index c) (Message_Block c)
        @ replicate (n - Message_Block_Index c) 0 @ drop n (Message_Block c),
      Message_Block_Index := n\<rparr>"
proof (induction n c rule: zero_to.induct)
  case (1 n c)
  let ?i = "Message_Block_Index c"
  show ?case
  proof (cases "?i < n")
    case True
    then have "take (Suc ?i) ((Message_Block c)[?i := 0]) = take ?i (Message_Block c) @ [0]"
      using "1.prems" by (simp add: take_Suc_conv_app_nth)
    moreover have "replicate (n - ?i) (0::u8) = 0 # replicate (n - Suc ?i) 0"
      using True by (metis Suc_diff_Suc replicate_Suc)
    ultimately show ?thesis using 1 True by (simp add: zero_to.simps [of n c])
  next
    case False
    then show ?thesis using "1.prems" by (simp add: zero_to.simps [of n c])
  qed
qed

lemma length_8: "length xs = 8 \<Longrightarrow> \<exists>a b c d e f g h. xs = [a, b, c, d, e, f, g, h]"
  by (auto simp: numeral_eq_Suc length_Suc_conv)

lemma store_length_block:
  assumes "length (Message_Block c) = 64"
  shows "store_length c = c\<lparr>Message_Block := take 56 (Message_Block c)
    @ rev (le32 (Length_High c)) @ rev (le32 (Length_Low c))\<rparr>"
proof -
  have "length (drop 56 (Message_Block c)) = 8" using assms by simp
  from length_8 [OF this] obtain x0 x1 x2 x3 x4 x5 x6 x7
    where "drop 56 (Message_Block c) = [x0, x1, x2, x3, x4, x5, x6, x7]" by blast
  then have "Message_Block c = take 56 (Message_Block c) @ [x0, x1, x2, x3, x4, x5, x6, x7]"
    by (metis append_take_drop_id)
  moreover have "length (take 56 (Message_Block c)) = 56" using assms by simp
  ultimately obtain t where t: "Message_Block c = t @ [x0, x1, x2, x3, x4, x5, x6, x7]" "length t = 56"
    by blast
  then show ?thesis by (simp add: store_length_def Let_def list_update_append le32_bytes)
qed

lemma le_nat_append: "le_nat (m + n) x = le_nat m x @ le_nat n (x div 256 ^ m)"
  by (induction m arbitrary: x) (simp_all add: div_mult2_eq)

lemma le_nat_mod: "le_nat n (x mod 256 ^ n) = le_nat n x"
  using le_of_le_nat [of "le_nat n x" n] by (simp add: of_le_le_nat)

lemma length_field:
  fixes l h :: u32
  assumes "unat l + 2 ^ 32 * unat h = 8 * n" and "8 * n < 2 ^ 64"
  shows "rev (le64 (word_of_nat (8 * n))) = rev (le32 h) @ rev (le32 l)"
proof -
  have "unat l < 256 ^ 4" using unat_bound(3) [of l] by simp
  then have lo: "8 * n mod 256 ^ 4 = unat l" and hi: "8 * n div 256 ^ 4 = unat h"
    unfolding assms(1) [symmetric] by simp_all
  have "x < 2 ^ 64 \<Longrightarrow> le64 (word_of_nat x) = le_nat (4 + 4) x" for x
    by (simp add: le64_def unat_of_nat)
  from this [OF assms(2)] have "le64 (word_of_nat (8 * n)) = le_nat (4 + 4) (8 * n)" .
  also have "\<dots> = le32 l @ le32 h"
    unfolding le_nat_append hi le_nat_mod [of 4 "8 * n", symmetric] lo by (simp add: le32_def)
  finally show ?thesis by simp
qed

lemma pad_whole:
  "sha1_pad m = whole m @ leftover m @ [0x80] @ replicate ((119 - length m mod 64) mod 64) 0
     @ rev (le64 (word_of_nat (8 * length m)))"
  by (metis append.assoc sha1_pad_def whole_leftover)

lemma proc1:
  "length (Message_Block c) = 64 \<Longrightarrow> SHA1ProcessMessageBlock c =
     c\<lparr>Intermediate_Hash := compress1 (Intermediate_Hash c) (Message_Block c), Message_Block_Index := 0\<rparr>"
  by (simp add: SHA1ProcessMessageBlock_def SHA1_W_wseq rounds_state compress1_def compress_def
      Let_def del: upt_rec_numeral)

lemma SHA1PadMessage_hash:
  assumes "sha_rep compress1 c m" and "8 * length m < 2 ^ 64"
  shows "Intermediate_Hash (SHA1PadMessage c) = absorb compress1 H0 (sha1_pad m)"
proof -
  let ?l = "leftover m" and ?i = "length m mod 64"
  let ?n = "rev (le32 (Length_High c)) @ rev (le32 (Length_Low c))"
  from assms(1) have i: "?i < 64" "Message_Block_Index c = ?i" "length (Message_Block c) = 64"
    and t: "take ?i (Message_Block c) = ?l" and h: "Intermediate_Hash c = absorb compress1 H0 m"
    and cnt: "unat (Length_Low c) + 2 ^ 32 * unat (Length_High c) = 8 * length m"
    by (simp_all add: sha_rep_def sha_ok_def)
  note len = length_field [OF cnt assms(2)]
  have t80: "take (Suc ?i) ((Message_Block c)[?i := 0x80]) = ?l @ [0x80]"
    using i t by (simp add: take_Suc_conv_app_nth)
  show ?thesis
  proof (cases "?i > 55")
    case False
    let ?B = "?l @ [0x80] @ replicate (55 - ?i) 0 @ ?n"
    have "56 - ?i = Suc (55 - ?i)" using False by simp
    then have "Intermediate_Hash (SHA1PadMessage c) = compress1 (absorb compress1 H0 m) ?B"
      using False i t80 h by (simp add: SHA1PadMessage_def put_0x80_def zero_to_eq store_length_block proc1)
    moreover have "(119 - ?i) mod 64 = 55 - ?i"
      using False by (simp add: le_mod_geq)
    then have "sha1_pad m = whole m @ ?B" unfolding pad_whole len by simp
    ultimately show ?thesis
      using False absorb_block [OF length_whole, of ?B] by (simp add: absorb_whole [of _ _ m])
  next
    case True
    let ?B1 = "?l @ [0x80] @ replicate (63 - ?i) 0" and ?B2 = "replicate 56 0 @ ?n"
    have "Intermediate_Hash (SHA1PadMessage c) = compress1 (compress1 (absorb compress1 H0 m) ?B1) ?B2"
      using True i t80 h by (simp add: SHA1PadMessage_def put_0x80_def zero_to_eq store_length_block proc1)
    moreover have "(119 - ?i) mod 64 = 119 - ?i" using True i(1) by simp
    then have "replicate ((119 - ?i) mod 64) (0::u8) = replicate (63 - ?i) 0 @ replicate 56 0"
      using i(1) by (simp flip: replicate_add)
    then have "sha1_pad m = (whole m @ ?B1) @ ?B2" unfolding pad_whole len by simp
    moreover have "absorb compress1 H0 ((whole m @ ?B1) @ ?B2) = compress1 (absorb compress1 H0 (whole m @ ?B1)) ?B2"
      using i(1) by (intro absorb_block [where k = "length m div 64 + 1"]) (simp_all add: length_whole)
    moreover have "absorb compress1 H0 (whole m @ ?B1) = compress1 (absorb compress1 H0 (whole m)) ?B1"
      using i(1) by (intro absorb_block [OF length_whole]) simp
    ultimately show ?thesis by (simp add: absorb_whole [of _ _ m])
  qed
qed

lemma length_absorb: "(\<And>H M. length (f H M) = n) \<Longrightarrow> length H = n \<Longrightarrow> length (absorb f H m) = n"
  by (induction f H m rule: absorb.induct) (simp add: absorb.simps)

lemma length_words: "length (concat (map (\<lambda>x. rev (le32 x)) H)) = 4 * length H"
  by (induction H) simp_all

lemma length_sha1 [simp]: "length (sha1 m) = 20"
  using length_absorb [of compress1 5 H0 "sha1_pad m"] by (simp add: sha1_def length_words s1.length_f H0_def)

lemma length_bsha1 [simp]: "length (bsha1 m) = 20"
  by (simp add: bsha1_def length_words bs.length_f)

section \<open>Hashing a message in pieces\<close>

text \<open>A caller's sequence: reset a context, feed the pieces in order, take the result.\<close>

fun feed :: "(sha_ctx option \<Rightarrow> bytes option \<Rightarrow> u32 \<Rightarrow> int \<times> sha_ctx option) \<Rightarrow> sha_ctx option \<Rightarrow>
    bytes list \<Rightarrow> sha_ctx option" where
  "feed input c [] = c"
| "feed input c (p # ps) = feed input (snd (input c (Some p) (word_of_nat (length p)))) ps"

context block_hash
begin

lemma rep_feed:
  "sha_rep f c m \<Longrightarrow> 8 * (length m + length (concat ps)) < 2 ^ 64 \<Longrightarrow> (\<And>p. p \<in> set ps \<Longrightarrow> length p < 2 ^ 32)
    \<Longrightarrow> \<exists>c'. feed (sha_Input proc) (Some c) ps = Some c' \<and> sha_rep f c' (m @ concat ps)"
proof (induction ps arbitrary: c m)
  case Nil
  then show ?case by simp
next
  case (Cons p ps)
  have "length p < 2 ^ 32" using Cons.prems(3) by simp
  then obtain c1 where 1: "sha_Input proc (Some c) (Some p) (word_of_nat (length p)) = (shaSuccess, Some c1)"
    and r1: "sha_rep f c1 (m @ p)"
    using rep_Input [OF Cons.prems(1), of p] Cons.prems(2) by auto
  obtain c' where "feed (sha_Input proc) (Some c1) ps = Some c'" "sha_rep f c' ((m @ p) @ concat ps)"
    using Cons.IH [OF r1] Cons.prems(2,3) by (auto simp: add.assoc)
  then show ?case using 1 by simp
qed

end

lemma SHA1_digest:
  assumes "length (Message_Block c0) = 64"
    and "\<forall>p\<in>set ps. length p < 2 ^ 32" and "8 * length (concat ps) < 2 ^ 64"
  shows "\<exists>c. SHA1Result (feed SHA1Input (snd (SHA1Reset (Some c0))) ps) (Some d)
     = (shaSuccess, Some c, Some (sha1 (concat ps)))"
proof -
  obtain c1 where "SHA1Reset (Some c0) = (shaSuccess, Some c1)" and "sha_rep compress1 c1 []"
    using sha_rep_Reset [OF assms(1)] unfolding SHA1Reset_def by blast
  moreover from this(2) obtain c2 where "feed SHA1Input (Some c1) ps = Some c2"
    and r: "sha_rep compress1 c2 (concat ps)"
    using s1.rep_feed [of c1 "[]" ps] assms(2,3) unfolding SHA1Input_def by auto
  moreover have "length (absorb compress1 H0 (sha1_pad (concat ps))) = 5"
    by (rule length_absorb) (simp_all add: s1.length_f H0_def)
  ultimately show ?thesis
    using r SHA1PadMessage_hash [OF r assms(3)]
    by (simp add: SHA1Result_def sha_Result_def sha_rep_def sha1_def digest_bytes_eq Let_def)
qed

text \<open>
  C1. SHA-1 as the server computes it (reset, any sequence of inputs, result) returns success
  and the SHA-1 digest of the concatenated pieces, whatever the context held before, for
  messages of less than \<open>2 ^ 64\<close> bits.
\<close>

theorem SHA1_correct:
  assumes "length (Message_Block c0) = 64"
    and "\<forall>p\<in>set ps. length p < 2 ^ 32" and "8 * length (concat ps) < 2 ^ 64"
  shows "\<exists>c. SHA1Result (feed SHA1Input (snd (SHA1Reset (Some c0))) ps) (Some d)
     = (shaSuccess, Some c, Some (sha1 (concat ps)))"
  by (rule SHA1_digest [OF assms])

definition blank_ctx :: sha_ctx where
  "blank_ctx = \<lparr>Intermediate_Hash = [], Length_Low = 0, Length_High = 0, Message_Block_Index = 0,
     Message_Block = replicate 64 0, Computed = 0, Corrupted = 0\<rparr>"

theorem SHA1_correct_witness:
  "\<exists>c. SHA1Result (feed SHA1Input (snd (SHA1Reset (Some blank_ctx)))
       [map byte_of ''ab'', map byte_of ''c'']) (Some [])
     = (shaSuccess, Some c, Some (sha1 (map byte_of ''abc'')))"
  using SHA1_correct [of blank_ctx "[map byte_of ''ab'', map byte_of ''c'']" "[]"]
  by (simp add: blank_ctx_def)

lemma BSHA1_digest:
  assumes "length (Message_Block c0) = 64"
    and "\<forall>p\<in>set ps. length p < 2 ^ 32" and "8 * length (concat ps) < 2 ^ 64"
  shows "\<exists>c. BSHA1Result (feed BSHA1Input (snd (BSHA1Reset (Some c0))) ps) (Some d)
     = (shaSuccess, Some c, Some (bsha1 (concat ps)))"
proof -
  let ?m = "concat ps"
  obtain c1 where "BSHA1Reset (Some c0) = (shaSuccess, Some c1)" and "sha_rep compressB c1 []"
    using sha_rep_Reset [OF assms(1)] unfolding BSHA1Reset_def by blast
  moreover from this(2) obtain c2 where "feed BSHA1Input (Some c1) ps = Some c2"
    and r: "sha_rep compressB c2 ?m"
    using bs.rep_feed [of c1 "[]" ps] assms(2,3) unfolding BSHA1Input_def by auto
  moreover have "Intermediate_Hash (BSHA1PadMessage c2) = compressB (absorb compressB H0 ?m)
      (leftover ?m @ replicate (64 - length (leftover ?m)) 0)"
    using r by (simp add: BSHA1PadMessage_def BSHA1ProcessMessageBlock_def BSHA1_W_wseq rounds_state
        compressB_def compress_def sha_rep_def sha_ok_def Let_def less_imp_le del: upt_rec_numeral)
  moreover have "length (compressB H M) = 5" for H M by (rule bs.length_f)
  ultimately show ?thesis
    using r by (simp add: BSHA1Result_def sha_Result_def sha_rep_def bsha1_def digest_bytes_eq Let_def)
qed

text \<open>C11. The same for the hash of the old login protocol: it returns \<open>bsha1\<close> of the message.\<close>

theorem BSHA1_correct:
  assumes "length (Message_Block c0) = 64"
    and "\<forall>p\<in>set ps. length p < 2 ^ 32" and "8 * length (concat ps) < 2 ^ 64"
  shows "\<exists>c. BSHA1Result (feed BSHA1Input (snd (BSHA1Reset (Some c0))) ps) (Some d)
     = (shaSuccess, Some c, Some (bsha1 (concat ps)))"
  by (rule BSHA1_digest [OF assms])

theorem BSHA1_correct_witness:
  "\<exists>c. BSHA1Result (feed BSHA1Input (snd (BSHA1Reset (Some blank_ctx)))
       [map byte_of ''user'', map byte_of ''pass'']) (Some [])
     = (shaSuccess, Some c, Some (bsha1 (map byte_of ''userpass'')))"
  using BSHA1_correct [of blank_ctx "[map byte_of ''user'', map byte_of ''pass'']" "[]"]
  by (simp add: blank_ctx_def)

end
