(* ===== verification/Srp.thy ===== *)
theory Srp
  imports Sha Storage
begin

text \<open>
  \<^verbatim>\<open>Crypto::BnetSRP3\<close> (src/blitzd/crypto/BnetSRP3.cpp): the password exchange of the Warcraft III
  login. The server runs one side of it, the class implements both.

  The big numbers of GMP are integers, the functions of GMP a parameter \<open>gmp\<close>; \<open>gmp_ok\<close> says what
  the manual says of them. Exporting a number writes only its significant bytes, so the rest of
  the destination buffer keeps what it held; the buffers are uninitialised local arrays.
\<close>

section \<open>GMP\<close>

text \<open>
  \<open>mpz_import\<close> and \<open>mpz_export\<close> are the calls with order \<open>-1\<close> and size 1, \<open>mpz_export_words\<close> the call
  with order 1, size 4 and endian \<open>-1\<close>. \<open>mpz_urandomm n m\<close> and \<open>mpz_urandomb n k\<close> are the \<open>n\<close>-th draw
  from the static random state.
\<close>

record gmp =
  mpz_powm :: "int \<Rightarrow> int \<Rightarrow> int \<Rightarrow> int"
  mpz_add :: "int \<Rightarrow> int \<Rightarrow> int"
  mpz_sub :: "int \<Rightarrow> int \<Rightarrow> int"
  mpz_mul :: "int \<Rightarrow> int \<Rightarrow> int"
  mpz_mod :: "int \<Rightarrow> int \<Rightarrow> int"
  mpz_import :: "bytes \<Rightarrow> int"
  mpz_export :: "int \<Rightarrow> bytes"
  mpz_export_words :: "int \<Rightarrow> bytes"
  mpz_urandomm :: "nat \<Rightarrow> int \<Rightarrow> int"
  mpz_urandomb :: "nat \<Rightarrow> nat \<Rightarrow> int"

definition gmp_ok :: "gmp \<Rightarrow> bool" where
  "gmp_ok G \<longleftrightarrow>
     (\<forall>b x m. 0 \<le> x \<and> 0 < m \<longrightarrow> mpz_powm G b x m = b ^ nat x mod m)
     \<and> (\<forall>a b. mpz_add G a b = a + b \<and> mpz_sub G a b = a - b \<and> mpz_mul G a b = a * b)
     \<and> (\<forall>a m. 0 < m \<longrightarrow> mpz_mod G a m = a mod m)
     \<and> (\<forall>v. mpz_import G v = int (of_le_nat v))
     \<and> (\<forall>z k. 0 \<le> z \<and> z < 256 ^ k \<longrightarrow> length (mpz_export G z) \<le> k)
     \<and> (\<forall>z. 0 \<le> z \<longrightarrow> int (of_le_nat (mpz_export G z)) = z)
     \<and> (\<forall>z k. 0 \<le> z \<and> z < (2 ^ 32) ^ k \<longrightarrow> length (mpz_export_words G z) \<le> 4 * k)
     \<and> (\<forall>n m. 0 < m \<longrightarrow> 0 \<le> mpz_urandomm G n m \<and> mpz_urandomm G n m < m)
     \<and> (\<forall>n k. 0 \<le> mpz_urandomb G n k \<and> mpz_urandomb G n k < 2 ^ k)"

lemma gmp_okD:
  assumes "gmp_ok G"
  shows "0 \<le> x \<Longrightarrow> 0 < m \<Longrightarrow> mpz_powm G b x m = b ^ nat x mod m"
    and "mpz_add G a b = a + b" and "mpz_sub G a b = a - b" and "mpz_mul G a b = a * b"
    and "0 < m \<Longrightarrow> mpz_mod G a m = a mod m"
    and "mpz_import G v = int (of_le_nat v)"
    and "0 \<le> z \<Longrightarrow> z < 256 ^ k \<Longrightarrow> length (mpz_export G z) \<le> k"
    and "0 \<le> z \<Longrightarrow> int (of_le_nat (mpz_export G z)) = z"
    and "0 \<le> z \<Longrightarrow> z < (2 ^ 32) ^ k \<Longrightarrow> length (mpz_export_words G z) \<le> 4 * k"
    and "0 < m \<Longrightarrow> 0 \<le> mpz_urandomm G i m \<and> mpz_urandomm G i m < m"
    and "0 \<le> mpz_urandomb G i k \<and> mpz_urandomb G i k < 2 ^ k"
  using assms unfolding gmp_ok_def by blast+

section \<open>Buffers and hashes\<close>

text \<open>The uninitialised array \<open>v\<close> of \<open>n\<close> bytes after \<open>d\<close> was written to its start.\<close>

definition export_to :: "env \<Rightarrow> string \<Rightarrow> nat \<Rightarrow> bytes \<Rightarrow> bytes res" where
  "export_to e v n d = (if length d > n then Inl OutOfBounds else Inr (d @ drop (length d) (fresh e v n)))"

definition fresh_ctx :: "env \<Rightarrow> sha_ctx" where
  "fresh_ctx e = \<lparr>Intermediate_Hash = [], Length_Low = 0, Length_High = 0, Message_Block_Index = 0,
     Message_Block = fresh e ''Message_Block'' 64, Computed = 0, Corrupted = 0\<rparr>"

text \<open>The sequence of \<^verbatim>\<open>SHA1Reset\<close>, \<^verbatim>\<open>SHA1Input\<close> of each piece and \<^verbatim>\<open>SHA1Result\<close> on a local context.\<close>

definition SHA1_call :: "env \<Rightarrow> bytes list \<Rightarrow> bytes" where
  "SHA1_call e ps =
     (case SHA1Result (feed SHA1Input (snd (SHA1Reset (Some (fresh_ctx e)))) ps) (Some (fresh e ''hash'' 20)) of
        (_, _, d) \<Rightarrow> the d)"

lemma SHA1_call:
  assumes "\<forall>p\<in>set ps. length p < 2 ^ 32" and "8 * length (concat ps) < 2 ^ 64"
  shows "SHA1_call e ps = sha1 (concat ps)"
  using SHA1_digest [of "fresh_ctx e" ps "fresh e ''hash'' 20"] assms
  by (auto simp: SHA1_call_def fresh_ctx_def fresh_def)

section \<open>The class\<close>

definition SRP3_N :: bytes where
  "SRP3_N = [0x87, 0xC7, 0x23, 0x85, 0x65, 0xF6, 0x16, 0x12, 0xD9, 0x12, 0x32, 0xC7, 0x78, 0x6C, 0x97, 0x7E,
     0x55, 0xB5, 0x92, 0xA0, 0x8C, 0xB6, 0x86, 0x21, 0x03, 0x18, 0x99, 0x61, 0x8B, 0x1A, 0xFF, 0xF8]"

definition SRP3_I :: bytes where
  "SRP3_I = [0x6c, 0x0e, 0x97, 0xed, 0x0a, 0xf9, 0x6b, 0xab, 0xb1, 0x58, 0x89, 0xeb, 0x8b, 0xba, 0x25, 0xa4,
     0xf0, 0x8c, 0x01, 0xf8]"

definition SRP3_g :: int where
  "SRP3_g = 0x2F"

record srp =
  s_a :: int
  s_b :: int
  s_B :: int
  s_B_inited :: bool
  s_username :: string
  s_password :: string
  s_raw_salt :: bytes

text \<open>The static modulus, imported at the first use of the class.\<close>

definition srp_N :: "gmp \<Rightarrow> int" where
  "srp_N G = mpz_import G SRP3_N"

definition setSalt :: "bytes \<Rightarrow> srp \<Rightarrow> srp res" where
  "setSalt salt o' = (if length salt < 32 then Inl OutOfBounds else Inr (o'\<lparr>s_raw_salt := take 32 salt\<rparr>))"

definition getSalt :: "srp \<Rightarrow> bytes" where
  "getSalt o' = s_raw_salt o'"

text \<open>
  \<^verbatim>\<open>init\<close>: the result code, the object and the number of the next random draw. The object starts
  as the members that have constructors are (empty strings); the arrays are uninitialised.
\<close>

definition srp_init ::
  "gmp \<Rightarrow> env \<Rightarrow> nat \<Rightarrow> srp \<Rightarrow> string option \<Rightarrow> string option \<Rightarrow> bytes option \<Rightarrow> (int \<times> srp \<times> nat) res" where
  "srp_init G e n o' uname pass salt0 =
     (case uname of None \<Rightarrow> Inr (- 1, o', n)
      | Some u \<Rightarrow>
          let o1 = o'\<lparr>s_username := map toupper (c_str u)\<rparr> in
          (case (pass, salt0) of
             (None, None) \<Rightarrow> Inr (- 1, o1, n)
           | (Some _, Some _) \<Rightarrow> Inr (- 1, o1, n)
           | (Some p, None) \<Rightarrow>
               bind_res (export_to e ''raw_salt'' 32 (mpz_export_words G (mpz_urandomb G (Suc n) 256)))
                 (\<lambda>rs. Inr (0, o1\<lparr>s_password := map toupper (c_str p), s_a := mpz_urandomm G n (srp_N G), s_b := 0,
                    s_raw_salt := rs, s_B_inited := False\<rparr>, n + 2))
           | (None, Some s) \<Rightarrow>
               bind_res (setSalt s (o1\<lparr>s_password := [], s_a := 0, s_b := mpz_urandomm G n (srp_N G)\<rparr>))
                 (\<lambda>o2. Inr (0, o2\<lparr>s_B_inited := False\<rparr>, n + 1))))"

definition fresh_srp :: "env \<Rightarrow> srp" where
  "fresh_srp e = \<lparr>s_a = 0, s_b = 0, s_B = 0, s_B_inited = False, s_username = [], s_password = [],
     s_raw_salt = fresh e ''raw_salt'' 32\<rparr>"

text \<open>The two constructors on \<^verbatim>\<open>std::string\<close>s.\<close>

definition BnetSRP3_salt :: "gmp \<Rightarrow> env \<Rightarrow> nat \<Rightarrow> string \<Rightarrow> bytes \<Rightarrow> (srp \<times> nat) res" where
  "BnetSRP3_salt G e n uname salt0 =
     bind_res (srp_init G e n (fresh_srp e) (Some (c_str uname)) None (Some salt0)) (\<lambda>(_, r). Inr r)"

definition BnetSRP3_password :: "gmp \<Rightarrow> env \<Rightarrow> nat \<Rightarrow> string \<Rightarrow> string \<Rightarrow> (srp \<times> nat) res" where
  "BnetSRP3_password G e n uname pass =
     bind_res (srp_init G e n (fresh_srp e) (Some (c_str uname)) (Some (c_str pass)) None) (\<lambda>(_, r). Inr r)"

definition getClientPrivateKey :: "gmp \<Rightarrow> env \<Rightarrow> srp \<Rightarrow> int" where
  "getClientPrivateKey G e o' =
     (let userpass_hash = SHA1_call e [map byte_of (s_username o' @ '':'' @ s_password o')];
          private_value_hash = SHA1_call e [s_raw_salt o', userpass_hash]
      in mpz_import G private_value_hash)"

definition getVerifier :: "gmp \<Rightarrow> env \<Rightarrow> srp \<Rightarrow> int" where
  "getVerifier G e o' = mpz_powm G SRP3_g (getClientPrivateKey G e o') (srp_N G)"

definition getClientSessionPublicKey :: "gmp \<Rightarrow> srp \<Rightarrow> int" where
  "getClientSessionPublicKey G o' = mpz_powm G SRP3_g (s_a o') (srp_N G)"

definition getServerSessionPublicKey :: "gmp \<Rightarrow> srp \<Rightarrow> int \<Rightarrow> int \<times> srp" where
  "getServerSessionPublicKey G o' v =
     (let o2 = (if s_B_inited o' then o'
        else o'\<lparr>s_B := mpz_mod G (mpz_add G (mpz_powm G SRP3_g (s_b o') (srp_N G)) v) (srp_N G), s_B_inited := True\<rparr>)
      in (s_B o2, o2))"

definition getScrambler :: "gmp \<Rightarrow> env \<Rightarrow> int \<Rightarrow> int res" where
  "getScrambler G e Bk =
     bind_res (export_to e ''raw_B'' 32 (mpz_export G Bk)) (\<lambda>raw_B.
     let hash = SHA1_call e [raw_B] in Inr (uint (htonl (of_le32 (take 4 hash)))))"

definition getClientSecret :: "gmp \<Rightarrow> env \<Rightarrow> srp \<Rightarrow> int \<Rightarrow> int res" where
  "getClientSecret G e o' Bk =
     (let x = getClientPrivateKey G e o' in
      bind_res (getScrambler G e Bk) (\<lambda>u.
      let base = mpz_sub G (mpz_add G (srp_N G) Bk) (mpz_powm G SRP3_g x (srp_N G));
          temp = mpz_add G (mpz_mul G x u) (s_a o')
      in Inr (mpz_powm G base temp (srp_N G))))"

definition getServerSecret :: "gmp \<Rightarrow> env \<Rightarrow> srp \<Rightarrow> int \<Rightarrow> int \<Rightarrow> (int \<times> srp) res" where
  "getServerSecret G e o' A v =
     (case getServerSessionPublicKey G o' v of (Bk, o2) \<Rightarrow>
      bind_res (getScrambler G e Bk) (\<lambda>u.
      let r = mpz_mod G (mpz_mul G (mpz_powm G v u (srp_N G)) A) (srp_N G)
      in Inr (mpz_powm G r (s_b o2) (srp_N G), o2)))"

text \<open>The even and the odd places of the secret, hashed apart and interleaved.\<close>

fun evens :: "'a list \<Rightarrow> 'a list" where
  "evens (x # y # xs) = x # evens xs"
| "evens [x] = [x]"
| "evens [] = []"

fun interleave :: "'a list \<Rightarrow> 'a list \<Rightarrow> 'a list" where
  "interleave (x # xs) (y # ys) = x # y # interleave xs ys"
| "interleave _ _ = []"

definition hashSecret :: "gmp \<Rightarrow> env \<Rightarrow> int \<Rightarrow> int res" where
  "hashSecret G e secret =
     bind_res (export_to e ''raw_secret'' 32 (mpz_export G secret)) (\<lambda>raw_secret.
     let odd_hash = SHA1_call e [evens raw_secret]; even_hash = SHA1_call e [evens (tl raw_secret)]
     in Inr (mpz_import G (interleave odd_hash even_hash)))"

definition getHashedClientSecret :: "gmp \<Rightarrow> env \<Rightarrow> srp \<Rightarrow> int \<Rightarrow> int res" where
  "getHashedClientSecret G e o' Bk = bind_res (getClientSecret G e o' Bk) (hashSecret G e)"

definition getHashedServerSecret :: "gmp \<Rightarrow> env \<Rightarrow> srp \<Rightarrow> int \<Rightarrow> int \<Rightarrow> (int \<times> srp) res" where
  "getHashedServerSecret G e o' A v =
     bind_res (getServerSecret G e o' A v) (\<lambda>(S, o2). bind_res (hashSecret G e S) (\<lambda>Kk. Inr (Kk, o2)))"

definition getClientPasswordProof :: "gmp \<Rightarrow> env \<Rightarrow> srp \<Rightarrow> int \<Rightarrow> int \<Rightarrow> int \<Rightarrow> bytes res" where
  "getClientPasswordProof G e o' A Bk Kk =
     (let usernameHash = SHA1_call e [map byte_of (s_username o')] in
      bind_res (export_to e ''A_'' 32 (mpz_export G A)) (\<lambda>rA.
      bind_res (export_to e ''B__'' 32 (mpz_export G Bk)) (\<lambda>rB.
      bind_res (export_to e ''K_'' 40 (mpz_export G Kk)) (\<lambda>rK.
      Inr (SHA1_call e [SRP3_I, usernameHash, s_raw_salt o', rA, rB, rK])))))"

definition getServerPasswordProof :: "gmp \<Rightarrow> env \<Rightarrow> int \<Rightarrow> bytes \<Rightarrow> int \<Rightarrow> bytes res" where
  "getServerPasswordProof G e A M Kk =
     bind_res (export_to e ''A_'' 32 (mpz_export G A)) (\<lambda>rA.
     bind_res (export_to e ''K_'' 40 (mpz_export G Kk)) (\<lambda>rK.
     Inr (SHA1_call e [rA, take 20 M, rK])))"

section \<open>Both sides agree\<close>

lemma srp_N: "gmp_ok G \<Longrightarrow> 2 ^ 255 < srp_N G \<and> srp_N G < 2 ^ 256"
  by (simp add: srp_N_def gmp_okD(6) SRP3_N_def)

lemma srp_N_pos: "gmp_ok G \<Longrightarrow> 0 < srp_N G"
  using srp_N [of G] by simp

text \<open>
  An exported number fills its buffer, or else the stale bytes that remain are the same on the two
  machines.
\<close>

definition same_buffer :: "gmp \<Rightarrow> env \<Rightarrow> env \<Rightarrow> nat \<Rightarrow> int \<Rightarrow> bool" where
  "same_buffer G e1 e2 n z \<longleftrightarrow> length (mpz_export G z) = n \<or> uninit e1 = uninit e2"

lemma export_to_total:
  assumes "gmp_ok G" and "0 \<le> z" and "z < 256 ^ n"
  shows "\<exists>r. export_to e v n (mpz_export G z) = Inr r \<and> length r = n"
  using gmp_okD(7) [OF assms] by (simp add: export_to_def fresh_def)

lemma export_to_same:
  "same_buffer G e1 e2 n z \<Longrightarrow> export_to e1 v n (mpz_export G z) = export_to e2 v n (mpz_export G z)"
  by (auto simp: same_buffer_def export_to_def fresh_def)

lemma export_twice:
  assumes "gmp_ok G" and "0 \<le> z" and "z < 256 ^ n" and "same_buffer G e1 e2 n z"
  obtains r where "export_to e1 v n (mpz_export G z) = Inr r" and "export_to e2 v n (mpz_export G z) = Inr r"
    and "length r = n"
  using export_to_total [OF assms(1-3)] export_to_same [OF assms(4)] by metis

lemma length_evens: "length (evens xs) \<le> length xs"
  by (induction xs rule: evens.induct) auto

lemma length_interleave: "length xs = n \<Longrightarrow> length ys = n \<Longrightarrow> length (interleave xs ys) = 2 * n"
  by (induction xs ys arbitrary: n rule: interleave.induct) auto

lemma mod_range: "gmp_ok G \<Longrightarrow> 0 \<le> z mod srp_N G \<and> z mod srp_N G < 256 ^ 32"
proof -
  assume "gmp_ok G"
  then have "0 < srp_N G" "srp_N G < 256 ^ 32" using srp_N [of G] by simp_all
  then show ?thesis
    using pos_mod_bound [of "srp_N G" z] pos_mod_sign [of "srp_N G" z] by linarith
qed

lemma getScrambler_same:
  assumes "gmp_ok G" and "0 \<le> z" and "z < 256 ^ 32" and "same_buffer G e1 e2 32 z"
  shows "\<exists>u. getScrambler G e1 z = Inr u \<and> getScrambler G e2 z = Inr u \<and> 0 \<le> u"
proof -
  obtain r where "export_to e1 ''raw_B'' 32 (mpz_export G z) = Inr r" "export_to e2 ''raw_B'' 32 (mpz_export G z) = Inr r"
    and "length r = 32" using export_twice [OF assms] .
  then show ?thesis by (simp add: getScrambler_def SHA1_call Let_def)
qed

lemma hashSecret_same:
  assumes "gmp_ok G" and "0 \<le> z" and "z < 256 ^ 32" and "same_buffer G e1 e2 32 z"
  shows "\<exists>k. hashSecret G e1 z = Inr k \<and> hashSecret G e2 z = Inr k \<and> 0 \<le> k \<and> k < 256 ^ 40"
proof -
  obtain r where r: "export_to e1 ''raw_secret'' 32 (mpz_export G z) = Inr r"
      "export_to e2 ''raw_secret'' 32 (mpz_export G z) = Inr r" "length r = 32"
    using export_twice [OF assms] .
  let ?i = "interleave (sha1 (evens r)) (sha1 (evens (tl r)))"
  have l: "length (evens r) \<le> 32" "length (evens (tl r)) \<le> 32"
    using length_evens [of r] length_evens [of "tl r"] r(3) by simp_all
  then have "hashSecret G e z = bind_res (export_to e ''raw_secret'' 32 (mpz_export G z))
     (\<lambda>r. Inr (mpz_import G (interleave (SHA1_call e [evens r]) (SHA1_call e [evens (tl r)]))))" for e
    by (simp add: hashSecret_def Let_def)
  moreover have "SHA1_call e [evens r] = sha1 (evens r)" "SHA1_call e [evens (tl r)] = sha1 (evens (tl r))" for e
    using l by (simp_all add: SHA1_call)
  moreover have "of_le_nat ?i < 256 ^ 40"
    using of_le_nat_bound [of ?i] length_interleave [of "sha1 (evens r)" 20 "sha1 (evens (tl r))"] by simp
  then have "int (of_le_nat ?i) < 256 ^ 40"
    by (metis of_nat_less_iff of_nat_numeral of_nat_power)
  ultimately show ?thesis using r(1,2) by (simp add: gmp_okD(6) [OF assms(1)])
qed

lemma secret_algebra:
  fixes g N :: int and x u a b :: nat
  assumes "0 < N"
  shows "(N + (g ^ b mod N + g ^ x mod N) mod N - g ^ x mod N) ^ (x * u + a) mod N
    = ((g ^ x mod N) ^ u mod N * (g ^ a mod N) mod N) ^ b mod N"
proof -
  have "(N + (g ^ b mod N + g ^ x mod N) mod N - g ^ x mod N) mod N = (N + (g ^ b + g ^ x) - g ^ x) mod N"
    by (metis mod_add_eq mod_diff_left_eq mod_diff_right_eq mod_add_right_eq)
  then have "(N + (g ^ b mod N + g ^ x mod N) mod N - g ^ x mod N) mod N = g ^ b mod N" by simp
  then have "(N + (g ^ b mod N + g ^ x mod N) mod N - g ^ x mod N) ^ (x * u + a) mod N = (g ^ b) ^ (x * u + a) mod N"
    by (metis power_mod)
  moreover have "((g ^ x mod N) ^ u mod N * (g ^ a mod N) mod N) ^ b mod N = ((g ^ x) ^ u * g ^ a) ^ b mod N"
    by (simp add: mod_simps)
  moreover have "(g ^ b) ^ (x * u + a) = ((g ^ x) ^ u * g ^ a) ^ b"
    by (simp flip: power_mult power_add add: algebra_simps)
  ultimately show ?thesis by simp
qed

lemma private_key_nonneg: "gmp_ok G \<Longrightarrow> 0 \<le> getClientPrivateKey G e o'"
  by (simp add: getClientPrivateKey_def Let_def gmp_okD(6))

lemma password_object:
  assumes "gmp_ok G"
  shows "\<exists>c. BnetSRP3_password G e n u p = Inr (c, n + 2) \<and> s_username c = map toupper (c_str u)
    \<and> s_password c = map toupper (c_str p) \<and> length (s_raw_salt c) = 32 \<and> 0 \<le> s_a c"
proof -
  have "length (mpz_export_words G (mpz_urandomb G (Suc n) 256)) \<le> 4 * 8"
    by (rule gmp_okD(9) [OF assms]) (use gmp_okD(11) [OF assms, of "Suc n" 256] in \<open>simp_all flip: power_mult\<close>)
  then obtain r where "export_to e ''raw_salt'' 32 (mpz_export_words G (mpz_urandomb G (Suc n) 256)) = Inr r" "length r = 32"
    by (simp add: export_to_def fresh_def)
  then show ?thesis
    using gmp_okD(10) [OF assms srp_N_pos [OF assms]]
    by (simp add: BnetSRP3_password_def srp_init_def Let_def c_str_def takeWhile_takeWhile)
qed

lemma salt_object:
  assumes "length salt = 32"
  shows "BnetSRP3_salt G e n u salt = Inr ((fresh_srp e)\<lparr>s_username := map toupper (c_str u),
     s_b := mpz_urandomm G n (srp_N G), s_raw_salt := salt\<rparr>, n + 1)"
  using assms by (simp add: BnetSRP3_salt_def srp_init_def setSalt_def fresh_srp_def Let_def)

lemma server_key:
  assumes "gmp_ok G" and "\<not> s_B_inited s" and "0 \<le> s_b s" and "getServerSessionPublicKey G s v = (B, s')"
  shows "B = (SRP3_g ^ nat (s_b s) mod srp_N G + v) mod srp_N G" and "s' = s\<lparr>s_B := B, s_B_inited := True\<rparr>"
    and "getServerSessionPublicKey G s' v = (B, s')"
  using assms by (auto simp: getServerSessionPublicKey_def gmp_okD [OF assms(1)] srp_N_pos Let_def)

lemma secrets_agree:
  assumes G: "gmp_ok G" and a: "0 \<le> s_a c" and b: "0 \<le> s_b s" and f: "\<not> s_B_inited s"
    and B: "getServerSessionPublicKey G s (getVerifier G e1 c) = (B, s')"
    and same: "same_buffer G e1 e2 32 B" and S: "getClientSecret G e1 c B = Inr S"
  shows "getServerSecret G e2 s' (getClientSessionPublicKey G c) (getVerifier G e1 c) = Inr (S, s')"
    and "0 \<le> S \<and> S < 256 ^ 32"
proof -
  let ?N = "srp_N G" and ?x = "getClientPrivateKey G e1 c" and ?v = "getVerifier G e1 c"
  note g = gmp_okD [OF G] and N = srp_N_pos [OF G] and x = private_key_nonneg [OF G, of e1 c]
  have v: "?v = SRP3_g ^ nat ?x mod ?N" using x N by (simp add: getVerifier_def g)
  have B': "B = (SRP3_g ^ nat (s_b s) mod ?N + ?v) mod ?N" using server_key(1) [OF G f b B] .
  have "0 \<le> B" "B < 256 ^ 32" unfolding B' using mod_range [OF G] by blast+
  then obtain u where u: "getScrambler G e1 B = Inr u" "getScrambler G e2 B = Inr u" "0 \<le> u"
    using getScrambler_same [OF G _ _ same] by blast
  have xu: "nat (?x * u + s_a c) = nat ?x * nat u + nat (s_a c)"
    using x u(3) a by (simp add: nat_add_distrib nat_mult_distrib)
  have "S = mpz_powm G (?N + B - SRP3_g ^ nat ?x mod ?N) (?x * u + s_a c) ?N"
    using S u(1) x N by (simp add: getClientSecret_def g Let_def)
  also have "\<dots> = (?N + B - SRP3_g ^ nat ?x mod ?N) ^ (nat ?x * nat u + nat (s_a c)) mod ?N"
    using x u(3) a N by (simp add: g xu)
  finally have S1: "S = (?N + B - SRP3_g ^ nat ?x mod ?N) ^ (nat ?x * nat u + nat (s_a c)) mod ?N" .
  show "0 \<le> S \<and> S < 256 ^ 32" unfolding S1 by (rule mod_range [OF G])
  have sb: "s_b s' = s_b s" using server_key(2) [OF G f b B] by simp
  have A: "getClientSessionPublicKey G c = SRP3_g ^ nat (s_a c) mod ?N"
    unfolding getClientSessionPublicKey_def by (rule g(1) [OF a N])
  have "getServerSecret G e2 s' (getClientSessionPublicKey G c) ?v =
      Inr (mpz_powm G (mpz_mod G (mpz_mul G (mpz_powm G ?v u ?N) (getClientSessionPublicKey G c)) ?N) (s_b s) ?N, s')"
    unfolding getServerSecret_def server_key(3) [OF G f b B] Let_def by (simp add: u(2) sb)
  also have "\<dots> = Inr ((?v ^ nat u mod ?N * (SRP3_g ^ nat (s_a c) mod ?N) mod ?N) ^ nat (s_b s) mod ?N, s')"
    unfolding A g(4) g(1) [OF u(3) N] g(5) [OF N] g(1) [OF b N] ..
  also have "\<dots> = Inr (S, s')"
    unfolding v S1 B' secret_algebra [OF N] ..
  finally show "getServerSecret G e2 s' (getClientSessionPublicKey G c) ?v = Inr (S, s')" .
qed

lemma proofs_agree:
  assumes G: "gmp_ok G" and A: "0 \<le> A" "A < 256 ^ 32" "same_buffer G e1 e2 32 A"
    and B: "0 \<le> B" "B < 256 ^ 32" "same_buffer G e1 e2 32 B"
    and k: "0 \<le> k" "k < 256 ^ 40" "same_buffer G e1 e2 40 k"
    and o: "s_username s = s_username c" "s_raw_salt s = s_raw_salt c" "length (s_raw_salt c) = 32"
    and n: "length (s_username c) < 2 ^ 32"
  shows "\<exists>M M'. getClientPasswordProof G e1 c A B k = Inr M \<and> getClientPasswordProof G e2 s A B k = Inr M \<and> length M = 20
    \<and> getServerPasswordProof G e1 A M k = Inr M' \<and> getServerPasswordProof G e2 A M k = Inr M'"
proof -
  obtain rA where rA: "export_to e1 ''A_'' 32 (mpz_export G A) = Inr rA" "export_to e2 ''A_'' 32 (mpz_export G A) = Inr rA" "length rA = 32"
    using export_twice [OF G A] .
  obtain rB where rB: "export_to e1 ''B__'' 32 (mpz_export G B) = Inr rB" "export_to e2 ''B__'' 32 (mpz_export G B) = Inr rB" "length rB = 32"
    using export_twice [OF G B] .
  obtain rk where rk: "export_to e1 ''K_'' 40 (mpz_export G k) = Inr rk" "export_to e2 ''K_'' 40 (mpz_export G k) = Inr rk" "length rk = 40"
    using export_twice [OF G k] .
  note defs = getClientPasswordProof_def getServerPasswordProof_def
  show ?thesis using rA rB rk o n by (simp add: defs SHA1_call SRP3_I_def Let_def)
qed

text \<open>
  C2. A client that knows the password of an account and the server that knows only the account's
  salt and verifier compute the same session key and the same two proofs: the server accepts the
  client's proof and the client accepts the server's. The user name may be typed in any case. The
  provisos say where the code needs luck: a public key, secret or session key that does not fill
  its buffer is hashed together with whatever the buffer held before.
\<close>

theorem srp_login_agrees:
  assumes G: "gmp_ok G" and len: "length u < 2 ^ 31"
    and c: "BnetSRP3_password G e1 n1 u p = Inr (c, n1')"
    and s: "BnetSRP3_salt G e2 n2 u' (getSalt c) = Inr (s, n2')"
    and u': "map toupper (c_str u') = map toupper (c_str u)"
    and B: "getServerSessionPublicKey G s (getVerifier G e1 c) = (B, s')"
    and S: "getClientSecret G e1 c B = Inr S" and k: "hashSecret G e1 S = Inr k"
    and same: "same_buffer G e1 e2 32 (getClientSessionPublicKey G c)" "same_buffer G e1 e2 32 B"
      "same_buffer G e1 e2 32 S" "same_buffer G e1 e2 40 k"
  shows "getHashedClientSecret G e1 c B = Inr k
    \<and> getHashedServerSecret G e2 s' (getClientSessionPublicKey G c) (getVerifier G e1 c) = Inr (k, s')
    \<and> (\<exists>M M'. getClientPasswordProof G e1 c (getClientSessionPublicKey G c) B k = Inr M
         \<and> getClientPasswordProof G e2 s' (getClientSessionPublicKey G c) B k = Inr M
         \<and> getServerPasswordProof G e2 (getClientSessionPublicKey G c) M k = Inr M'
         \<and> getServerPasswordProof G e1 (getClientSessionPublicKey G c) M k = Inr M')"
proof -
  let ?A = "getClientSessionPublicKey G c" and ?v = "getVerifier G e1 c"
  have c': "s_username c = map toupper (c_str u)" "length (s_raw_salt c) = 32" "0 \<le> s_a c"
    using password_object [OF G, of e1 n1 u p] c by auto
  have s': "s = (fresh_srp e2)\<lparr>s_username := map toupper (c_str u'), s_b := mpz_urandomm G n2 (srp_N G), s_raw_salt := s_raw_salt c\<rparr>"
    using salt_object [of "s_raw_salt c"] c'(2) s by (simp add: getSalt_def)
  have f: "\<not> s_B_inited s" "0 \<le> s_b s"
    using gmp_okD(10) [OF G srp_N_pos [OF G]] by (simp_all add: s' fresh_srp_def)
  note sec = secrets_agree [OF G c'(3) f(2,1) B same(2) S]
  have k': "hashSecret G e2 S = Inr k" "0 \<le> k" "k < 256 ^ 40"
    using hashSecret_same [OF G _ _ same(3)] sec(2) k by auto
  have A: "0 \<le> ?A" "?A < 256 ^ 32"
    using mod_range [OF G] c'(3) srp_N_pos [OF G] by (simp_all add: getClientSessionPublicKey_def gmp_okD(1) [OF G])
  have B': "0 \<le> B" "B < 256 ^ 32"
    unfolding server_key(1) [OF G f B] using mod_range [OF G] by blast+
  have "length (c_str u) \<le> length u" unfolding c_str_def by (rule length_takeWhile_le)
  then have n: "length (s_username c) < 2 ^ 32" using c'(1) len by simp
  have o: "s_username s' = s_username c" "s_raw_salt s' = s_raw_salt c"
    using server_key(2) [OF G f B] by (simp_all add: s' c'(1) u')
  show ?thesis
    using proofs_agree [OF G A same(1) B' same(2) k'(2,3) same(4) o c'(2) n] sec(1) S k k'(1)
    by (auto simp: getHashedClientSecret_def getHashedServerSecret_def)
qed

text \<open>An implementation of the functions of GMP that has the documented behaviour.\<close>

fun le_digits :: "nat \<Rightarrow> bytes" where
  "le_digits n = (if n = 0 then [] else word_of_nat n # le_digits (n div 256))"

fun be_words :: "nat \<Rightarrow> bytes" where
  "be_words n = (if n = 0 then [] else be_words (n div 2 ^ 32) @ le_nat 4 n)"

declare le_digits.simps [simp del] be_words.simps [simp del]

definition gmp0 :: gmp where
  "gmp0 = \<lparr>mpz_powm = (\<lambda>b x m. b ^ nat x mod m), mpz_add = (+), mpz_sub = (-), mpz_mul = (*), mpz_mod = (mod),
     mpz_import = (\<lambda>v. int (of_le_nat v)), mpz_export = (\<lambda>z. le_digits (nat \<bar>z\<bar>)),
     mpz_export_words = (\<lambda>z. be_words (nat \<bar>z\<bar>)),
     mpz_urandomm = (\<lambda>n m. int n mod m), mpz_urandomb = (\<lambda>n k. int n mod 2 ^ k)\<rparr>"

lemma of_le_digits: "of_le_nat (le_digits n) = n"
proof (induction n rule: le_digits.induct)
  case (1 n)
  then show ?case by (subst le_digits.simps) (simp add: unat_of_nat)
qed

lemma length_le_digits: "n < 256 ^ k \<Longrightarrow> length (le_digits n) \<le> k"
proof (induction k arbitrary: n)
  case 0
  then show ?case by (simp add: le_digits.simps)
next
  case (Suc k)
  then have "n div 256 < 256 ^ k" by (simp add: less_mult_imp_div_less mult.commute)
  then show ?case using Suc.IH [of "n div 256"] by (subst le_digits.simps) simp
qed

lemma length_be_words: "n < (2 ^ 32) ^ k \<Longrightarrow> length (be_words n) \<le> 4 * k"
proof (induction k arbitrary: n)
  case 0
  then show ?case by (simp add: be_words.simps)
next
  case (Suc k)
  then have "n div 2 ^ 32 < (2 ^ 32) ^ k" by (metis less_mult_imp_div_less mult.commute power_Suc)
  then show ?case using Suc.IH [of "n div 2 ^ 32"] by (subst be_words.simps) simp
qed

lemma gmp0_ok: "gmp_ok gmp0"
proof -
  have "nat z < m ^ k" if "0 \<le> z" "z < int m ^ k" for z and m k :: nat
    using that by (simp add: nat_less_iff)
  from this [of _ 256] this [of _ "2 ^ 32"] show ?thesis
    by (simp add: gmp_ok_def gmp0_def of_le_digits length_le_digits length_be_words)
qed

theorem srp_login_agrees_witness:
  "\<exists>c s s' B k n n' M. BnetSRP3_password gmp0 (env0\<lparr>time_now := 9\<rparr>) 5 ''Alice'' ''secret'' = Inr (c, n)
    \<and> BnetSRP3_salt gmp0 env0 7 ''ALICE'' (getSalt c) = Inr (s, n')
    \<and> getServerSessionPublicKey gmp0 s (getVerifier gmp0 (env0\<lparr>time_now := 9\<rparr>) c) = (B, s')
    \<and> getHashedClientSecret gmp0 (env0\<lparr>time_now := 9\<rparr>) c B = Inr k
    \<and> getHashedServerSecret gmp0 env0 s' (getClientSessionPublicKey gmp0 c) (getVerifier gmp0 (env0\<lparr>time_now := 9\<rparr>) c) = Inr (k, s')
    \<and> getClientPasswordProof gmp0 (env0\<lparr>time_now := 9\<rparr>) c (getClientSessionPublicKey gmp0 c) B k = Inr M
    \<and> getClientPasswordProof gmp0 env0 s' (getClientSessionPublicKey gmp0 c) B k = Inr M"
proof -
  let ?e = "env0\<lparr>time_now := 9\<rparr>"
  obtain c where c: "BnetSRP3_password gmp0 ?e 5 ''Alice'' ''secret'' = Inr (c, 7)" "length (getSalt c) = 32"
    using password_object [OF gmp0_ok, of ?e 5 "''Alice''" "''secret''"] by (auto simp: getSalt_def)
  obtain s where s: "BnetSRP3_salt gmp0 env0 7 ''ALICE'' (getSalt c) = Inr (s, 8)"
    using salt_object [OF c(2), of gmp0 env0 7] by simp
  obtain B s' where B: "getServerSessionPublicKey gmp0 s (getVerifier gmp0 ?e c) = (B, s')" by fastforce
  have same: "same_buffer gmp0 ?e env0 n z" for n z by (simp add: same_buffer_def)
  have f: "\<not> s_B_inited s" "0 \<le> s_b s" using s salt_object [OF c(2), of gmp0 env0 7 "''ALICE''"]
    by (auto simp: fresh_srp_def gmp0_def srp_N_def SRP3_N_def)
  have B': "0 \<le> B" "B < 256 ^ 32"
    unfolding server_key(1) [OF gmp0_ok f B] using mod_range [OF gmp0_ok] by blast+
  obtain S where S: "getClientSecret gmp0 ?e c B = Inr S"
    using getScrambler_same [OF gmp0_ok B' same [of 32 B]] by (auto simp: getClientSecret_def Let_def)
  obtain k where k: "hashSecret gmp0 ?e S = Inr k"
    using hashSecret_same [OF gmp0_ok _ _ same [of 32 S]] secrets_agree(2) [OF gmp0_ok _ f(2,1) B same S]
      password_object [OF gmp0_ok, of ?e 5 "''Alice''" "''secret''"] c(1) by auto
  have "map toupper (c_str ''ALICE'') = map toupper (c_str ''Alice'')"
    by (simp add: c_str_def NUL_def toupper_def char_of_def bit_0)
  from srp_login_agrees [OF gmp0_ok _ c(1) s this B S k same same same same] show ?thesis
    using c(1) s B by auto
qed

text \<open>
  A public key whose highest byte is zero does not fill the 32 byte buffer it is hashed from:
  the scrambling factor is then taken from a hash that covers bytes the program never wrote.
\<close>

theorem short_key_hashes_stale_bytes:
  assumes "gmp_ok G" and "0 \<le> B" and "B < 256 ^ 31"
  shows "length (mpz_export G B) < 32 \<and> getScrambler G e B = Inr (uint (htonl (of_le32 (take 4
    (sha1 (mpz_export G B @ drop (length (mpz_export G B)) (fresh e ''raw_B'' 32)))))))"
proof -
  have "length (mpz_export G B) \<le> 31" by (rule gmp_okD(7) [OF assms])
  then show ?thesis by (simp add: getScrambler_def export_to_def SHA1_call Let_def fresh_def)
qed

theorem short_key_hashes_stale_bytes_witness:
  "length (mpz_export gmp0 258) < 32 \<and> getScrambler gmp0 env0 258 = Inr (uint (htonl (of_le32 (take 4
    (sha1 (mpz_export gmp0 258 @ drop (length (mpz_export gmp0 258)) (fresh env0 ''raw_B'' 32)))))))"
  by (rule short_key_hashes_stale_bytes [OF gmp0_ok]) simp_all

end
