(* ===== verification/Packets.thy ===== *)
theory Packets
  imports CheckRev Srp
begin

text \<open>
  The packets that the server builds (src/blitzd/packets): for each packet class the bytes that its
  \<^verbatim>\<open>Pack\<close> or \<^verbatim>\<open>Build\<close> appends, \<open>None\<close> where it returns false. A class without access to the server
  state is a function of its fields; the others are operations on the state.

  \<open>config\<close> holds what is computed once when the server starts: the directory of the files it sends,
  the checksum formula and the known revisions of the games, the compressed ladder descriptions; and
  what the sources take from libraries: the functions of GMP, the address that \<^verbatim>\<open>getpeername\<close> reports
  for a connection and whether a buffer of a size can be allocated.
\<close>

record config =
  files_dir :: string
  formula :: string
  revlist :: "revision list"
  comp_urldata :: bytes
  comp_mapname :: bytes
  comp_mapinfo :: bytes
  comp_mapdesc :: bytes
  comp_ladderdata :: bytes
  srp_gmp :: gmp
  peer_of :: "nat \<Rightarrow> u32 option"
  can_alloc :: "nat \<Rightarrow> bool"

section \<open>Packets made of their fields\<close>

definition AccountChange_Pack :: "u32 \<Rightarrow> bytes \<Rightarrow> bytes \<Rightarrow> bytes" where
  "AccountChange_Pack status salt pubkey = le32 status @ take 32 salt @ take 32 pubkey"

definition AccountChangeProof_Pack :: "u32 \<Rightarrow> bytes \<Rightarrow> bytes" where
  "AccountChangeProof_Pack status proof = le32 status @ take 20 proof"

definition AccountCreate_Pack :: "u32 \<Rightarrow> bytes" where
  "AccountCreate_Pack result = le32 result"

definition AuthCheck_Pack :: "u32 \<Rightarrow> string \<Rightarrow> bytes" where
  "AuthCheck_Pack code errorMsg = le32 code @ str_bytes (c_str errorMsg)"

definition AuthLogon_Pack :: "u32 \<Rightarrow> bytes \<Rightarrow> bytes \<Rightarrow> bytes" where
  "AuthLogon_Pack status salt pubkey = le32 status @ take 32 salt @ take 32 pubkey"

definition AuthLogonProof_Pack :: "u32 \<Rightarrow> bytes \<Rightarrow> string \<Rightarrow> bytes" where
  "AuthLogonProof_Pack status proof msg =
     le32 status @ take 20 proof @ (if msg \<noteq> [] then str_bytes (c_str msg) else [])"

definition EnterChat_Pack :: "string \<Rightarrow> string \<Rightarrow> string \<Rightarrow> bytes" where
  "EnterChat_Pack uname stats aname = str_bytes (c_str uname) @ str_bytes (c_str stats) @ str_bytes (c_str aname)"

definition FriendPosition_Pack :: "u8 \<Rightarrow> u8 \<Rightarrow> bytes" where
  "FriendPosition_Pack oindex nindex = [oindex, nindex]"

definition FriendRemove_Pack :: "u8 \<Rightarrow> bytes" where
  "FriendRemove_Pack index = [index]"

definition Null_Pack :: bytes where
  "Null_Pack = []"

definition OldAccountChange_Pack :: "u32 \<Rightarrow> bytes" where
  "OldAccountChange_Pack result = le32 result"

definition OldAccountCreate2_Pack :: "u32 \<Rightarrow> bytes" where
  "OldAccountCreate2_Pack result = le32 result"

definition OldAuthLogon2_Pack :: "u32 \<Rightarrow> string \<Rightarrow> bytes" where
  "OldAuthLogon2_Pack result reason = le32 result @ (if reason \<noteq> [] then str_bytes (c_str reason) else [])"

definition Ping_Pack :: "u32 \<Rightarrow> bytes" where
  "Ping_Pack sid = le32 sid"

definition Profile_Pack :: "u32 \<Rightarrow> u8 \<Rightarrow> string \<Rightarrow> string \<Rightarrow> u32 \<Rightarrow> bytes" where
  "Profile_Pack token result description location clan =
     le32 token @ [result] @ (if result = 0 then str_bytes description @ str_bytes location @ le32 clan else [])"

text \<open>The result table has \<open>acount\<close> rows of \<open>kcount\<close> texts.\<close>

definition ReadUserData_Pack :: "u32 \<Rightarrow> u32 \<Rightarrow> u32 \<Rightarrow> string list list \<Rightarrow> bytes" where
  "ReadUserData_Pack acount kcount token result =
     le32 acount @ le32 kcount @ le32 token @ concat (map (\<lambda>row. concat (map str_bytes row)) result)"

definition ReplyFileInfo_Pack :: "u64 \<Rightarrow> u64 \<Rightarrow> string \<Rightarrow> bytes" where
  "ReplyFileInfo_Pack fileid filetime filename = le64 fileid @ le64 filetime @ str_bytes filename"

definition ReplyIcon_Pack :: "u64 \<Rightarrow> string \<Rightarrow> bytes" where
  "ReplyIcon_Pack filetime filename = le64 filetime @ str_bytes filename"

definition ReqEmail_Pack :: bytes where
  "ReqEmail_Pack = []"

definition StartAdvEx3_Pack :: "u32 \<Rightarrow> bytes" where
  "StartAdvEx3_Pack status = le32 status"

definition War3Info_Pack :: "config \<Rightarrow> u8 \<Rightarrow> u32 \<Rightarrow> u32 \<Rightarrow> bool \<Rightarrow> bytes option" where
  "War3Info_Pack cf subcmd cookie tag is_last =
     (if subcmd = 2 then
        let hd' = [subcmd] @ le32 cookie @ [1] @ le32 tag; tl' = [if is_last then 0 else 1] in
        if tag = 0x55524c then Some (hd' @ le32 0xBF1F1047 @ comp_urldata cf @ tl')
        else if tag = 0x4d4150 then Some (hd' @ le32 0x70E2E0D5 @ comp_mapname cf @ tl')
        else if tag = 0x54595045 then Some (hd' @ le32 0x7C87DEEE @ comp_mapinfo cf @ tl')
        else if tag = 0x44455343 then Some (hd' @ le32 0xA4F0A22F @ comp_mapdesc cf @ tl')
        else if tag = 0x4c414452 then Some (hd' @ le32 0x3BADE25A @ comp_ladderdata cf @ tl')
        else None
      else None)"

definition FileToken_Build :: "u32 \<Rightarrow> bytes" where
  "FileToken_Build token = le32 token"

definition udp_build :: "u32 \<Rightarrow> bytes \<Rightarrow> bytes" where
  "udp_build cmd body = le32 cmd @ body"

definition UDPServerPing_Pack :: bytes where
  "UDPServerPing_Pack = le32 0x626E6574"

definition BaalAuthInfo_Pack :: "u32 \<Rightarrow> bytes" where "BaalAuthInfo_Pack session = le32 session"
definition BaalAuthReply_Pack :: "u32 \<Rightarrow> bytes" where "BaalAuthReply_Pack result = le32 result"
definition BaalCheckReply_Pack :: "u32 \<Rightarrow> bytes" where "BaalCheckReply_Pack result = le32 result"

section \<open>Packets that read the server state\<close>

subsection \<open>Files, news and realms\<close>

definition AuthInfo_Pack :: "env \<Rightarrow> config \<Rightarrow> nat \<Rightarrow> bytes option M" where
  "AuthInfo_Pack e cf a = bind (client_at a) (\<lambda>c.
     let fn = ''ver-ix86-'' @ [char_of (48 + unat (c_token c mod 8))] @ ''.mpq'' in
     bind (fileCache e (files_dir cf) fn) (\<lambda>ptr. case ptr of None \<Rightarrow> ret None
     | Some f \<Rightarrow> ret (Some (le32 (ucast (c_protocolVer c)) @ le32 (c_token c) @ le32 (c_session c) @ le64 (f_ft f)
         @ str_bytes fn @ str_bytes (c_str (formula cf))
         @ (if c_protocolVer c = 2 then replicate 128 0 else [])))))"

definition ReplyNews_Pack :: "env \<Rightarrow> u32 \<Rightarrow> bytes M" where
  "ReplyNews_Pack e last_time = gets (\<lambda>w.
     let (c, news) = GetAfter last_time (newsmap w) []
     in [c + 1] @ le32 (time_now e) @ le32 (OldestTime (newsmap w)) @ le32 (NewestTime (newsmap w))
        @ le32 0 @ str_bytes (c_str (motd w))
        @ (if c > 0 then concat (map (\<lambda>(t, n). le32 t @ str_bytes (c_str n)) news) else []))"

definition RealmList2_Pack :: "bytes M" where
  "RealmList2_Pack = gets (\<lambda>w. le32 0 @ Realm_BuildPacket (realmMap w))"

definition RealmLogonEx_Pack :: "env \<Rightarrow> u32 \<Rightarrow> string \<Rightarrow> nat \<Rightarrow> bytes M" where
  "RealmLogonEx_Pack e cookie realmName a = bind (realmCache realmName) (\<lambda>realm. case realm of
       None \<Rightarrow> ret (le32 cookie @ le32 0x80000001)
     | Some r \<Rightarrow> bind (client_at a) (\<lambda>c. case c_user c of
         None \<Rightarrow> ret (le32 cookie @ le32 0x80000002)
       | Some u \<Rightarrow> bind (user_at u) (\<lambda>user.
           ret (le32 cookie @ le32 0 @ le32 0 @ le32 (c_session c) @ le32 (htonl (r_ip r)) @ le32 (ucast (htons (r_port r)))
             @ replicate 12 0 @ le32 (c_gameid c) @ le32 (c_version c) @ replicate 8 0
             @ SHA1_call e [le32 cookie, le32 (c_session c), le32 (c_token c), take 20 (u_passwd user)]
             @ str_bytes (u_username user)))))"

definition FileHeader_Build :: "env \<Rightarrow> config \<Rightarrow> string \<Rightarrow> u32 \<Rightarrow> u32 \<Rightarrow> u32 \<Rightarrow> bytes option M" where
  "FileHeader_Build e cf fileName adid extag offset =
     bind (fileCache e (files_dir cf) fileName) (\<lambda>ptr. ret (case ptr of None \<Rightarrow> None
     | Some f \<Rightarrow>
         if f_data f = [] \<or> unat offset \<ge> length (f_data f) then None
         else let h = le32 (GetSize f - offset) @ le32 adid @ le32 extag @ le64 (f_ft f) @ str_bytes (c_str fileName)
              in Some (le32 (word_of_nat (4 + length h)) @ h @ drop (unat offset) (f_data f))))"

subsection \<open>Games\<close>

definition adv_entry :: "game_item \<Rightarrow> client \<Rightarrow> bytes" where
  "adv_entry g host = le32 (g_type g) @ le32 (g_option g) @ le16 2 @ le16 (htons (c_gamePort host)) @ le32 (htonl (c_gameIp host))
     @ le64 0 @ le32 ((g_flag g AND 2) OR 4) @ le32 (g_stime g)
     @ str_bytes (c_str (g_name g)) @ str_bytes (c_str (g_passwd g)) @ str_bytes (c_str (g_stat g))"

text \<open>The loop over all games: the number counted so far and the bytes written so far.\<close>

primrec adv_loop :: "u32 \<Rightarrow> u32 \<Rightarrow> u32 \<Rightarrow> u32 \<Rightarrow> (string \<times> nat) list \<Rightarrow> u32 \<Rightarrow> bytes \<Rightarrow> (u32 \<times> bytes) M" where
  "adv_loop startidx maxcount cond msk [] c out = ret (c, out)"
| "adv_loop startidx maxcount cond msk (it # gs) c out = bind (game_at (snd it)) (\<lambda>item.
     bind (case g_host item of
             Some h \<Rightarrow>
               if (msk = 0 \<or> g_type item AND msk = cond AND msk) \<and> g_broadcast item
               then if c + 1 > startidx \<and> c + 1 \<le> maxcount
                    then bind (client_at h) (\<lambda>host. ret (c + 1, out @ adv_entry item host))
                    else ret (c + 1, out)
               else ret (c, out)
           | None \<Rightarrow> ret (c, out)) (\<lambda>(c', out').
     if c' = maxcount then ret (c', out') else adv_loop startidx maxcount cond msk gs c' out'))"

text \<open>
  \<^verbatim>\<open>GetPasswd()\<close> returns a fresh string, so comparing the two \<^verbatim>\<open>c_str()\<close> pointers never finds them
  equal: a game with a password is always refused.
\<close>

definition AdvListEx_Pack :: "string \<Rightarrow> string \<Rightarrow> u32 \<Rightarrow> u32 \<Rightarrow> u32 \<Rightarrow> u32 \<Rightarrow> bytes M" where
  "AdvListEx_Pack gamename gamepass startidx maxcount cond msk =
     (if gamename = [] then
        bind (gets game_map) (\<lambda>m. bind (adv_loop startidx maxcount cond msk m 0 []) (\<lambda>(c, out).
        ret (le32 c @ out @ (if c = 0 then le32 0 else []))))
      else bind (Games_find gamename) (\<lambda>p. case p of
          None \<Rightarrow> ret (le32 0 @ le32 1)
        | Some g \<Rightarrow> bind (game_at g) (\<lambda>item. case g_host item of
            None \<Rightarrow> ret (le32 0 @ le32 1)
          | Some h \<Rightarrow>
              if g_flag item AND 2 > 0 then ret (le32 0 @ le32 3)
              else if g_flag item AND 8 > 0 then ret (le32 0 @ le32 4)
              else if g_passwd item \<noteq> [] then ret (le32 0 @ le32 2)
              else bind (client_at h) (\<lambda>host. ret (adv_entry item host)))))"

subsection \<open>Channels\<close>

primrec channel_names :: "nat option \<Rightarrow> nat list \<Rightarrow> bytes M" where
  "channel_names own [] = ret []"
| "channel_names own (it # its) = bind (channel_at it) (\<lambda>x. bind (channel_names own its) (\<lambda>out.
     ret (if \<not> ch_spawned x \<and> Some it \<noteq> own then str_bytes (ch_name x) @ out else out)))"

text \<open>\<^verbatim>\<open>itemlist\<close> is a reference into the cache, so the second list replaces the first one there.\<close>

definition ListChannel_Pack :: "nat \<Rightarrow> bytes M" where
  "ListChannel_Pack a = bind (client_at a) (\<lambda>c.
     bind (Channels_by_tag (c_gameid c)) (\<lambda>itemlist. bind (channel_names (c_channel c) itemlist) (\<lambda>out1.
     bind (Channels_by_tag 0) (\<lambda>itemlist0.
     seq (modify (\<lambda>w. w\<lparr>game_channelmap := oset (<) (game_channelmap w) (c_gameid c) itemlist0\<rparr>))
     (bind (channel_names (c_channel c) itemlist0) (\<lambda>out2. ret (out1 @ out2 @ [0])))))))"

subsection \<open>Friends\<close>

text \<open>Where the friend's client is, as the three friend packets describe it.\<close>

definition friend_location :: "bool \<Rightarrow> client \<Rightarrow> (u8 \<times> string) M" where
  "friend_location mut c = (case c_game c of
       Some g \<Rightarrow> bind (game_at g) (\<lambda>x. ret
         (if g_flag x AND 1 \<noteq> 0 then if mut then (5, g_name x) else (4, []) else (3, g_name x)))
     | None \<Rightarrow> (case c_channel c of
         Some ch \<Rightarrow> bind (channel_at ch) (\<lambda>x. ret (2, ch_name x))
       | None \<Rightarrow> ret (1, [])))"

definition friend_status :: "bool \<Rightarrow> nat option \<Rightarrow> bytes M" where
  "friend_status mut clptr = (case clptr of None \<Rightarrow> ret ([0, 0] @ le32 0 @ str_bytes [])
     | Some a \<Rightarrow> bind (client_at a) (\<lambda>c. bind (friend_location mut c) (\<lambda>(location, locname).
         ret ([(if mut then 1 else 0) OR (if c_dnd c \<noteq> [] then 2 else 0) OR (if c_away c \<noteq> [] then 4 else 0), location]
           @ le32 (c_gameid c) @ str_bytes locname))))"

definition FriendAdd_Pack :: "nat option \<Rightarrow> friend_t \<Rightarrow> bytes option M" where
  "FriendAdd_Pack cl fr = (case fuser fr of None \<Rightarrow> ret None
     | Some u \<Rightarrow> bind (user_at u) (\<lambda>user.
         bind (case cl of None \<Rightarrow> pool_by_name (u_username user) | Some a \<Rightarrow> ret (Some a)) (\<lambda>clptr.
         bind (friend_status (mutual fr) clptr) (\<lambda>st. ret (Some (str_bytes (c_str (u_username user)) @ st))))))"

definition FriendUpdate_Pack :: "u8 \<Rightarrow> nat option \<Rightarrow> friend_t \<Rightarrow> bytes option M" where
  "FriendUpdate_Pack index cl fr = (case fuser fr of None \<Rightarrow> ret None
     | Some u \<Rightarrow>
         bind (case cl of None \<Rightarrow> bind (user_at u) (\<lambda>user. pool_by_name (u_username user)) | Some a \<Rightarrow> ret (Some a)) (\<lambda>clptr.
         bind (friend_status (mutual fr) clptr) (\<lambda>st. ret (Some ([index] @ st)))))"

definition friend_entry :: "friend_t \<Rightarrow> bytes M" where
  "friend_entry fr = (case fuser fr of None \<Rightarrow> ret []
     | Some u \<Rightarrow> bind (user_at u) (\<lambda>user. bind (pool_by_name (u_username user)) (\<lambda>clptr.
         bind (friend_status (mutual fr) clptr) (\<lambda>st. ret (str_bytes (c_str (u_username user)) @ st)))))"

primrec friend_entries :: "user_item \<Rightarrow> nat list \<Rightarrow> bytes M" where
  "friend_entries u [] = ret []"
| "friend_entries u (i # is) = (case GetFriend i u of None \<Rightarrow> fail NullDeref
     | Some fr \<Rightarrow> bind (friend_entry fr) (\<lambda>b. bind (friend_entries u is) (\<lambda>bs. ret (b @ bs))))"

definition FriendsList_Pack :: "nat \<Rightarrow> bytes option M" where
  "FriendsList_Pack a = bind (client_at a) (\<lambda>c. case c_user c of None \<Rightarrow> ret None
     | Some p \<Rightarrow> bind (user_at p) (\<lambda>u. let cc = (ucast (GetFriendCount u) :: u8) in
         bind (friend_entries u [0..<unat cc]) (\<lambda>bs. ret (Some ([cc] @ bs)))))"

end
