(* ===== verification/Commands.thy ===== *)
theory Commands
  imports Packets
begin

text \<open>
  The commands that a client types into the chat (src/blitzd/core/command): splitting the line,
  the table of commands, and one operation per command. \<open>n\<close> is the fuel for loading accounts.
\<close>

section \<open>The commands\<close>

definition info :: "nat \<Rightarrow> string \<Rightarrow> unit M" where
  "info a msg = bind (Message_Send (Some a) None MT_Info msg) (\<lambda>_. ret ())"

definition CommandAway :: "nat \<Rightarrow> string \<Rightarrow> unit M" where
  "CommandAway a arg1 = bind (client_at a) (\<lambda>c.
     seq (upd_client a (\<lambda>c. c\<lparr>c_away := arg1\<rparr>))
     (if arg1 = [] then whenM (c_away c \<noteq> []) (info a ''You have set your status back to online'')
      else info a (''You have set your status to away ('' @ arg1 @ '').'')))"

definition CommandDND :: "nat \<Rightarrow> string \<Rightarrow> unit M" where
  "CommandDND a arg1 = bind (client_at a) (\<lambda>c.
     seq (upd_client a (\<lambda>c. c\<lparr>c_dnd := arg1\<rparr>))
     (if arg1 = [] then whenM (c_dnd c \<noteq> []) (info a ''You have set your status back to online'')
      else info a (''You have set your status to DND ('' @ arg1 @ '').'')))"

definition CommandChannels :: "nat \<Rightarrow> unit M" where
  "CommandChannels a = bind (client_at a) (\<lambda>c. bind (Channels_by_tag (c_gameid c)) (\<lambda>item.
     seq (info a ''Channels:'')
       (forM item (\<lambda>it. bind (channel_at it) (\<lambda>x. info a (''  '' @ ch_name x))))))"

definition CommandJoin :: "nat \<Rightarrow> string \<Rightarrow> unit M" where
  "CommandJoin a arg1 = bind (client_at a) (\<lambda>c. bind (Ensure arg1 (c_gameid c) (c_str (c_countryab c))) (\<lambda>ptr.
     case ptr of Some ch \<Rightarrow> Channel_Join ch a | None \<Rightarrow> info a ''The channel is full.''))"

definition CommandReply :: "nat \<Rightarrow> string \<Rightarrow> unit M" where
  "CommandReply a arg1 = (if arg1 = [] then ret ()
     else bind (client_at a) (\<lambda>c. bind (SendWhisper (c_lastWhisper c) (Some a) arg1 True) (\<lambda>_. ret ())))"

definition CommandStatus :: "nat \<Rightarrow> unit M" where
  "CommandStatus a = bind (gets user_count) (\<lambda>count.
     seq (info a (fmt_append_u ''There are '' count @ '' registered users.''))
     (bind (gets (\<lambda>w. word_of_nat (length (clientMap w)))) (\<lambda>online.
      bind (gets (\<lambda>w. word_of_nat (length (game_map w)))) (\<lambda>gs.
        info a (fmt_append_u (fmt_append_u ''There are '' online @ '' online users in '') gs @ '' games.'')))))"

definition CommandWhisper :: "nat \<Rightarrow> string \<Rightarrow> string \<Rightarrow> unit M" where
  "CommandWhisper a arg1 argr = (if arg1 = [] \<or> argr = [] then ret ()
     else bind (SendWhisper arg1 (Some a) argr True) (\<lambda>_. ret ()))"

definition CommandWhoIs :: "nat \<Rightarrow> string \<Rightarrow> unit M" where
  "CommandWhoIs a arg1 = (if arg1 = [] then ret ()
     else bind (pool_by_name arg1) (\<lambda>c. case c of
         None \<Rightarrow> info a ''The user is offline.''
       | Some b \<Rightarrow> bind (client_at b) (\<lambda>c. bind (GetUsername b) (\<lambda>un. case c_game c of
           Some g \<Rightarrow> bind (game_at g) (\<lambda>x. info a (un @ '' is in game '' @ [CHR 0x27] @ g_name x @ [CHR 0x27] @ ''.''))
         | None \<Rightarrow> (case c_channel c of
             Some ch \<Rightarrow> bind (channel_at ch) (\<lambda>x. info a (un @ '' is in channel '' @ [CHR 0x27] @ ch_name x @ [CHR 0x27] @ ''.''))
           | None \<Rightarrow> info a (un @ '' is online.''))))))"

section \<open>The friend command\<close>

definition one_of :: "string \<Rightarrow> string list \<Rightarrow> bool" where
  "one_of arg ws \<longleftrightarrow> list_ex (\<lambda>x. generic_strcmpia (c_str arg) x = 0) ws"

definition friend_help :: "nat \<Rightarrow> unit M" where
  "friend_help a = forM [''Usage:'', ''  /f h          show this help'', ''  /f l          list friends'',
     ''  /f w/m <msg>  send whisper to all friends'', ''  /f a <name>   add friend'',
     ''  /f r <name>   remove friend'', ''  /f p <name>   promote friend'', ''  /f d <name>   demote friend''] (info a)"

text \<open>In the game branch \<^verbatim>\<open>c->GetChannel()\<close> is used again, which is NULL there.\<close>

definition friend_where :: "friend_t \<Rightarrow> nat option \<Rightarrow> string M" where
  "friend_where fr c = (case c of None \<Rightarrow> ret ''offline''
     | Some b \<Rightarrow> bind (client_at b) (\<lambda>c. case c_channel c of
         Some ch \<Rightarrow> if mutual fr then bind (channel_at ch) (\<lambda>x. ret (''in channel '' @ ch_name x)) else ret ''in a channel''
       | None \<Rightarrow> (case c_game c of
           Some g \<Rightarrow> if mutual fr then bind (the_ptr (c_channel c)) (\<lambda>ch. bind (channel_at ch) (\<lambda>x. ret (''in game '' @ ch_name x)))
                     else ret ''in a game''
         | None \<Rightarrow> ret ''online'')))"

definition friend_line :: "nat \<Rightarrow> nat \<Rightarrow> nat \<Rightarrow> unit M" where
  "friend_line a user i = bind (user_at user) (\<lambda>u. case GetFriend i u of None \<Rightarrow> ret ()
     | Some fr \<Rightarrow> bind (the_ptr (fuser fr)) (\<lambda>f. bind (user_at f) (\<lambda>fu.
         bind (pool_by_name (u_username fu)) (\<lambda>c. bind (friend_where fr c) (\<lambda>utxt.
           info a (u_username fu @ '', '' @ utxt))))))"

definition friend_list :: "nat \<Rightarrow> unit M" where
  "friend_list a = seq (info a ''Your friends:'') (bind (client_at a) (\<lambda>c. case c_user c of None \<Rightarrow> ret ()
     | Some user \<Rightarrow> bind (user_at user) (\<lambda>u. forM [0..<unat (GetFriendCount u)] (friend_line a user))))"

definition friend_added :: "nat \<Rightarrow> nat \<Rightarrow> nat \<Rightarrow> int \<Rightarrow> int \<Rightarrow> unit M" where
  "friend_added a user cuser idx mutIdx = bind (user_at user) (\<lambda>u. bind (pool_by_name (u_username u)) (\<lambda>c.
     seq (case c of None \<Rightarrow> ret ()
          | Some b \<Rightarrow>
              seq (whenM (mutIdx \<ge> 0) (case GetFriend (nat mutIdx) u of None \<Rightarrow> fail NullDeref
                     | Some fr \<Rightarrow> bind (FriendUpdate_Pack (word_of_int mutIdx) (Some a) fr) (BuildAndSendTo b 0x66FF)))
                (bind (user_at cuser) (\<lambda>cu. info b (u_username cu @ '' added you as his/her friend.''))))
     (bind (user_at cuser) (\<lambda>cu. case GetFriend (nat idx) cu of None \<Rightarrow> fail NullDeref
        | Some fr \<Rightarrow> seq (bind (FriendAdd_Pack c fr) (BuildAndSendTo a 0x67FF))
            (info a (''Added '' @ u_username u @ '' to your friend list.''))))))"

definition friend_add :: "nat \<Rightarrow> env \<Rightarrow> nat \<Rightarrow> string \<Rightarrow> unit M" where
  "friend_add n e a argr = bind (user_by_name n e argr) (\<lambda>user. case user of
       None \<Rightarrow> info a ''The user does not exist!''
     | Some u \<Rightarrow> bind (client_at a) (\<lambda>c.
         if c_user c = Some u then info a ''Can not add yourself!''
         else case c_user c of None \<Rightarrow> ret ()
           | Some cuser \<Rightarrow> bind (AddFriend cuser (Some u)) (\<lambda>(idx, mutIdx). bind (user_at cuser) (\<lambda>cu.
               if idx < 0 then info a ''Failed to add friend.''
               else if word_of_int idx \<noteq> GetFriendCount cu - 1 then info a ''The user is already in your friend list.''
               else friend_added a u cuser idx (case mutIdx of None \<Rightarrow> -1 | Some i \<Rightarrow> i)))))"

text \<open>The three commands that look for an account in the friend list; \<open>act\<close> is what they do with it.\<close>

definition with_friend :: "nat \<Rightarrow> env \<Rightarrow> nat \<Rightarrow> string \<Rightarrow> (nat \<Rightarrow> nat \<Rightarrow> nat \<Rightarrow> unit M) \<Rightarrow> unit M" where
  "with_friend n e a argr act = bind (user_by_name n e argr) (\<lambda>user. case user of
       None \<Rightarrow> info a ''The user does not exist!''
     | Some u \<Rightarrow> bind (client_at a) (\<lambda>c. case c_user c of None \<Rightarrow> ret ()
         | Some cuser \<Rightarrow> bind (user_at cuser) (\<lambda>cu. let idx = FindFriend u (u_friend_list cu) in
             if idx < 0 then info a ''The user is not in your friend list!'' else act u cuser (nat idx))))"

definition friend_remove :: "nat \<Rightarrow> nat \<Rightarrow> nat \<Rightarrow> nat \<Rightarrow> unit M" where
  "friend_remove a u cuser idx =
     seq (RemoveFriend_at cuser idx)
     (seq (BuildAndSendTo a 0x68FF (Some (FriendRemove_Pack (word_of_nat idx))))
     (bind (user_at u) (\<lambda>x. info a (''Removed '' @ u_username x @ '' from your friend list.''))))"

definition friend_demote :: "nat \<Rightarrow> nat \<Rightarrow> nat \<Rightarrow> nat \<Rightarrow> unit M" where
  "friend_demote a u cuser idx = bind (user_at cuser) (\<lambda>cu.
     whenM (word_of_nat idx + 1 < GetFriendCount cu)
       (seq (upd_user cuser (\<lambda>cu. snd (MoveFriend idx (idx + 1) cu)))
            (BuildAndSendTo a 0x69FF (Some (FriendPosition_Pack (word_of_nat idx) (word_of_nat idx + 1))))))"

definition friend_promote :: "nat \<Rightarrow> nat \<Rightarrow> nat \<Rightarrow> nat \<Rightarrow> unit M" where
  "friend_promote a u cuser idx =
     whenM (idx > 0)
       (seq (upd_user cuser (\<lambda>cu. snd (MoveFriend idx (idx - 1) cu)))
            (BuildAndSendTo a 0x69FF (Some (FriendPosition_Pack (word_of_nat idx) (word_of_nat idx - 1)))))"

definition CommandFriend :: "nat \<Rightarrow> env \<Rightarrow> nat \<Rightarrow> string \<Rightarrow> string \<Rightarrow> unit M" where
  "CommandFriend n e a arg1 argr =
     (if arg1 = [] \<or> one_of arg1 [''h'', ''help''] then friend_help a
      else if one_of arg1 [''l'', ''list''] then friend_list a
      else if one_of arg1 [''w'', ''whisper'', ''m'', ''msg''] then
        whenM (argr \<noteq> []) (bind (client_at a) (\<lambda>c. case c_user c of None \<Rightarrow> ret ()
          | Some user \<Rightarrow> FriendWhisper user (Some a) argr False))
      else if one_of arg1 [''a'', ''add''] then friend_add n e a argr
      else if one_of arg1 [''del'', ''delete'', ''r'', ''remove''] then with_friend n e a argr (friend_remove a)
      else if one_of arg1 [''d'', ''demote''] then with_friend n e a argr (friend_demote a)
      else if one_of arg1 [''p'', ''promote''] then with_friend n e a argr (friend_promote a)
      else ret ())"

section \<open>The command line\<close>

datatype handler = HFriend | HWhisper | HReply | HChannels | HDND | HAway | HStatus | HJoin | HWhoIs

fun IsSingle :: "handler \<Rightarrow> bool" where
  "IsSingle HFriend = False"
| "IsSingle HWhisper = False"
| "IsSingle _ = True"

fun handler_Process :: "nat \<Rightarrow> env \<Rightarrow> handler \<Rightarrow> nat \<Rightarrow> string \<Rightarrow> string \<Rightarrow> unit M" where
  "handler_Process n e HFriend a arg1 argr = CommandFriend n e a arg1 argr"
| "handler_Process n e HWhisper a arg1 argr = CommandWhisper a arg1 argr"
| "handler_Process n e HReply a arg1 argr = CommandReply a arg1"
| "handler_Process n e HChannels a arg1 argr = CommandChannels a"
| "handler_Process n e HDND a arg1 argr = CommandDND a arg1"
| "handler_Process n e HAway a arg1 argr = CommandAway a arg1"
| "handler_Process n e HStatus a arg1 argr = CommandStatus a"
| "handler_Process n e HJoin a arg1 argr = CommandJoin a arg1"
| "handler_Process n e HWhoIs a arg1 argr = CommandWhoIs a arg1"

definition Register :: "string \<Rightarrow> handler \<Rightarrow> (string \<times> handler) list \<Rightarrow> (string \<times> handler) list" where
  "Register cmd h m = oset str_less m cmd h"

definition cmd_map :: "(string \<times> handler) list" where
  "cmd_map = fold (\<lambda>(c, h). Register c h)
     [(''f'', HFriend), (''friend'', HFriend), (''w'', HWhisper), (''whisper'', HWhisper), (''m'', HWhisper),
      (''msg'', HWhisper), (''message'', HWhisper), (''r'', HReply), (''reply'', HReply), (''channels'', HChannels),
      (''dnd'', HDND), (''away'', HAway), (''status'', HStatus), (''users'', HStatus), (''channel'', HJoin),
      (''join'', HJoin), (''whois'', HWhoIs), (''where'', HWhoIs), (''whereis'', HWhoIs)] []"

definition strtolower :: "string \<Rightarrow> string" where
  "strtolower s = map tolower s"

definition up_to_blank :: "string \<Rightarrow> string" where
  "up_to_blank s = takeWhile (\<lambda>c. c \<noteq> CHR '' '') s"

text \<open>Behind the first blank, further blanks skipped.\<close>

definition behind_blanks :: "string \<Rightarrow> string" where
  "behind_blanks s = dropWhile (\<lambda>c. c = CHR '' '') (tl (dropWhile (\<lambda>c. c \<noteq> CHR '' '') s))"

definition split_args :: "bool \<Rightarrow> string \<Rightarrow> string \<times> string" where
  "split_args single text = (let r = behind_blanks text in
     if single \<or> CHR '' '' \<notin> set r then (r, []) else (up_to_blank r, behind_blanks r))"

definition Command_Process :: "nat \<Rightarrow> env \<Rightarrow> nat \<Rightarrow> string \<Rightarrow> unit M" where
  "Command_Process n e a text =
     (case ofind str_less cmd_map (strtolower (tl (up_to_blank text))) of None \<Rightarrow> ret ()
      | Some h \<Rightarrow> (case split_args (IsSingle h) text of (arg1, argr) \<Rightarrow> handler_Process n e h a arg1 argr))"

end
