(* ===== verification/Requests.thy ===== *)
theory Requests
  imports Commands
begin

text \<open>
  What the server does with each request: the \<^verbatim>\<open>Process\<close> functions of src/blitzd/plugins, and the
  suites that select one of them by the operation code (src/interface/PluginManager.cpp).

  A request is handled for the client at address \<open>a\<close> with the stream \<open>s\<close> of its packet; the result
  is what \<^verbatim>\<open>Process\<close> returns. A variable that is read from the stream keeps what its memory held
  when the packet is too short, so every local variable starts with \<open>fresh\<close> contents.
\<close>

section \<open>Reading fields\<close>

primrec read32s :: "env \<Rightarrow> string list \<Rightarrow> stream \<Rightarrow> u32 list \<times> stream" where
  "read32s e [] s = ([], s)"
| "read32s e (v # vs) s = (case get32 (fresh32 e v) s of (x, s') \<Rightarrow> (case read32s e vs s' of (xs, s'') \<Rightarrow> (x # xs, s'')))"

primrec read_strs :: "nat \<Rightarrow> stream \<Rightarrow> string list \<times> stream" where
  "read_strs 0 s = ([], s)"
| "read_strs (Suc n) s = (case get_str s of (x, s') \<Rightarrow> (case read_strs n s' of (xs, s'') \<Rightarrow> (x # xs, s'')))"

definition lift :: "'a res \<Rightarrow> 'a M" where
  "lift r w = (case r of Inl f \<Rightarrow> Inl f | Inr x \<Rightarrow> Inr (x, w))"

definition UCF_OLSAUTH :: u32 where "UCF_OLSAUTH = 0x10000000"
definition UCF_NLSAUTH :: u32 where "UCF_NLSAUTH = 0x20000000"
definition UF_NOUDP :: u32 where "UF_NOUDP = 0x10"

type_synonym plugin = "nat \<Rightarrow> stream \<Rightarrow> bool M"

section \<open>Before the login\<close>

definition AuthInfo :: "env \<Rightarrow> config \<Rightarrow> plugin" where
  "AuthInfo e cf a s =
     (case read32s e [''protocol'', ''platform'', ''product'', ''ver'', ''gamelang'', ''natIP'', ''tzone'', ''locale'', ''bnlang''] s of (v, s1) \<Rightarrow>
      case get_str s1 of (country_abr, s2) \<Rightarrow> case get_str s2 of (country_name, _) \<Rightarrow>
        seq (upd_client a (SetAuthInfo (v ! 1) (v ! 2) (v ! 3) (v ! 4) (v ! 5) (v ! 6) (v ! 7) (v ! 8) country_abr country_name))
        (seq (SendPing e a) (seq (bind (AuthInfo_Pack e cf a) (BuildAndSendTo a 0x50FF)) (ret True))))"

text \<open>The rest of the packet is read and not used.\<close>

definition AuthCheck :: "env \<Rightarrow> config \<Rightarrow> plugin" where
  "AuthCheck e cf a s =
     (case read32s e [''ticks'', ''exever'', ''exechksum'', ''count'', ''spawn''] s of (v, s1) \<Rightarrow>
      bind (client_at a) (\<lambda>c.
        let rev = findRev (unat (c_token c mod 8)) (v ! 2) (v ! 1) (revlist cf);
            code = (case rev of None \<Rightarrow> 0x101 | Some r \<Rightarrow> if gameId r \<noteq> c_gameid c then 0x101 else 0)
        in seq (BuildAndSendTo a 0x51FF (Some (AuthCheck_Pack code []))) (ret True)))"

text \<open>The server's side of the password exchange, the same statements in two requests.\<close>

definition srp_server :: "env \<Rightarrow> config \<Rightarrow> nat \<Rightarrow> string \<Rightarrow> user_item \<Rightarrow> bytes \<Rightarrow> bytes M" where
  "srp_server e cf a username u pubkey = (let G = srp_gmp cf in
     bind (gets ngmp) (\<lambda>n. bind (lift (BnetSRP3_salt G e n (c_str username) (u_salt u))) (\<lambda>(srp3, n').
     seq (modify (\<lambda>w. w\<lparr>ngmp := n'\<rparr>))
     (let verifier = mpz_import G (u_verifier u); client_public_key = mpz_import G pubkey
      in case getServerSessionPublicKey G srp3 verifier of (server_public_key, srp3') \<Rightarrow>
      bind (lift (getHashedServerSecret G e srp3' client_public_key verifier)) (\<lambda>(secret, srp3'').
      bind (lift (getClientPasswordProof G e srp3'' client_public_key server_public_key secret)) (\<lambda>client_proof.
      bind (lift (getServerPasswordProof G e client_public_key client_proof secret)) (\<lambda>server_proof.
      seq (upd_client a (SetProof server_proof client_proof))
        (lift (export_to e ''packet.pubkey'' 32 (mpz_export G server_public_key))))))))))"

definition AccountChange :: "nat \<Rightarrow> env \<Rightarrow> config \<Rightarrow> plugin" where
  "AccountChange n e cf a s =
     (case get_bytes (fresh e ''pubkey'' 32) s of (pubkey, s1) \<Rightarrow> case get_str s1 of (name, _) \<Rightarrow>
      let username = take 15 name in
      bind (user_by_name n e (c_str username)) (\<lambda>ptr.
      seq (case ptr of
             None \<Rightarrow> BuildAndSendTo a 0x55FF (Some (AccountChange_Pack 1 (replicate 32 0) (replicate 32 0)))
           | Some p \<Rightarrow> seq (SetUser a (Some p)) (bind (user_at p) (\<lambda>u.
               bind (srp_server e cf a username u pubkey) (\<lambda>pk.
                 BuildAndSendTo a 0x55FF (Some (AccountChange_Pack 0 (u_salt u) pk))))))
      (ret True)))"

definition AccountChangeProof :: "env \<Rightarrow> plugin" where
  "AccountChangeProof e a s =
     (case get_bytes (fresh e ''clientProof'' 20) s of (clientProof, s1) \<Rightarrow>
      bind (client_at a) (\<lambda>c.
      bind (case c_user c of
              Some p \<Rightarrow>
                if clientProof = c_client_proof c then
                  (case get_bytes (fresh e ''s'' 32) s1 of (sl, s2) \<Rightarrow> case get_bytes (fresh e ''v'' 32) s2 of (v, _) \<Rightarrow>
                   seq (upd_user p (\<lambda>u. SetVerifier v (SetSalt sl u)))
                     (ret (AccountChangeProof_Pack 0 (c_server_proof c))))
                else ret (AccountChangeProof_Pack 2 (replicate 20 0))
            | None \<Rightarrow> ret (AccountChangeProof_Pack 2 (replicate 20 0))) (\<lambda>body.
      seq (SetUser a None) (seq (BuildAndSendTo a 0x56FF (Some body)) (ret True)))))"

text \<open>The account is created when there is none; \<open>setup_user\<close> fills it.\<close>

definition create_account :: "nat \<Rightarrow> env \<Rightarrow> string \<Rightarrow> (user_item \<Rightarrow> user_item) \<Rightarrow> u32 M" where
  "create_account n e username setup_user =
     bind (user_by_name n e (c_str username)) (\<lambda>user.
     bind (case user of None \<Rightarrow> ret False | Some p \<Rightarrow> bind (user_at p) (\<lambda>u. ret (IsExist u))) (\<lambda>there.
     if there then ret 4
     else bind (UserAdd e (c_str username) 0) (\<lambda>p. seq (upd_user p setup_user) (ret 0))))"

definition AccountCreate :: "nat \<Rightarrow> env \<Rightarrow> plugin" where
  "AccountCreate n e a s =
     (case get_bytes (fresh e ''salt'' 32) s of (salt, s1) \<Rightarrow> case get_bytes (fresh e ''verifier'' 32) s1 of (verifier, s2) \<Rightarrow>
      case get_str s2 of (username, _) \<Rightarrow>
      bind (create_account n e (take 15 username) (\<lambda>u. AddUserFlag UCF_NLSAUTH (SetVerifier verifier (SetSalt salt u)))) (\<lambda>result.
      seq (BuildAndSendTo a 0x52FF (Some (AccountCreate_Pack result))) (ret True)))"

definition AuthLogon :: "nat \<Rightarrow> env \<Rightarrow> config \<Rightarrow> plugin" where
  "AuthLogon n e cf a s =
     (case get_bytes (fresh e ''pubkey'' 32) s of (pubkey, s1) \<Rightarrow> case get_str s1 of (name, _) \<Rightarrow>
      let username = take 15 name; refuse = (\<lambda>st. BuildAndSendTo a 0x53FF (Some (AuthLogon_Pack st (replicate 32 0) (replicate 32 0)))) in
      bind (user_by_name n e (c_str username)) (\<lambda>ptr.
      seq (case ptr of None \<Rightarrow> refuse 1
           | Some p \<Rightarrow> bind (user_at p) (\<lambda>u.
               if \<not> IsExist u then refuse 1
               else if u_flag u AND UCF_NLSAUTH = 0 then refuse 5
               else seq (SetUser a (Some p)) (bind (srp_server e cf a username u pubkey) (\<lambda>pk.
                      BuildAndSendTo a 0x53FF (Some (AuthLogon_Pack 0 (u_salt u) pk))))))
      (ret True)))"

definition AuthLogonProof :: "env \<Rightarrow> plugin" where
  "AuthLogonProof e a s =
     (case get_bytes (fresh e ''clientProof'' 20) s of (clientProof, _) \<Rightarrow>
      bind (client_at a) (\<lambda>c.
      if clientProof = c_client_proof c then
        bind (case c_user c of None \<Rightarrow> ret 0
              | Some p \<Rightarrow> bind (user_at p) (\<lambda>u. ret (if u_mail u = [] then 0x0E else 0))) (\<lambda>status.
        seq (upd_client a (SetStage BNET_LOGGEDIN))
        (seq (BuildAndSendTo a 0x54FF (Some (AuthLogonProof_Pack status (c_server_proof c) []))) (ret True)))
      else seq (BuildAndSendTo a 0x54FF (Some (AuthLogonProof_Pack 2 (replicate 20 0) []))) (ret True)))"

definition ChangeEmail :: "nat \<Rightarrow> env \<Rightarrow> plugin" where
  "ChangeEmail n e a s =
     (case read_strs 3 s of (v, _) \<Rightarrow>
      bind (user_by_name n e (v ! 0)) (\<lambda>ptr. case ptr of None \<Rightarrow> ret False
      | Some p \<Rightarrow> bind (user_at p) (\<lambda>u.
          if u_mail u \<noteq> v ! 1 then ret False
          else seq (whenM (v ! 2 \<noteq> []) (upd_user p (SetMail (v ! 2)))) (ret True))))"

text \<open>The hash of the old login, and the reversal of the bytes of each of its five words.\<close>

definition BSHA1_call :: "env \<Rightarrow> bytes list \<Rightarrow> bytes" where
  "BSHA1_call e ps =
     (case BSHA1Result (feed BSHA1Input (snd (BSHA1Reset (Some (fresh_ctx e)))) ps) (Some (fresh e ''cres'' 20)) of
        (_, _, d) \<Rightarrow> the d)"

definition reverse_words :: "bytes \<Rightarrow> bytes" where
  "reverse_words d = concat (map (\<lambda>i. le32 (Reverse (of_le32 (take 4 (drop (4 * i) d))))) [0..<5])"

definition old_hash :: "env \<Rightarrow> bytes \<Rightarrow> bytes \<Rightarrow> bytes" where
  "old_hash e token passwd = reverse_words (BSHA1_call e [token, passwd])"

definition OldAccountChange :: "nat \<Rightarrow> env \<Rightarrow> plugin" where
  "OldAccountChange n e a s =
     (case get_bytes (fresh e ''token'' 8) s of (token, s1) \<Rightarrow> case get_bytes (fresh e ''pwd'' 20) s1 of (pwd, s2) \<Rightarrow>
      case get_bytes (fresh e ''newpwd'' 20) s2 of (newpwd, s3) \<Rightarrow> case get_str s3 of (username, _) \<Rightarrow>
      bind (user_by_name n e (c_str (take 15 username))) (\<lambda>ptr.
      bind (case ptr of None \<Rightarrow> ret 0
            | Some p \<Rightarrow> bind (user_at p) (\<lambda>u.
                if IsExist u \<and> old_hash e token (u_passwd u) = pwd
                then seq (upd_user p (SetPasswd newpwd)) (ret 1) else ret 0)) (\<lambda>result.
      seq (BuildAndSendTo a 0x31FF (Some (OldAccountChange_Pack result))) (ret True))))"

definition OldAccountCreate2 :: "nat \<Rightarrow> env \<Rightarrow> plugin" where
  "OldAccountCreate2 n e a s =
     (case get_bytes (fresh e ''pwd'' 20) s of (pwd, s1) \<Rightarrow> case get_str s1 of (username, _) \<Rightarrow>
      bind (create_account n e (take 15 username) (\<lambda>u. AddUserFlag UCF_OLSAUTH (SetPasswd pwd u))) (\<lambda>result.
      seq (BuildAndSendTo a 0x3DFF (Some (OldAccountCreate2_Pack result))) (ret True)))"

definition OldAuthLogon2 :: "nat \<Rightarrow> env \<Rightarrow> plugin" where
  "OldAuthLogon2 n e a s =
     (case get_bytes (fresh e ''token'' 8) s of (token, s1) \<Rightarrow> case get_bytes (fresh e ''pwd'' 20) s1 of (pwd, s2) \<Rightarrow>
      case get_str s2 of (username, _) \<Rightarrow>
      bind (user_by_name n e (c_str (take 15 username))) (\<lambda>ptr.
      bind (case ptr of None \<Rightarrow> ret (1, [])
            | Some p \<Rightarrow> bind (user_at p) (\<lambda>u.
                if \<not> IsExist u then ret (1, [])
                else if u_flag u AND UCF_OLSAUTH = 0 then
                  ret (6, ''Your account is not used for this game, please use or register another account.'')
                else if old_hash e token (u_passwd u) = pwd then
                  seq (SetUser a (Some p)) (seq (upd_client a (SetStage BNET_LOGGEDIN))
                  (seq (whenM (u_mail u = []) (BuildAndSendTo a 0x59FF (Some ReqEmail_Pack))) (ret (0, []))))
                else ret (2, []))) (\<lambda>(result, reason).
      seq (BuildAndSendTo a 0x3AFF (Some (OldAuthLogon2_Pack result reason))) (ret True))))"

definition Ping :: "env \<Rightarrow> plugin" where
  "Ping e a s = (case get32 (fresh32 e ''sid'') s of (sid, _) \<Rightarrow> seq (CheckEnd e a sid) (ret True))"

definition QueryFileInfo :: "env \<Rightarrow> config \<Rightarrow> plugin" where
  "QueryFileInfo e cf a s =
     (case get64 (fresh64 e ''packet.fileid'') s of (fileid, s1) \<Rightarrow> case get_str s1 of (filename, _) \<Rightarrow>
      bind (fileCache e (files_dir cf) filename) (\<lambda>ptr. case ptr of None \<Rightarrow> ret False
      | Some f \<Rightarrow> seq (BuildAndSendTo a 0x33FF (Some (ReplyFileInfo_Pack fileid (f_ft f) filename))) (ret True)))"

definition QueryIcon :: "env \<Rightarrow> config \<Rightarrow> plugin" where
  "QueryIcon e cf a s = bind (client_at a) (\<lambda>c.
     let filename = (if c_protocolVer c = 2 then ''icons-WAR3.bni'' else ''icons_STAR.bni'') in
     bind (fileCache e (files_dir cf) filename) (\<lambda>ptr. case ptr of None \<Rightarrow> ret False
     | Some f \<Rightarrow> seq (BuildAndSendTo a 0x2DFF (Some (ReplyIcon_Pack (f_ft f) filename))) (ret True)))"

text \<open>Lists of names; an empty name is allowed at the places \<open>ok\<close>, elsewhere the request is refused.\<close>

primrec read_names :: "(nat \<Rightarrow> bool) \<Rightarrow> nat \<Rightarrow> nat \<Rightarrow> stream \<Rightarrow> (string list \<times> stream) option" where
  "read_names ok i 0 s = Some ([], s)"
| "read_names ok i (Suc k) s = (case get_str s of (v, s') \<Rightarrow>
     if v = [] \<and> \<not> ok i then None
     else case read_names ok (Suc i) k s' of None \<Rightarrow> None | Some (vs, s'') \<Rightarrow> Some (v # vs, s''))"

definition named_user :: "nat \<Rightarrow> env \<Rightarrow> nat \<Rightarrow> string \<Rightarrow> nat option M" where
  "named_user n e a name = (if name = [] then bind (client_at a) (\<lambda>c. ret (c_user c)) else user_by_name n e name)"

definition read_data :: "nat \<Rightarrow> string \<Rightarrow> string M" where
  "read_data p k = bind (user_at p) (\<lambda>u. seq (upd_user p (\<lambda>u. snd (GetData k u))) (ret (fst (GetData k u))))"

primrec read_keys :: "nat \<Rightarrow> string list \<Rightarrow> string list M" where
  "read_keys p [] = ret []"
| "read_keys p (k # ks) = bind (if k = [] then ret [] else read_data p k) (\<lambda>v. bind (read_keys p ks) (\<lambda>vs. ret (v # vs)))"

primrec read_rows :: "nat \<Rightarrow> env \<Rightarrow> nat \<Rightarrow> string list \<Rightarrow> string list \<Rightarrow> string list list M" where
  "read_rows n e a ks [] = ret []"
| "read_rows n e a ks (nm # nms) = bind (named_user n e a nm) (\<lambda>ptr.
     bind (case ptr of None \<Rightarrow> ret (replicate (length ks) []) | Some p \<Rightarrow> read_keys p ks) (\<lambda>r.
     bind (read_rows n e a ks nms) (\<lambda>rs. ret (r # rs))))"

definition ReadUserData :: "nat \<Rightarrow> env \<Rightarrow> plugin" where
  "ReadUserData n e a s =
     (case read32s e [''packet.acount'', ''packet.kcount'', ''packet.token''] s of (v, s1) \<Rightarrow>
      case read_names (\<lambda>i. i = 0) 0 (unat (v ! 0)) s1 of None \<Rightarrow> ret False
      | Some (anames, s2) \<Rightarrow> (case read_names (\<lambda>i. \<not> i < unat (v ! 1 - 1)) 0 (unat (v ! 1)) s2 of None \<Rightarrow> ret False
        | Some (knames, _) \<Rightarrow> bind (read_rows n e a knames anames) (\<lambda>rows.
            seq (BuildAndSendTo a 0x26FF (Some (ReadUserData_Pack (v ! 0) (v ! 1) (v ! 2) rows))) (ret True))))"

definition SetEmail :: "plugin" where
  "SetEmail a s = (case get_str s of (email, _) \<Rightarrow> bind (client_at a) (\<lambda>c. case c_user c of None \<Rightarrow> ret False
     | Some p \<Rightarrow> seq (upd_user p (SetMail (if email = [] then '' '' else email))) (ret True)))"

definition StopAdv :: "plugin" where
  "StopAdv a s = bind (client_at a) (\<lambda>c.
     seq (case c_game c of None \<Rightarrow> ret ()
          | Some g \<Rightarrow> bind (game_at g) (\<lambda>x. whenM (IsHost a x) (upd_game g (\<lambda>x. x\<lparr>g_broadcast := False\<rparr>))))
     (ret True))"

definition UDPResponse :: "plugin" where
  "UDPResponse a s = seq (upd_client a (DelFlag UF_NOUDP)) (ret True)"

text \<open>\<^verbatim>\<open>ResetPassword\<close>, \<^verbatim>\<open>CheckAd\<close>, \<^verbatim>\<open>ClickAd\<close> and \<^verbatim>\<open>QueryAdUrl\<close> do nothing.\<close>

definition ResetPassword :: "plugin" where "ResetPassword a s = ret True"
definition CheckAd :: "plugin" where "CheckAd a s = ret True"
definition ClickAd :: "plugin" where "ClickAd a s = ret True"
definition QueryAdUrl :: "plugin" where "QueryAdUrl a s = ret True"
definition DisplayAd :: "plugin" where "DisplayAd a s = ret True"

section \<open>After the login\<close>

definition EnterChat :: "plugin" where
  "EnterChat a s = bind (client_at a) (\<lambda>c. case c_user c of None \<Rightarrow> ret False
     | Some p \<Rightarrow> (case get_str s of (dispname, _) \<Rightarrow> bind (user_at p) (\<lambda>u.
         seq (BuildAndSendTo a 0x0AFF (Some (EnterChat_Pack (if dispname = [] then u_username u else dispname)
                (GetStats c) (u_username u)))) (ret True))))"

definition FriendsList :: "plugin" where
  "FriendsList a s = seq (bind (FriendsList_Pack a) (BuildAndSendTo a 0x65FF)) (ret True)"

text \<open>The packet is filled in and not sent.\<close>

definition FriendUpdate :: "env \<Rightarrow> plugin" where
  "FriendUpdate e a s = (case get8 (fresh8 e ''index'') s of (index, _) \<Rightarrow> bind (client_at a) (\<lambda>c. case c_user c of
       None \<Rightarrow> ret True
     | Some p \<Rightarrow> bind (user_at p) (\<lambda>u. ret True)))"

text \<open>The results are read and not used.\<close>

definition GameResult :: "env \<Rightarrow> plugin" where
  "GameResult e a s = (case read32s e [''gtype'', ''rcount''] s of (v, _) \<Rightarrow> ret (\<not> v ! 1 > 12))"

definition GetAdvListEx :: "env \<Rightarrow> plugin" where
  "GetAdvListEx e a s =
     (case read32s e [''packet.cond'', ''packet.mask'', ''packet.startidx'', ''packet.maxcount''] s of (v, s1) \<Rightarrow>
      case read_strs 3 s1 of (t, _) \<Rightarrow>
        seq (bind (AdvListEx_Pack (t ! 0) (t ! 1) (v ! 2) (v ! 3) (v ! 0) (v ! 1)) (\<lambda>b. BuildAndSendTo a 0x09FF (Some b)))
        (ret True))"

definition JoinChannel :: "env \<Rightarrow> plugin" where
  "JoinChannel e a s =
     (case get32 (fresh32 e ''flag'') s of (flag, s1) \<Rightarrow> case get_str s1 of (channelname, _) \<Rightarrow>
      bind (client_at a) (\<lambda>c. bind (Ensure channelname (c_gameid c) (c_str (c_countryab c))) (\<lambda>ptr.
        seq (case ptr of Some ch \<Rightarrow> Channel_Join ch a | None \<Rightarrow> info a ''The channel is full.'') (ret True))))"

definition LeaveChat :: "plugin" where
  "LeaveChat a s = seq (leave_channel a) (ret True)"

definition LeaveGame :: "plugin" where
  "LeaveGame a s = seq (leave_game a) (ret True)"

definition ListChannel :: "plugin" where
  "ListChannel a s = seq (bind (ListChannel_Pack a) (\<lambda>b. BuildAndSendTo a 0x0BFF (Some b))) (ret True)"

definition NetGamePort :: "env \<Rightarrow> plugin" where
  "NetGamePort e a s = (case get16 (fresh16 e ''port'') s of (port, _) \<Rightarrow>
     seq (upd_client a (\<lambda>c. c\<lparr>c_gamePort := port\<rparr>)) (ret True))"

definition NotifyJoin :: "env \<Rightarrow> plugin" where
  "NotifyJoin e a s =
     (case read32s e [''gameid'', ''verid''] s of (_, s1) \<Rightarrow> case read_strs 2 s1 of (t, _) \<Rightarrow>
      bind (Games_find (t ! 0)) (\<lambda>ptr. seq (case ptr of None \<Rightarrow> ret () | Some g \<Rightarrow> Game_Join g a) (ret True)))"

definition Null :: "plugin" where
  "Null a s = seq (BuildAndSendTo a 0x00FF (Some Null_Pack)) (ret True)"

definition Profile :: "nat \<Rightarrow> env \<Rightarrow> plugin" where
  "Profile n e a s =
     (case get32 (fresh32 e ''packet.token'') s of (token, s1) \<Rightarrow> case get_str s1 of (username, _) \<Rightarrow>
      bind (user_by_name n e username) (\<lambda>ptr. case ptr of None \<Rightarrow> ret False
      | Some p \<Rightarrow> bind (read_data p (''Profile'' @ [CHR 0x5C] @ ''Description'')) (\<lambda>description.
          bind (read_data p (''Profile'' @ [CHR 0x5C] @ ''Location'')) (\<lambda>location.
          seq (BuildAndSendTo a 0x35FF (Some (Profile_Pack token 0 description location 0))) (ret True)))))"

definition QueryNews :: "env \<Rightarrow> plugin" where
  "QueryNews e a s = (case get32 (fresh32 e ''packet.last_time'') s of (last_time, _) \<Rightarrow>
     seq (bind (ReplyNews_Pack e last_time) (\<lambda>b. BuildAndSendTo a 0x46FF (Some b))) (ret True))"

definition QueryRealms2 :: "plugin" where
  "QueryRealms2 a s = seq (bind RealmList2_Pack (\<lambda>b. BuildAndSendTo a 0x40FF (Some b))) (ret True)"

primrec war3_loop :: "env \<Rightarrow> config \<Rightarrow> nat \<Rightarrow> u32 \<Rightarrow> nat \<Rightarrow> nat list \<Rightarrow> stream \<Rightarrow> unit M" where
  "war3_loop e cf a cookie c [] s = ret ()"
| "war3_loop e cf a cookie c (i # is) s = (case read32s e [''packet.tag'', ''unk''] s of (v, s') \<Rightarrow>
     seq (BuildAndSendTo a 0x44FF (War3Info_Pack cf 2 cookie (v ! 0) (i = c - 1))) (war3_loop e cf a cookie c is s'))"

definition QueryWar3Info :: "env \<Rightarrow> config \<Rightarrow> plugin" where
  "QueryWar3Info e cf a s = (case get8 (fresh8 e ''subcmd'') s of (subcmd, s1) \<Rightarrow>
     if subcmd = 2 then
       (case get32 (fresh32 e ''cookie'') s1 of (cookie, s2) \<Rightarrow> case get8 (fresh8 e ''c'') s2 of (c, s3) \<Rightarrow>
        seq (war3_loop e cf a cookie (unat c) [0..<unat c] s3) (ret True))
     else ret True)"

definition RealmLogonEx :: "env \<Rightarrow> plugin" where
  "RealmLogonEx e a s =
     (case get32 (fresh32 e ''packet.cookie'') s of (cookie, s1) \<Rightarrow> case get_str (stream_skip 20 s1) of (realmName, _) \<Rightarrow>
      seq (bind (RealmLogonEx_Pack e cookie realmName a) (\<lambda>b. BuildAndSendTo a 0x3EFF (Some b))) (ret True))"

definition SendChat :: "nat \<Rightarrow> env \<Rightarrow> plugin" where
  "SendChat n e a s = (case get_str s of (text, _) \<Rightarrow>
     if text = [] then ret False
     else if hd text = CHR ''/'' then seq (Command_Process n e a text) (ret True)
     else bind (client_at a) (\<lambda>c. case c_channel c of None \<Rightarrow> ret False
            | Some ch \<Rightarrow> seq (Talk ch a text) (ret True)))"

definition StartAdvEx3 :: "env \<Rightarrow> plugin" where
  "StartAdvEx3 e a s =
     (case read32s e [''flag'', ''elapse'', ''type'', ''option'', ''ladder''] s of (v, s1) \<Rightarrow> case read_strs 3 s1 of (t, _) \<Rightarrow>
      let fill = (\<lambda>x. (UpdateStatus (v ! 0) (v ! 1) (v ! 2) (v ! 3) (v ! 4) x)\<lparr>g_passwd := t ! 1, g_stat := t ! 2\<rparr>) in
      bind (Games_find (t ! 0)) (\<lambda>ptr.
      bind (case ptr of
              Some g \<Rightarrow> bind (game_at g) (\<lambda>x.
                if g_flag x AND 0x0E = 0 then ret 1 else seq (upd_game g fill) (ret 0))
            | None \<Rightarrow> bind (Games_Add e (t ! 0)) (\<lambda>g. seq (upd_game g fill) (seq (Game_Join g a) (ret 0)))) (\<lambda>status.
      seq (BuildAndSendTo a 0x1CFF (Some (StartAdvEx3_Pack status))) (ret True))))"

definition SwitchGameID :: "env \<Rightarrow> plugin" where
  "SwitchGameID e a s = (case get32 (fresh32 e ''gameid'') s of (gameid, _) \<Rightarrow>
     seq (upd_client a (\<lambda>c. c\<lparr>c_gameid := gameid\<rparr>)) (ret True))"

text \<open>The test of the name takes the index of the account, which may be behind the list of names.\<close>

primrec write_keys :: "nat \<Rightarrow> nat \<Rightarrow> string list \<Rightarrow> (string \<times> string) list \<Rightarrow> unit M" where
  "write_keys p i knames [] = ret ()"
| "write_keys p i knames (kv # kvs) =
     (if i < length knames then
        seq (whenM (knames ! i \<noteq> []) (upd_user p (SetData (fst kv) (snd kv)))) (write_keys p i knames kvs)
      else fail OutOfBounds)"

primrec write_rows :: "nat \<Rightarrow> env \<Rightarrow> nat \<Rightarrow> string list \<Rightarrow> string list \<Rightarrow> nat \<Rightarrow> string list \<Rightarrow> unit M" where
  "write_rows n e a ks vs i [] = ret ()"
| "write_rows n e a ks vs i (nm # nms) = bind (named_user n e a nm) (\<lambda>ptr.
     seq (case ptr of None \<Rightarrow> ret () | Some p \<Rightarrow> write_keys p i ks (zip ks vs))
       (write_rows n e a ks vs (Suc i) nms))"

definition WriteUserData :: "nat \<Rightarrow> env \<Rightarrow> plugin" where
  "WriteUserData n e a s =
     (case read32s e [''acount'', ''kcount''] s of (v, s1) \<Rightarrow>
      case read_names (\<lambda>i. i = 0) 0 (unat (v ! 0)) s1 of None \<Rightarrow> ret False
      | Some (anames, s2) \<Rightarrow> (case read_names (\<lambda>i. \<not> i < unat (v ! 1 - 1)) 0 (unat (v ! 1)) s2 of None \<Rightarrow> ret False
        | Some (knames, s3) \<Rightarrow> (case read_strs (unat (v ! 1)) s3 of (kvalues, _) \<Rightarrow>
            seq (write_rows n e a knames kvalues 0 anames) (ret True))))"

section \<open>The first byte, files and realms\<close>

definition InitBnet :: "plugin" where
  "InitBnet a s = seq (upd_client a (SetStage BNET)) (ret True)"

definition InitFile :: "plugin" where
  "InitFile a s = seq (upd_client a (SetStage FILETRANS)) (ret True)"

definition InitBaal :: "plugin" where
  "InitBaal a s = seq (upd_client a (SetStage BAAL)) (bind (client_at a) (\<lambda>c.
     seq (BaalSendTo a 0x01 0 (BaalAuthInfo_Pack (c_session c))) (ret True)))"

definition FileSendTo :: "nat \<Rightarrow> bytes option \<Rightarrow> unit M" where
  "FileSendTo a p = (case p of None \<Rightarrow> ret () | Some b \<Rightarrow> Send a b)"

definition FileReq :: "env \<Rightarrow> config \<Rightarrow> plugin" where
  "FileReq e cf a s =
     (case read32s e [''plat'', ''prod'', ''packet.adid'', ''packet.extag'', ''packet.offset''] s of (v, s1) \<Rightarrow>
      case get64 (fresh64 e ''ft'') s1 of (_, s2) \<Rightarrow> case get_str s2 of (fileName, _) \<Rightarrow>
        seq (bind (FileHeader_Build e cf fileName (v ! 2) (v ! 3) (v ! 4)) (FileSendTo a)) (ret True))"

definition TokenReq :: "plugin" where
  "TokenReq a s = seq (upd_client a (SetStage FILERAW)) (bind (client_at a) (\<lambda>c.
     seq (FileSendTo a (Some (FileToken_Build (c_token c)))) (ret True)))"

definition RawReq :: "env \<Rightarrow> config \<Rightarrow> plugin" where
  "RawReq e cf a s =
     (case get32 (fresh32 e ''packet.offset'') s of (offset, s1) \<Rightarrow> case get64 (fresh64 e ''ft'') s1 of (_, s2) \<Rightarrow>
      case get_str (stream_skip 40 s2) of (fileName, _) \<Rightarrow>
        seq (bind (FileHeader_Build e cf fileName 0 0 offset) (FileSendTo a)) (ret True))"

definition RealmAuth :: "env \<Rightarrow> config \<Rightarrow> plugin" where
  "RealmAuth e cf a s =
     (case read32s e [''token'', ''session''] s of (v, s1) \<Rightarrow> case get16 (fresh16 e ''port'') s1 of (port, s2) \<Rightarrow>
      case read_strs 2 s2 of (t, _) \<Rightarrow>
      bind (client_at a) (\<lambda>c. bind (realmCache (t ! 0)) (\<lambda>realm.
      if v ! 1 = c_session c \<and> realm = None \<and> peer_of cf a \<noteq> None then
        seq (Realm_Add (t ! 0) (t ! 1) port (the (peer_of cf a)))
        (seq (BaalSendTo a 0x02 (v ! 0) (BaalAuthReply_Pack 0)) (ret True))
      else
        seq (BaalSendTo a 0x02 (v ! 0) (BaalAuthReply_Pack 1))
        (seq (modify (\<lambda>w. w\<lparr>closing := closing w @ [a]\<rparr>)) (ret True)))))"

definition UserCheck :: "env \<Rightarrow> plugin" where
  "UserCheck e a s =
     (case read32s e [''remote_token'', ''cookie''] s of (v, s1) \<Rightarrow> case get_bytes (fresh e ''hash'' 20) s1 of (hash, s2) \<Rightarrow>
      case get_str s2 of (name, _) \<Rightarrow>
      bind (pool_by_name name) (\<lambda>client.
      bind (case client of None \<Rightarrow> ret 0x0C
            | Some b \<Rightarrow> bind (client_at b) (\<lambda>c. case c_user c of None \<Rightarrow> ret 0x0C
                | Some p \<Rightarrow> bind (user_at p) (\<lambda>u.
                    ret (if SHA1_call e [le32 (v ! 1), le32 (c_session c), le32 (c_token c), take 20 (u_passwd u)] = hash
                         then 0 else 0x0C)))) (\<lambda>result.
      seq (BaalSendTo a 0x10 (v ! 0) (BaalCheckReply_Pack result)) (ret True))))"

text \<open>The datagram that tells the server the address of a client: the token is looked up and the pointer used.\<close>

definition ConnTest2 :: "env \<Rightarrow> u32 \<Rightarrow> u16 \<Rightarrow> stream \<Rightarrow> bool M" where
  "ConnTest2 e ip port s = (if stream_left s < 8 then ret False
     else case get32 (fresh32 e ''token'') s of (token, _) \<Rightarrow>
       bind (pool_by_token token) (\<lambda>client. bind (the_ptr client) (\<lambda>b.
       seq (upd_client b (\<lambda>c. c\<lparr>c_gameIp := ip, c_gamePort := port\<rparr>))
       (seq (modify (\<lambda>w. w\<lparr>udp_sent := udp_sent w @ [(ip, port, udp_build 5 UDPServerPing_Pack)]\<rparr>)) (ret True)))))"

section \<open>The suites\<close>

definition Load :: "u16 \<times> 'p \<Rightarrow> (u16 \<times> 'p) list \<Rightarrow> (u16 \<times> 'p) list" where
  "Load p ps = p # ps"

definition PluginManager_Process :: "(u16 \<times> plugin) list \<Rightarrow> nat \<Rightarrow> u16 \<Rightarrow> stream \<Rightarrow> bool M" where
  "PluginManager_Process ps a op s = (case map_of ps op of None \<Rightarrow> ret False | Some p \<Rightarrow> p a s)"

definition PluginBNet :: "nat \<Rightarrow> env \<Rightarrow> config \<Rightarrow> (u16 \<times> plugin) list" where
  "PluginBNet n e cf = fold Load
     [(0x50FF, AuthInfo e cf), (0x51FF, AuthCheck e cf), (0x52FF, AccountCreate n e), (0x55FF, AccountChange n e cf),
      (0x56FF, AccountChangeProof e), (0x53FF, AuthLogon n e cf), (0x54FF, AuthLogonProof e), (0x5BFF, ChangeEmail n e),
      (0x31FF, OldAccountChange n e), (0x3DFF, OldAccountCreate2 n e), (0x3AFF, OldAuthLogon2 n e), (0x25FF, Ping e),
      (0x33FF, QueryFileInfo e cf), (0x2DFF, QueryIcon e cf), (0x26FF, ReadUserData n e), (0x5AFF, ResetPassword),
      (0x59FF, SetEmail), (0x02FF, StopAdv), (0x14FF, UDPResponse)] []"

definition PluginBNetLoggedIn :: "nat \<Rightarrow> env \<Rightarrow> config \<Rightarrow> (u16 \<times> plugin) list" where
  "PluginBNetLoggedIn n e cf = fold Load
     [(0x15FF, CheckAd), (0x16FF, ClickAd), (0x0AFF, EnterChat), (0x65FF, FriendsList), (0x66FF, FriendUpdate e),
      (0x2CFF, GameResult e), (0x09FF, GetAdvListEx e), (0x0CFF, JoinChannel e), (0x10FF, LeaveChat), (0x1FFF, LeaveGame),
      (0x0BFF, ListChannel), (0x45FF, NetGamePort e), (0x22FF, NotifyJoin e), (0x00FF, Null), (0x25FF, Ping e),
      (0x35FF, Profile n e), (0x41FF, QueryAdUrl), (0x33FF, QueryFileInfo e cf), (0x2DFF, QueryIcon e cf),
      (0x46FF, QueryNews e), (0x40FF, QueryRealms2), (0x44FF, QueryWar3Info e cf), (0x26FF, ReadUserData n e),
      (0x3EFF, RealmLogonEx e), (0x0EFF, SendChat n e), (0x59FF, SetEmail), (0x1CFF, StartAdvEx3 e), (0x02FF, StopAdv),
      (0x5CFF, SwitchGameID e), (0x14FF, UDPResponse), (0x27FF, WriteUserData n e)] []"

definition PluginInit :: "(u16 \<times> plugin) list" where
  "PluginInit = fold Load [(0x01, InitBnet), (0x02, InitFile), (0x65, InitBaal)] []"

definition PluginFile :: "env \<Rightarrow> config \<Rightarrow> (u16 \<times> plugin) list" where
  "PluginFile e cf = fold Load [(0x0100, FileReq e cf), (0x0200, TokenReq), (0, RawReq e cf)] []"

definition PluginBaal :: "env \<Rightarrow> config \<Rightarrow> (u16 \<times> plugin) list" where
  "PluginBaal e cf = fold Load [(0x02, RealmAuth e cf), (0x10, UserCheck e)] []"

definition PluginUDP :: "env \<Rightarrow> (u16 \<times> (u32 \<Rightarrow> u16 \<Rightarrow> stream \<Rightarrow> bool M)) list" where
  "PluginUDP e = fold Load [(0x09, ConnTest2 e)] []"

definition PluginManager_Process_udp ::
  "(u16 \<times> (u32 \<Rightarrow> u16 \<Rightarrow> stream \<Rightarrow> bool M)) list \<Rightarrow> u16 \<Rightarrow> u32 \<Rightarrow> u16 \<Rightarrow> stream \<Rightarrow> bool M" where
  "PluginManager_Process_udp ps op ip port s = (case map_of ps op of None \<Rightarrow> ret False | Some p \<Rightarrow> p ip port s)"

text \<open>A datagram; the operation code is cut to 16 bits when it is passed on.\<close>

definition UDP_OnRecv :: "env \<Rightarrow> u32 \<Rightarrow> u16 \<Rightarrow> bytes \<Rightarrow> unit M" where
  "UDP_OnRecv e ip port buf = (if length buf < 4 then ret ()
     else seq (PluginManager_Process_udp (PluginUDP e) (ucast (of_le32 (take 4 buf))) ip port (Stream_bytes (drop 4 buf))) (ret ()))"

end
