(* ===== verification/Framing.thy ===== *)
theory Framing
  imports Requests
begin

text \<open>
  How a connection's bytes become requests: \<^verbatim>\<open>Client::OnRecv\<close> and the four \<^verbatim>\<open>Process\<close> loops of
  src/blitzd/core/Client.cpp. \<open>sb\<close> is the contents of the socket buffer; an operation returns what
  is left in it. The buffer itself (\<^verbatim>\<open>length\<close>, \<^verbatim>\<open>copyout\<close>, \<^verbatim>\<open>drain\<close> and \<^verbatim>\<open>read\<close> of libevent's
  \<^verbatim>\<open>evbuffer\<close>) is a list of bytes.
\<close>

section \<open>The loops\<close>

text \<open>A heap buffer of \<open>n\<close> bytes after \<^verbatim>\<open>sbuf.read\<close> into it, which stops at the end of the data.\<close>

definition sbuf_read :: "env \<Rightarrow> nat \<Rightarrow> bytes \<Rightarrow> bytes" where
  "sbuf_read e n b = (let d = take n b in d @ drop (length d) (fresh e ''buf'' n))"

definition low16 :: "u32 \<Rightarrow> u16" where "low16 h = ucast (h AND 0xFFFF)"
definition high16 :: "u32 \<Rightarrow> u16" where "high16 h = ucast (drop_bit 16 (h AND 0xFFFF0000))"

type_synonym proc = "u16 \<Rightarrow> stream \<Rightarrow> bool M"

text \<open>The loop of \<^verbatim>\<open>ProcessBNet\<close> and \<^verbatim>\<open>ProcessBNetLoggedIn\<close>: the size is in the high half of the header.\<close>

function bnet_loop :: "env \<Rightarrow> config \<Rightarrow> proc \<Rightarrow> bytes \<Rightarrow> bytes M" where
  "bnet_loop e cf process sb =
     (if length sb < 4 then ret sb
      else let hdr = of_le32 (take 4 sb); psize = high16 hdr
      in if unat psize > length sb then ret sb
      else let n = unat (psize - 4); b = drop 4 sb
      in if \<not> can_alloc cf n then bnet_loop e cf process (drop n b)
      else seq (process (low16 hdr) (Stream_bytes (sbuf_read e n b))) (bnet_loop e cf process (drop n b)))"
  by pat_completeness auto
termination by (relation "measure (\<lambda>(e, cf, process, sb). length sb)") auto

declare bnet_loop.simps [simp del]

text \<open>The loop of \<^verbatim>\<open>ProcessBaal\<close>: the halves of the header are exchanged.\<close>

function baal_loop :: "env \<Rightarrow> config \<Rightarrow> proc \<Rightarrow> bytes \<Rightarrow> bytes M" where
  "baal_loop e cf process sb =
     (if length sb < 4 then ret sb
      else let hdr = of_le32 (take 4 sb); psize = low16 hdr
      in if unat psize > length sb then ret sb
      else let n = unat (psize - 4); b = drop 4 sb
      in if \<not> can_alloc cf n then baal_loop e cf process (drop n b)
      else seq (process (high16 hdr) (Stream_bytes (sbuf_read e n b))) (baal_loop e cf process (drop n b)))"
  by pat_completeness auto
termination by (relation "measure (\<lambda>(e, cf, process, sb). length sb)") auto

declare baal_loop.simps [simp del]

definition ProcessBNet :: "nat \<Rightarrow> env \<Rightarrow> config \<Rightarrow> nat \<Rightarrow> bytes \<Rightarrow> bytes M" where
  "ProcessBNet n e cf a sb = bnet_loop e cf (PluginManager_Process (PluginBNet n e cf) a) sb"

definition ProcessBNetLoggedIn :: "nat \<Rightarrow> env \<Rightarrow> config \<Rightarrow> nat \<Rightarrow> bytes \<Rightarrow> bytes M" where
  "ProcessBNetLoggedIn n e cf a sb = bnet_loop e cf (PluginManager_Process (PluginBNetLoggedIn n e cf) a) sb"

definition ProcessBaal :: "env \<Rightarrow> config \<Rightarrow> nat \<Rightarrow> bytes \<Rightarrow> bytes M" where
  "ProcessBaal e cf a sb = baal_loop e cf (PluginManager_Process (PluginBaal e cf) a) sb"

text \<open>The stage is looked at again before every packet.\<close>

function ProcessFile :: "env \<Rightarrow> config \<Rightarrow> nat \<Rightarrow> bytes \<Rightarrow> bytes M" where
  "ProcessFile e cf a sb = bind (client_at a) (\<lambda>c. case c_stage c of
       FILETRANS \<Rightarrow>
         (if length sb < 4 then ret sb
          else let hdr = of_le32 (take 4 sb); psize = low16 hdr
          in if unat psize > length sb then ret sb
          else let n = unat (psize - 4); b = drop 4 sb
          in if \<not> can_alloc cf n then ProcessFile e cf a (drop n b)
          else seq (PluginManager_Process (PluginFile e cf) a (high16 hdr) (Stream_bytes (sbuf_read e n b)))
                 (ProcessFile e cf a (drop n b)))
     | FILERAW \<Rightarrow>
         (if length sb < 53 then ret sb
          else if \<not> can_alloc cf (length sb) then ProcessFile e cf a []
          else seq (PluginManager_Process (PluginFile e cf) a 0 (Stream_bytes sb)) (ret []))
     | _ \<Rightarrow> ret sb)"
  by pat_completeness auto
termination by (relation "measure (\<lambda>(e, cf, a, sb). length sb)") auto

declare ProcessFile.simps [simp del]

definition OnRecv_stage :: "nat \<Rightarrow> env \<Rightarrow> config \<Rightarrow> nat \<Rightarrow> bytes \<Rightarrow> bytes M" where
  "OnRecv_stage n e cf a sb = bind (client_at a) (\<lambda>c. case c_stage c of
       BNET \<Rightarrow> ProcessBNet n e cf a sb
     | BNET_LOGGEDIN \<Rightarrow> ProcessBNetLoggedIn n e cf a sb
     | FILETRANS \<Rightarrow> ProcessFile e cf a sb
     | FILERAW \<Rightarrow> ProcessFile e cf a sb
     | BAAL \<Rightarrow> ProcessBaal e cf a sb
     | CONNECTED \<Rightarrow> ret sb)"

definition OnRecv :: "nat \<Rightarrow> env \<Rightarrow> config \<Rightarrow> nat \<Rightarrow> bytes \<Rightarrow> bytes M" where
  "OnRecv n e cf a sb = (if sb = [] then ret []
     else bind (client_at a) (\<lambda>c.
       if c_stage c = CONNECTED then
         seq (PluginManager_Process PluginInit a (ucast (hd sb)) Stream_empty)
           (if tl sb = [] then ret [] else OnRecv_stage n e cf a (tl sb))
       else OnRecv_stage n e cf a sb))"

text \<open>
  \<^verbatim>\<open>TcpClient::DoRecv\<close>, once for every piece of data that arrives: the event library appends the piece to what is left in
  the input buffer of the socket.
\<close>

primrec DoRecv :: "nat \<Rightarrow> env \<Rightarrow> config \<Rightarrow> nat \<Rightarrow> bytes list \<Rightarrow> bytes \<Rightarrow> bytes M" where
  "DoRecv n e cf a [] sb = ret sb"
| "DoRecv n e cf a (c # cs) sb = bind (OnRecv n e cf a (sb @ c)) (DoRecv n e cf a cs)"

section \<open>Headers\<close>

lemma unat_halves: "unat (low16 h) = unat h mod 65536" "unat (high16 h) = unat h div 65536"
proof -
  have m: "(0xFFFF :: u32) = mask 16" by (simp add: mask_eq_exp_minus_1)
  have h: "drop_bit 16 (h AND 0xFFFF0000) = drop_bit 16 h"
  proof (rule bit_word_eqI)
    have p: "(0xFFFF0000 :: u32) = push_bit 16 (mask 16)" by (simp add: mask_eq_exp_minus_1 push_bit_eq_mult)
    fix n assume "n < LENGTH(32)"
    then show "bit (drop_bit 16 (h AND 0xFFFF0000)) n = bit (drop_bit 16 h) n"
      unfolding p using bit_imp_le_length [of h "16 + n"] by (auto simp: bit_simps)
  qed
  show "unat (low16 h) = unat h mod 65536"
    unfolding low16_def m take_bit_eq_mask [symmetric]
    by (simp add: unsigned_ucast_eq take_bit_eq_mod unat_mod)
  show "unat (high16 h) = unat h div 65536"
    unfolding high16_def h using unat_bound(3) [of h]
    by (simp add: unsigned_ucast_eq take_bit_eq_mod drop_bit_eq_div unat_div)
qed

lemma of_le_nat_append: "of_le_nat (xs @ ys) = of_le_nat xs + 256 ^ length xs * of_le_nat ys"
  by (induction xs) (simp_all add: algebra_simps)

lemma halves_header: "low16 (of_le32 (le16 x @ le16 y)) = x" "high16 (of_le32 (le16 x @ le16 y)) = y"
proof -
  have x: "of_le_nat (le16 x) = unat x" "of_le_nat (le16 y) = unat y"
    using unat_bound(2) by (simp_all add: le16_def of_le_le_nat)
  have "unat x + 65536 * unat y < 2 ^ 32" using unat_bound(2) [of x] unat_bound(2) [of y] by simp
  then have u: "unat (of_le32 (le16 x @ le16 y)) = unat x + 65536 * unat y"
    unfolding of_le32_def of_le_nat_append x unsigned_of_nat by (simp add: take_bit_nat_eq_self)
  show "low16 (of_le32 (le16 x @ le16 y)) = x" "high16 (of_le32 (le16 x @ le16 y)) = y"
    unfolding word_unat_eq_iff unat_halves u using unat_bound(2) [of x] by simp_all
qed

lemma sbuf_read_full: "n \<le> length b \<Longrightarrow> sbuf_read e n b = take n b"
  by (simp add: sbuf_read_def fresh_def Let_def)

section \<open>Loops over frames\<close>

text \<open>No header in the data says less than its own four bytes.\<close>

function well_framed :: "(bytes \<Rightarrow> u16) \<Rightarrow> bytes \<Rightarrow> bool" where
  "well_framed hs sb =
     (if length sb < 4 then True
      else let n = unat (hs (take 4 sb))
      in if n < 4 then False else if n > length sb then True else well_framed hs (drop n sb))"
  by pat_completeness auto
termination by (relation "measure (\<lambda>(hs, sb). length sb)") auto

declare well_framed.simps [simp del]

text \<open>
  A loop that cuts its input by the sizes in the headers: \<open>hsize\<close> and \<open>hop\<close> read a header, \<open>enc\<close>
  writes a frame.
\<close>

locale frame_loop =
  fixes hsize hop :: "bytes \<Rightarrow> u16" and enc :: "u16 \<Rightarrow> bytes \<Rightarrow> bytes"
    and loop :: "env \<Rightarrow> config \<Rightarrow> proc \<Rightarrow> bytes \<Rightarrow> bytes M"
  assumes loop_eq: "loop e cf p sb =
     (if length sb < 4 \<or> unat (hsize (take 4 sb)) > length sb then ret sb
      else let n = unat (hsize (take 4 sb) - 4); b = drop 4 sb
      in if \<not> can_alloc cf n then loop e cf p (drop n b)
      else seq (p (hop (take 4 sb)) (Stream_bytes (sbuf_read e n b))) (loop e cf p (drop n b)))"
    and enc: "length b < 65532 \<Longrightarrow> \<exists>h. enc k b = h @ b \<and> length h = 4 \<and> unat (hsize h) = 4 + length b \<and> hop h = k"
    and enc_header: "length h = 4 \<Longrightarrow> unat (hsize h) = 4 + length b \<Longrightarrow> enc (hop h) b = h @ b"
begin

lemma loop_enc:
  assumes "length b < 65532" and "can_alloc cf (length b)"
  shows "loop e cf p (enc k b @ r) = seq (p k (Stream_bytes b)) (loop e cf p r)"
proof -
  obtain h where h: "enc k b = h @ b" "length h = 4" "unat (hsize h) = 4 + length b" "hop h = k"
    using enc [OF assms(1)] by blast
  have "unat (hsize h - 4) = length b" using h(3) by (simp add: unat_sub word_le_nat_alt)
  then show ?thesis using h assms(2) by (simp add: loop_eq [of e cf p "h @ b @ r"] sbuf_read_full Let_def)
qed

text \<open>A buffer that holds whole frames is their requests in order, and then what is behind them.\<close>

lemma loop_frames:
  assumes "\<forall>f\<in>set fs. length (snd f) < 65532 \<and> can_alloc cf (length (snd f))"
  shows "loop e cf p (concat (map (\<lambda>(k, b). enc k b) fs) @ r) =
     seq (forM fs (\<lambda>(k, b). seq (p k (Stream_bytes b)) (ret ()))) (loop e cf p r)"
  using assms
proof (induction fs)
  case Nil
  then show ?case by (simp add: seq_def)
next
  case (Cons f fs)
  obtain k b where f: "f = (k, b)" by force
  with Cons show ?case by (simp add: loop_enc seq_def bind_assoc)
qed

text \<open>When the loop ends no whole frame is left, and what is left is the end of the input.\<close>

lemma loop_left:
  assumes "loop e cf p sb w = Inr (r, v)"
  shows "(length r < 4 \<or> unat (hsize (take 4 r)) > length r) \<and> (\<exists>d. sb = d @ r)"
  using assms
proof (induction "length sb" arbitrary: sb w rule: less_induct)
  case less
  show ?case
  proof (cases "length sb < 4 \<or> unat (hsize (take 4 sb)) > length sb")
    case True
    then show ?thesis using less.prems by (auto simp: loop_eq [of e cf p sb] ret_def)
  next
    case False
    let ?n = "unat (hsize (take 4 sb) - 4)"
    let ?t = "drop (unat (hsize (take 4 sb) - 4)) (drop 4 sb)"
    have len: "length ?t < length sb" using False by simp linarith
    obtain w' where "loop e cf p ?t w' = Inr (r, v)"
      using less.prems False by (auto simp: loop_eq [of e cf p sb] seq_def bind_def Let_def split: if_splits sum.splits prod.splits)
    then have "(length r < 4 \<or> unat (hsize (take 4 r)) > length r) \<and> (\<exists>d. ?t = d @ r)"
      using less.hyps [OF _ \<open>loop e cf p ?t w' = Inr (r, v)\<close>] len by blast
    moreover have "sb = take (4 + ?n) sb @ ?t" by (simp add: add.commute)
    ultimately show ?thesis by (metis append_assoc)
  qed
qed

text \<open>It does not matter in which pieces well framed data arrives.\<close>

lemma loop_append:
  assumes "well_framed hsize (sb @ c)" and "\<forall>n. can_alloc cf n"
  shows "loop e cf p (sb @ c) = bind (loop e cf p sb) (\<lambda>r. loop e cf p (r @ c))"
  using assms(1)
proof (induction "length sb" arbitrary: sb rule: less_induct)
  case less
  show ?case
  proof (cases "length sb < 4 \<or> unat (hsize (take 4 sb)) > length sb")
    case True
    then show ?thesis by (simp add: loop_eq [of e cf p sb])
  next
    case False
    let ?h = "hsize (take 4 sb)"
    let ?t = "drop (unat (?h - 4)) (drop 4 sb)"
    have h: "4 \<le> unat ?h" and w: "well_framed hsize (drop (unat ?h) sb @ c)"
      using less.prems False by (simp_all add: well_framed.simps [of hsize "sb @ c"] Let_def split: if_splits)
    have n: "unat (?h - 4) = unat ?h - 4" using h by (simp add: unat_sub word_le_nat_alt)
    then have t: "?t = drop (unat ?h) sb" using h by simp
    have len: "length ?t < length sb" using False by simp linarith
    have "loop e cf p (?t @ c) = bind (loop e cf p ?t) (\<lambda>r. loop e cf p (r @ c))"
      by (rule less.hyps [OF len]) (use w t in simp)
    moreover have le: "unat ?h - 4 \<le> length (drop 4 sb)" using False h by simp linarith
    then have "sbuf_read e (unat ?h - 4) (drop 4 sb @ c) = sbuf_read e (unat ?h - 4) (drop 4 sb)"
      by (simp add: sbuf_read_full)
    ultimately show ?thesis
      using False h n assms(2) t
      by (simp add: loop_eq [of e cf p sb] loop_eq [of e cf p "sb @ c"] Let_def seq_def bind_assoc)
  qed
qed

lemma left_well_framed:
  assumes "loop e cf p sb w = Inr (r, v)" and "well_framed hsize (sb @ x)" and "\<forall>n. can_alloc cf n"
  shows "well_framed hsize (r @ x)"
  using assms(1,2)
proof (induction "length sb" arbitrary: sb w rule: less_induct)
  case less
  show ?case
  proof (cases "length sb < 4 \<or> unat (hsize (take 4 sb)) > length sb")
    case True
    then show ?thesis using less.prems by (auto simp: loop_eq [of e cf p sb] ret_def)
  next
    case False
    let ?h = "hsize (take 4 sb)"
    let ?t = "drop (unat (?h - 4)) (drop 4 sb)"
    have h: "4 \<le> unat ?h" and w: "well_framed hsize (drop (unat ?h) sb @ x)"
      using less.prems(2) False by (simp_all add: well_framed.simps [of hsize "sb @ x"] Let_def split: if_splits)
    have t: "?t = drop (unat ?h) sb" using h by (simp add: unat_sub word_le_nat_alt)
    have len: "length ?t < length sb" using False by simp linarith
    obtain w' where "loop e cf p ?t w' = Inr (r, v)"
      using less.prems(1) False by (auto simp: loop_eq [of e cf p sb] seq_def bind_def Let_def split: if_splits sum.splits prod.splits)
    from less.hyps [OF len this] w t show ?thesis by simp
  qed
qed

text \<open>Well framed data is a sequence of whole frames and an incomplete rest.\<close>

lemma frames_of:
  "well_framed hsize sb \<Longrightarrow> \<exists>fs r. sb = concat (map (\<lambda>(k, b). enc k b) fs) @ r \<and> (length r < 4 \<or> unat (hsize (take 4 r)) > length r)
     \<and> (\<forall>f\<in>set fs. length (snd f) < 65532)"
proof (induction "length sb" arbitrary: sb rule: less_induct)
  case less
  show ?case
  proof (cases "length sb < 4 \<or> unat (hsize (take 4 sb)) > length sb")
    case True
    then show ?thesis by (intro exI [of _ "[]"] exI [of _ sb]) auto
  next
    case False
    let ?h = "take 4 sb"
    let ?n = "unat (hsize ?h)"
    have h: "4 \<le> ?n" and w: "well_framed hsize (drop ?n sb)"
      using less.prems False by (simp_all add: well_framed.simps [of hsize sb] Let_def split: if_splits)
    have n: "4 \<le> ?n" "?n \<le> length sb" "?n < 65536" using h False unat_bound(2) [of "hsize ?h"] by simp_all
    have len: "length (drop ?n sb) < length sb" using n by simp
    obtain fs r where fr: "drop ?n sb = concat (map (\<lambda>(k, b). enc k b) fs) @ r" "length r < 4 \<or> unat (hsize (take 4 r)) > length r"
        "\<forall>f\<in>set fs. length (snd f) < 65532"
      using less.hyps [OF len w] by blast
    let ?b = "take (?n - 4) (drop 4 sb)"
    have "length ?h = 4" "unat (hsize ?h) = 4 + length ?b" using n by simp_all
    then have "enc (hop ?h) ?b = ?h @ ?b" by (rule enc_header)
    also have "\<dots> = take ?n sb" using n(1) by (simp add: take_add [of 4 "?n - 4", symmetric])
    finally have "sb = enc (hop ?h) ?b @ drop ?n sb" by simp
    moreover have "length ?b < 65532" using n by simp
    ultimately show ?thesis using fr by (intro exI [of _ "(hop ?h, ?b) # fs"] exI [of _ r]) simp
  qed
qed

lemma loop_split:
  assumes "well_framed hsize sb" and "\<forall>n. can_alloc cf n"
  shows "\<exists>fs r. sb = concat (map (\<lambda>(k, b). enc k b) fs) @ r \<and> (length r < 4 \<or> unat (hsize (take 4 r)) > length r)
     \<and> loop e cf p sb = seq (forM fs (\<lambda>(k, b). seq (p k (Stream_bytes b)) (ret ()))) (ret r)"
proof -
  obtain fs r where f: "sb = concat (map (\<lambda>(k, b). enc k b) fs) @ r" "length r < 4 \<or> unat (hsize (take 4 r)) > length r"
      "\<forall>f\<in>set fs. length (snd f) < 65532"
    using frames_of [OF assms(1)] by blast
  moreover have "loop e cf p r = ret r" using f(2) by (auto simp: loop_eq [of e cf p r])
  ultimately show ?thesis using loop_frames [of fs cf e p r] assms(2) by auto
qed

text \<open>
  It does not matter in which pieces well framed data arrives, when \<open>l\<close> is the loop in every state \<open>I\<close> and the loop does
  not leave these states.
\<close>

lemma loop_arrivals:
  assumes "\<forall>n. can_alloc cf n" and l: "\<And>w sb. I w \<Longrightarrow> l sb w = loop e cf p sb w"
    and keep: "\<And>w sb r v. I w \<Longrightarrow> loop e cf p sb w = Inr (r, v) \<Longrightarrow> I v"
    and go: "\<And>sb. go [] sb = ret sb" "\<And>c cs sb. go (c # cs) sb = bind (l (sb @ c)) (go cs)"
  shows "I w \<Longrightarrow> well_framed hsize (sb @ concat (c # cs)) \<Longrightarrow> go (c # cs) sb w = loop e cf p (sb @ concat (c # cs)) w"
proof (induction cs arbitrary: c sb w)
  case Nil
  then show ?case by (simp add: go l bind_def ret_def split: sum.split)
next
  case (Cons d cs)
  have wf: "well_framed hsize ((sb @ c) @ concat (d # cs))" using Cons.prems(2) by simp
  have rest: "go (d # cs) r v = loop e cf p (r @ concat (d # cs)) v" if run: "loop e cf p (sb @ c) w = Inr (r, v)" for r v
    by (rule Cons.IH) (rule keep [OF Cons.prems(1) run], rule left_well_framed [OF run wf assms(1)])
  have "go (c # d # cs) sb w = bind (loop e cf p (sb @ c)) (\<lambda>r. loop e cf p (r @ concat (d # cs))) w"
    unfolding go(2) [of c] bind_def l [OF Cons.prems(1)] using rest by (auto split: sum.split)
  also have "\<dots> = loop e cf p ((sb @ c) @ concat (d # cs)) w" using loop_append [OF wf assms(1)] by simp
  finally show ?case by simp
qed

end

text \<open>A frame of the realm protocol.\<close>

definition baal_frame :: "u16 \<Rightarrow> bytes \<Rightarrow> bytes" where
  "baal_frame k b = le16 (word_of_nat (4 + length b)) @ le16 k @ b"

lemma short_size: "length b < 65532 \<Longrightarrow> unat (word_of_nat (4 + length b) :: u16) = 4 + length b"
  unfolding unsigned_of_nat by (simp add: take_bit_nat_eq_self)

lemma le16_halves:
  assumes "length h = 4"
  shows "le16 (low16 (of_le32 h)) @ le16 (high16 (of_le32 h)) = h"
proof -
  have h: "le16 (of_le16 (take 2 h)) @ le16 (of_le16 (drop 2 h)) = h" using assms by (simp add: le16_of_le16)
  show ?thesis using halves_header [of "of_le16 (take 2 h)" "of_le16 (drop 2 h)"] unfolding h by (simp only: h)
qed

lemma size_back:
  assumes "unat (x :: u16) = 4 + n"
  shows "word_of_nat (4 + n) = x"
proof -
  have "word_of_nat (unat x) = x" by simp
  then show ?thesis by (simp only: assms)
qed

interpretation bnet: frame_loop "\<lambda>h. high16 (of_le32 h)" "\<lambda>h. low16 (of_le32 h)" bnet_build bnet_loop
proof (unfold_locales, goal_cases)
  case (1 e cf p sb)
  show ?case by (simp add: bnet_loop.simps [of e cf p sb] Let_def)
next
  case (2 b k)
  then show ?case
    by (intro exI [of _ "le16 k @ le16 (word_of_nat (4 + length b))"])
      (simp add: bnet_build_def halves_header short_size del: of_nat_add)
next
  case (3 h b)
  show ?case unfolding bnet_build_def size_back [OF 3(2)] using le16_halves [OF 3(1)] by (metis append_assoc)
qed

interpretation baal: frame_loop "\<lambda>h. low16 (of_le32 h)" "\<lambda>h. high16 (of_le32 h)" baal_frame baal_loop
proof (unfold_locales, goal_cases)
  case (1 e cf p sb)
  show ?case by (simp add: baal_loop.simps [of e cf p sb] Let_def)
next
  case (2 b k)
  then show ?case
    by (intro exI [of _ "le16 (word_of_nat (4 + length b)) @ le16 k"])
      (simp add: baal_frame_def halves_header short_size del: of_nat_add)
next
  case (3 h b)
  show ?case unfolding baal_frame_def size_back [OF 3(2)] using le16_halves [OF 3(1)] by (metis append_assoc)
qed

section \<open>What the framing guarantees\<close>

text \<open>A configuration without files and revisions, in which memory does not run out.\<close>

definition config0 :: config where
  "config0 = \<lparr>files_dir = ''files'', formula = [], revlist = [], comp_urldata = [], comp_mapname = [], comp_mapinfo = [],
     comp_mapdesc = [], comp_ladderdata = [], srp_gmp = gmp0, peer_of = (\<lambda>_. None), can_alloc = (\<lambda>_. True)\<rparr>"

text \<open>
  C10. The bytes of a logged-in client refine its requests: a buffer of whole packets with any
  incomplete rest behind them makes the server handle exactly those requests, in order and each
  with exactly its own bytes, and leaves the rest in the buffer.
\<close>

theorem packets_refine_requests:
  assumes "\<forall>f\<in>set fs. length (snd f) < 65532" and "\<forall>n. can_alloc cf n"
    and "length r < 4 \<or> unat (high16 (of_le32 (take 4 r))) > length r"
  shows "ProcessBNetLoggedIn n e cf a (concat (map (\<lambda>(k, b). bnet_build k b) fs) @ r) =
     seq (forM fs (\<lambda>(k, b). seq (PluginManager_Process (PluginBNetLoggedIn n e cf) a k (Stream_bytes b)) (ret ()))) (ret r)"
proof -
  have "bnet_loop e cf p r = ret r" for p using assms(3) by (auto simp: bnet.loop_eq [of e cf p r])
  then show ?thesis unfolding ProcessBNetLoggedIn_def using assms(1,2) by (subst bnet.loop_frames) simp_all
qed

theorem packets_refine_requests_witness:
  "ProcessBNetLoggedIn 1 env0 config0 0 (concat (map (\<lambda>(k, b). bnet_build k b) [(0x00FF, []), (0x25FF, [1, 2, 3, 4])]) @ [0xFF]) =
     seq (forM [(0x00FF, []), (0x25FF, [1, 2, 3, 4])] (\<lambda>(k, b). seq (PluginManager_Process (PluginBNetLoggedIn 1 env0 config0) 0 k
       (Stream_bytes b)) (ret ()))) (ret [0xFF])"
  by (rule packets_refine_requests) (simp_all add: config0_def)

text \<open>
  C36. A header that gives a size below four bytes is not refused: the subtraction wraps, and up to
  65535 of the bytes behind it, other packets included, are handed to the request as its own; what
  the connection has not sent yet is taken from uninitialised memory.
\<close>

theorem short_size_swallows:
  assumes "unat sz < 4" and "can_alloc cf (65532 + unat sz)"
  shows "ProcessBNet n e cf a (le16 op @ le16 sz @ b) =
     seq (PluginManager_Process (PluginBNet n e cf) a op (Stream_bytes (take (65532 + unat sz) b
            @ drop (length b) (fresh e ''buf'' (65532 + unat sz)))))
         (ProcessBNet n e cf a (drop (65532 + unat sz) b))"
proof -
  have w: "sz - 4 = 65532 + sz" by simp
  have "unat (65532 + sz) = unat (65532 :: u16) + unat sz"
    using assms(1) by (intro unat_add_lem [THEN iffD1]) simp
  then have n: "unat (sz - 4) = 65532 + unat sz" unfolding w by simp
  have "sbuf_read e m b = take m b @ drop (length b) (fresh e ''buf'' m)" for m
    by (auto simp: sbuf_read_def Let_def min_def fresh_def)
  then show ?thesis
    unfolding ProcessBNet_def using assms
    by (simp add: bnet_loop.simps [of _ _ _ "le16 op @ le16 sz @ b"] halves_header [of op sz, simplified] n Let_def)
qed

theorem short_size_swallows_witness:
  "ProcessBNet 1 env0 config0 0 (le16 0x59FF @ le16 0 @ [0xFF, 0x14, 4, 0]) =
     seq (PluginManager_Process (PluginBNet 1 env0 config0) 0 0x59FF (Stream_bytes (take (65532 + unat (0 :: u16)) [0xFF, 0x14, 4, 0]
            @ drop (length [0xFF, 0x14, 4, 0 :: u8]) (fresh env0 ''buf'' (65532 + unat (0 :: u16))))))
         (ProcessBNet 1 env0 config0 0 (drop (65532 + unat (0 :: u16)) [0xFF, 0x14, 4, 0]))"
  by (rule short_size_swallows) (simp_all add: config0_def)

end
