(* ===== verification/Safety.thy ===== *)
theory Safety
  imports Framing
begin

text \<open>
  A calculus for the whole server. \<open>server_ok\<close> is the invariant, \<open>ext w v\<close> says that \<open>v\<close> satisfies it and
  that everything a request holds a pointer to in \<open>w\<close> is still there; \<open>holds w m R\<close> says that \<open>m\<close>,
  started in \<open>w\<close>, either runs into one of the \<open>hazards\<close> or leads to such a state with \<open>R\<close>. The rules for
  \<open>holds\<close> follow the structure of an operation; the rest of the theory gives one for every operation
  of the caches, the rooms, the messages and the commands.
\<close>

section \<open>The invariant\<close>

text \<open>The arrays of an account have their declared sizes, its map is in order.\<close>

definition shaped :: "user_item \<Rightarrow> bool" where
  "shaped u \<longleftrightarrow> length (u_salt u) = 32 \<and> length (u_verifier u) = 32 \<and> length (u_passwd u) = 20
     \<and> osorted CompareInCaseLess (u_data_map u)"

definition ptrs_ok :: "world \<Rightarrow> bool" where
  "ptrs_ok w \<longleftrightarrow> list_all shaped (users w) \<and> (\<forall>p\<in>set (name_map w). snd p < length (users w)) \<and> (\<forall>p\<in>set (id_map w). snd p < length (users w))
     \<and> (\<forall>u\<in>set (users w). \<forall>f\<in>set (u_friend_list u). \<forall>a. fuser f = Some a \<longrightarrow> a < length (users w))"

definition server_ok :: "world \<Rightarrow> bool" where
  "server_ok w \<longleftrightarrow> rooms_ok w \<and> ptrs_ok w"

definition ext :: "world \<Rightarrow> world \<Rightarrow> bool" where
  "ext w v \<longleftrightarrow> server_ok v \<and> (\<forall>a. live_client w a \<longrightarrow> live_client v a)
     \<and> length (users w) \<le> length (users v) \<and> length (channels w) \<le> length (channels v)"

definition hazards :: "fault set" where
  "hazards = {OutOfBounds, NullDeref, NoFuel}"

definition holds :: "world \<Rightarrow> 'a M \<Rightarrow> ('a \<Rightarrow> world \<Rightarrow> bool) \<Rightarrow> bool" where
  "holds w m R \<longleftrightarrow> sf hazards m (\<lambda>x v. ext w v \<and> R x v) w"

abbreviation keeps :: "world \<Rightarrow> 'a M \<Rightarrow> bool" where
  "keeps w m \<equiv> holds w m (\<lambda>_ _. True)"

named_theorems keep \<open>operations that keep the invariant\<close>

lemma extD:
  assumes "ext w v"
  shows "server_ok v" "rooms_ok v" "ptrs_ok v" "live_client w a \<Longrightarrow> live_client v a"
    "i < length (users w) \<Longrightarrow> i < length (users v)" "i < length (channels w) \<Longrightarrow> i < length (channels v)"
  using assms by (auto simp: ext_def server_ok_def)

lemma ext_refl: "server_ok w \<Longrightarrow> ext w w"
  by (simp add: ext_def)

lemma ext_trans: "ext w v \<Longrightarrow> ext v u \<Longrightarrow> ext w u"
  by (auto simp: ext_def)

section \<open>The calculus\<close>

lemma holds_ret [keep]: "server_ok w \<Longrightarrow> R x w \<Longrightarrow> holds w (ret x) R"
  by (simp add: holds_def ext_refl)

lemma holds_fail [keep]: "f \<in> hazards \<Longrightarrow> holds w (fail f) R"
  by (simp add: holds_def)

lemma holds_bind:
  "holds w m S \<Longrightarrow> (\<And>x v. ext w v \<Longrightarrow> S x v \<Longrightarrow> holds v (k x) R) \<Longrightarrow> holds w (bind m k) R"
  unfolding holds_def sf_bind by (erule sf_mono) (blast intro: sf_mono ext_trans)

lemma holds_seq: "holds w m S \<Longrightarrow> (\<And>x v. ext w v \<Longrightarrow> S x v \<Longrightarrow> holds v n R) \<Longrightarrow> holds w (seq m n) R"
  unfolding seq_def by (rule holds_bind)

lemma keeps_bind: "keeps w m \<Longrightarrow> (\<And>x v. ext w v \<Longrightarrow> holds v (k x) R) \<Longrightarrow> holds w (bind m k) R"
  by (rule holds_bind)

lemma keeps_seq: "keeps w m \<Longrightarrow> (\<And>v. ext w v \<Longrightarrow> holds v n R) \<Longrightarrow> holds w (seq m n) R"
  by (rule holds_seq)

lemma holds_weaken: "holds w m S \<Longrightarrow> (\<And>x v. ext w v \<Longrightarrow> S x v \<Longrightarrow> R x v) \<Longrightarrow> holds w m R"
  unfolding holds_def by (erule sf_mono) blast

lemma holds_forM: "server_ok w \<Longrightarrow> (\<And>x v. x \<in> set xs \<Longrightarrow> ext w v \<Longrightarrow> keeps v (k x)) \<Longrightarrow> keeps w (forM xs k)"
proof (induction xs arbitrary: w)
  case Nil
  then show ?case by (simp add: holds_ret)
next
  case (Cons x xs)
  have "keeps w (k x)" using Cons.prems ext_refl by simp
  moreover have "keeps v (forM xs k)" if v: "ext w v" for v
    by (rule Cons.IH) (use Cons.prems(2) v extD(1) [OF v] ext_trans [OF v] in auto)
  ultimately show ?case by (simp add: keeps_seq)
qed

lemma holds_when: "server_ok w \<Longrightarrow> (b \<Longrightarrow> keeps w m) \<Longrightarrow> keeps w (whenM b m)"
  by (simp add: whenM_def holds_ret)

lemma holds_if: "(b \<Longrightarrow> holds w m R) \<Longrightarrow> (\<not> b \<Longrightarrow> holds w n R) \<Longrightarrow> holds w (if b then m else n) R"
  by simp

lemma holds_option:
  "(p = None \<Longrightarrow> holds w m R) \<Longrightarrow> (\<And>a. p = Some a \<Longrightarrow> holds w (k a) R) \<Longrightarrow> holds w (case p of None \<Rightarrow> m | Some a \<Rightarrow> k a) R"
  by (simp split: option.split)

lemma holds_prod: "(\<And>a b. p = (a, b) \<Longrightarrow> holds w (f a b) R) \<Longrightarrow> holds w (case p of (a, b) \<Rightarrow> f a b) R"
  by (simp split: prod.split)

lemma holds_gets [keep]: "server_ok w \<Longrightarrow> R (f w) w \<Longrightarrow> holds w (gets f) R"
  by (simp add: holds_def ext_refl)

lemma holds_the_ptr [keep]: "server_ok w \<Longrightarrow> (\<And>a. p = Some a \<Longrightarrow> R a w) \<Longrightarrow> holds w (the_ptr p) R"
  by (auto simp: holds_def hazards_def ext_refl split: option.split)

text \<open>Steps that read an object or a part of the state leave the state as it is.\<close>

lemma holds_read:
  assumes "m w = Inr (x, w)" and "holds w (k x) R"
  shows "holds w (bind m k) R"
  using assms by (simp add: holds_def sf_def bind_def)

lemma reads:
  "live_client w a \<Longrightarrow> client_at a w = Inr (the_client w a, w)"
  "i < length (users w) \<Longrightarrow> user_at i w = Inr (users w ! i, w)"
  "i < length (channels w) \<Longrightarrow> channel_at i w = Inr (channels w ! i, w)"
  "live_game w g \<Longrightarrow> game_at g w = Inr (the_game w g, w)"
  "gets f w = Inr (f w, w)" "pool_by_name nm w = Inr (ufind CompareInCaseEqual (clientMap w) nm, w)"
  "pool_by_token t w = Inr (ufind (=) (tokenMap w) t, w)"
  "Games_find nm w = Inr (ufind CompareInCaseEqual (game_map w) nm, w)" "the_ptr (Some b) w = Inr (b, w)"
  by (auto simp: client_at_def live_client_def the_client_def user_at_def channel_at_def game_at_def live_game_def
      the_game_def gets_def pool_by_name_def pool_by_token_def Games_find_def the_ptr_def ret_def split: option.split)

lemma holds_client_at: "live_client w a \<Longrightarrow> holds w (k (the_client w a)) R \<Longrightarrow> holds w (bind (client_at a) k) R"
  by (rule holds_read [of "client_at a", OF reads(1)])

lemma holds_user_at: "i < length (users w) \<Longrightarrow> holds w (k (users w ! i)) R \<Longrightarrow> holds w (bind (user_at i) k) R"
  by (rule holds_read [of "user_at i", OF reads(2)])

lemma holds_channel_at: "i < length (channels w) \<Longrightarrow> holds w (k (channels w ! i)) R \<Longrightarrow> holds w (bind (channel_at i) k) R"
  by (rule holds_read [of "channel_at i", OF reads(3)])

lemma holds_game_at: "live_game w g \<Longrightarrow> holds w (k (the_game w g)) R \<Longrightarrow> holds w (bind (game_at g) k) R"
  by (rule holds_read [of "game_at g", OF reads(4)])

lemma holds_get: "holds w (k (f w)) R \<Longrightarrow> holds w (bind (gets f) k) R"
  "holds w (h (ufind CompareInCaseEqual (clientMap w) nm)) R \<Longrightarrow> holds w (bind (pool_by_name nm) h) R"
  "holds w (h (ufind CompareInCaseEqual (game_map w) nm)) R \<Longrightarrow> holds w (bind (Games_find nm) h) R"
  by (erule holds_read [rotated], rule reads)+

section \<open>Operations that leave the accounts alone\<close>

definition frame :: "'a M \<Rightarrow> bool" where
  "frame m \<longleftrightarrow> (\<forall>w x v. m w = Inr (x, v) \<longrightarrow> users v = users w \<and> name_map v = name_map w \<and> id_map v = id_map w
     \<and> (\<forall>a. live_client w a \<longrightarrow> live_client v a) \<and> length (channels w) \<le> length (channels v))"

named_theorems frames \<open>operations that leave the accounts alone\<close>

lemma frame_bind [frames]:
  assumes "frame m" and "\<And>x. frame (k x)"
  shows "frame (bind m k)"
  unfolding frame_def
proof (intro allI impI)
  fix w y u assume "bind m k w = Inr (y, u)"
  then obtain x v where m: "m w = Inr (x, v)" and k: "k x v = Inr (y, u)"
    by (auto simp: bind_def split: sum.splits prod.splits)
  note 1 = assms(1) [unfolded frame_def, rule_format, OF m] and 2 = assms(2) [unfolded frame_def, rule_format, OF k]
  then show "users u = users w \<and> name_map u = name_map w \<and> id_map u = id_map w
      \<and> (\<forall>a. live_client w a \<longrightarrow> live_client u a) \<and> length (channels w) \<le> length (channels u)"
    by (metis order_trans)
qed

lemma frame_seq [frames]: "frame m \<Longrightarrow> frame n \<Longrightarrow> frame (seq m n)"
  unfolding seq_def by (rule frame_bind)

lemma frame_same: "(\<And>w x v. m w = Inr (x, v) \<Longrightarrow> v = w) \<Longrightarrow> frame m"
  unfolding frame_def by blast

lemma frame_basic [frames]: "frame (ret x)" "frame (fail f)" "frame (gets g)" "frame (client_at a)" "frame (user_at a)"
    "frame (channel_at a)" "frame (game_at a)" "frame (the_ptr p)" "frame (pool_by_name nm)" "frame (Games_find nm)"
  by (rule frame_same, simp add: ret_def fail_def gets_def client_at_def user_at_def channel_at_def game_at_def the_ptr_def
      pool_by_name_def Games_find_def split: option.splits if_splits)+

lemma frame_modify [frames]:
  assumes "\<And>w. users (f w) = users w \<and> name_map (f w) = name_map w \<and> id_map (f w) = id_map w \<and> clients (f w) = clients w
     \<and> length (channels w) \<le> length (channels (f w))"
  shows "frame (modify f)"
  using assms by (simp add: frame_def modify_def live_client_def)

lemma frame_upd_client [frames]: "frame (upd_client a f)"
  by (auto simp: frame_def upd_client_def bind_def client_at_def modify_def live_client_def nth_list_update split: option.splits if_splits)

lemma frame_upd_room [frames]: "frame (upd_channel a f)" "frame (upd_game g h)"
  by (auto simp: frame_def upd_channel_def upd_game_def bind_def channel_at_def game_at_def modify_def live_client_def
      split: option.splits if_splits)

lemma frame_when [frames]: "frame m \<Longrightarrow> frame (whenM b m)"
  by (simp add: whenM_def frame_basic)

lemma frame_forM [frames]: "(\<And>x. frame (k x)) \<Longrightarrow> frame (forM xs k)"
  by (induction xs) (simp_all add: frame_basic frame_seq)

lemma frame_option [frames]: "frame m \<Longrightarrow> (\<And>a. frame (k a)) \<Longrightarrow> frame (case p of None \<Rightarrow> m | Some a \<Rightarrow> k a)"
  by (simp split: option.split)

lemma frame_if [frames]: "frame m \<Longrightarrow> frame n \<Longrightarrow> frame (if b then m else n)"
  by simp

lemma frame_Let [frames]: "(\<And>x. frame (k x)) \<Longrightarrow> frame (Let t k)"
  by simp

lemma frame_Send [frames]: "frame (Send a v)"
  unfolding Send_def by (intro frames) simp

lemma frame_BuildAndSendTo [frames]: "frame (BuildAndSendTo a k b)"
  unfolding BuildAndSendTo_def by (intro frames)

lemma frame_client [frames]: "frame (GetUsername a)" "frame (GetFlag a)" "frame (SetLastWhisper a nm)"
    "frame (GetTicks e)" "frame (GetRandom32 e)"
  unfolding GetUsername_def GetFlag_def SetLastWhisper_def
  by (intro frames, intro frames, intro frames, simp_all add: frame_def GetTicks_def GetRandom32_def live_client_def)

lemma frame_messages [frames]: "frame (BuildMessagePacket cl t m)" "frame (Message_Send p q t m)"
    "frame (SendToSet pk us q ig)" "frame (Message_SendSet us q t m ig)"
proof -
  show 1: "frame (BuildMessagePacket cl t m)" for cl t m unfolding BuildMessagePacket_def by (intro frames)
  show 2: "frame (SendToSet pk us q ig)" for pk us q ig unfolding SendToSet_def by (intro frames)
  show "frame (Message_Send p q t m)" unfolding Message_Send_def by (intro frames 1)
  show "frame (Message_SendSet us q t m ig)" unfolding Message_SendSet_def by (intro frames 1 2)
qed

lemma frame_whisper [frames]: "frame (FindOnlineUser nm q ack)" "frame (SendWhisper nm q m ack)"
proof -
  show 1: "frame (FindOnlineUser nm q ack)" for nm q ack unfolding FindOnlineUser_def by (intro frames)
  show "frame (SendWhisper nm q m ack)" unfolding SendWhisper_def by (intro frames 1)
qed

lemma frame_online_friends [frames]: "frame (online_friends fs mut to)"
  by (induction fs arbitrary: to) (auto intro!: frames)

lemma frame_friend_messages [frames]: "frame (FriendSendInfo u t mut)" "frame (FriendWhisper u q t mut)"
  unfolding FriendSendInfo_def FriendWhisper_def by (intro frames)+

lemma frame_pool [frames]: "frame (pool_Add a)" "frame (pool_Remove nm)" "frame (SetUser a u)"
proof -
  show 1: "frame (pool_Add a)" for a unfolding pool_Add_def by (intro frames) simp
  show 2: "frame (pool_Remove nm)" for nm unfolding pool_Remove_def by (intro frames) simp
  show "frame (SetUser a u)" unfolding SetUser_def by (intro frames 1 2)
qed

lemma frame_games [frames]: "frame (Game_delete g)" "frame (Games_Remove nm)" "frame (Games_Add e nm)" "frame (Game_Leave g a)"
proof -
  show 1: "frame (Game_delete g)" for g unfolding Game_delete_def by (intro frames) simp
  show 2: "frame (Games_Remove nm)" for nm unfolding Games_Remove_def by (intro frames 1) simp
  show "frame (Games_Add e nm)" unfolding Games_Add_def by (intro frames 1) simp
  show "frame (Game_Leave g a)" unfolding Game_Leave_def by (intro frames 2)
qed

lemma frame_rooms [frames]: "frame (leave_game a)" "frame (leave_channel a)" "frame (Channel_Join ch a)" "frame (Game_Join g a)"
    "frame (Talk ch a m)"
proof -
  show 1: "frame (leave_game a)" for a unfolding leave_game_def by (intro frames)
  show 2: "frame (leave_channel a)" for a unfolding leave_channel_def Channel_Leave_def by (intro frames)
  show "frame (Channel_Join ch a)" unfolding Channel_Join_def by (intro frames 1 2)
  show "frame (Game_Join g a)" unfolding Game_Join_def by (intro frames 1 2)
  show "frame (Talk ch a m)" unfolding Talk_def by (intro frames)
qed

lemma frame_channels [frames]: "frame (Channels_find nm)" "frame (Channels_by_tag t)" "frame (Channels_Add p)"
    "frame (Channels_Add_new x)" "frame (ensure_index k r nn i)" "frame (Ensure nm t c)"
proof -
  show 1: "frame (Channels_find nm)" for nm unfolding Channels_find_def by (intro frames)
  show "frame (Channels_by_tag t)" unfolding Channels_by_tag_def by (intro frames) simp
  show 2: "frame (Channels_Add p)" for p unfolding Channels_Add_def by (intro frames) simp_all
  show 3: "frame (Channels_Add_new x)" for x
    unfolding Channels_Add_new_def new_channel_def by (intro frames 2) simp
  show 4: "frame (ensure_index k r nn i)" for k r nn i
    by (induction k arbitrary: i) (auto simp: Let_def intro!: frames 1 3)
  show "frame (Ensure nm t c)" unfolding Ensure_def by (intro frames 1 3 4)
qed

section \<open>Rooms and messages keep the invariant\<close>

lemma ext_frame:
  assumes "server_ok w" and "rooms_ok v" and "frame m" and "m w = Inr (x, v)"
  shows "ext w v"
  using assms(1,2) assms(3) [unfolded frame_def, rule_format, OF assms(4)]
  by (simp add: ext_def server_ok_def ptrs_ok_def)

lemma holds_rooms:
  assumes "server_ok w" and "wp m (\<lambda>x v. rooms_ok v \<and> R x v) w" and "frame m"
  shows "holds w m R"
  using assms(2) ext_frame [OF assms(1) _ assms(3)] by (auto simp: holds_def sf_run wp_run)

lemma holds_core:
  assumes "server_ok w" and "wp m (\<lambda>_ v. core v = core w) w" and "frame m"
  shows "holds w m (\<lambda>_ v. core v = core w)"
  by (rule holds_rooms [OF assms(1) _ assms(3)], rule wp_mono [OF assms(2)])
    (use assms(1) in \<open>auto simp: server_ok_def intro: rooms_ok_core\<close>)

lemma ext_core:
  assumes "server_ok w" and "core v = core w" and "name_map v = name_map w" and "id_map v = id_map w"
  shows "ext w v"
  using assms rooms_ok_core [OF assms(2)] core_live(1) [OF assms(2)] core_eqs [OF assms(2)]
  by (simp add: ext_def server_ok_def ptrs_ok_def)

lemma holds_modify:
  assumes "server_ok w" and "core (f w) = core w" and "name_map (f w) = name_map w" and "id_map (f w) = id_map w"
  shows "keeps w (modify f)"
  using ext_core [OF assms] by (simp add: holds_def)

lemma server_rooms: "server_ok w \<Longrightarrow> rooms_ok w"
  by (simp add: server_ok_def)

lemma server_user: "server_ok w \<Longrightarrow> live_client w a \<Longrightarrow> c_user (the_client w a) = Some u \<Longrightarrow> u < length (users w)"
  using rooms_okD(1) [OF server_rooms] by (auto simp: good_client_def)

lemma server_channel: "server_ok w \<Longrightarrow> live_client w a \<Longrightarrow> c_channel (the_client w a) = Some ch \<Longrightarrow> ch < length (channels w)"
  using rooms_okD(1) [OF server_rooms] by (auto simp: good_client_def)

lemma server_game: "server_ok w \<Longrightarrow> live_client w a \<Longrightarrow> c_game (the_client w a) = Some g \<Longrightarrow> live_game w g"
  using rooms_okD(2) [OF server_rooms] by blast

lemma server_pool: "server_ok w \<Longrightarrow> ufind CompareInCaseEqual (clientMap w) nm = Some b \<Longrightarrow> live_client w b"
  using maps_okD(4) [OF rooms_okD(5) [OF server_rooms]] by (auto dest!: ufind_SomeD)

lemma server_game_map: "server_ok w \<Longrightarrow> ufind CompareInCaseEqual (game_map w) nm = Some g \<Longrightarrow> live_game w g"
  using game_map_live [OF server_rooms] by blast

lemma server_friend: "server_ok w \<Longrightarrow> i < length (users w) \<Longrightarrow> f \<in> set (u_friend_list (users w ! i)) \<Longrightarrow> fuser f = Some p \<Longrightarrow> p < length (users w)"
  unfolding server_ok_def ptrs_ok_def by (meson nth_mem)

lemmas server_facts = server_user server_channel server_game server_pool server_game_map

lemma keeps_Send [keep]: "server_ok w \<Longrightarrow> live_client w a \<Longrightarrow> keeps w (Send a v)"
  by (rule holds_weaken [OF holds_core]) (auto intro: frames)

lemma keeps_BuildAndSendTo [keep]: "server_ok w \<Longrightarrow> live_client w a \<Longrightarrow> keeps w (BuildAndSendTo a k b)"
  unfolding BuildAndSendTo_def by (intro holds_option holds_ret keeps_Send) simp_all

lemma keeps_upd_client [keep]:
  assumes "server_ok w" and "live_client w a" and "\<And>c. place (f c) = place c"
  shows "keeps w (upd_client a f)"
  by (rule holds_weaken [OF holds_core]) (use assms core_client in \<open>auto intro: frames\<close>)

lemma keeps_Message_Send [keep]:
  assumes "server_ok w" and "\<And>b. p = Some b \<Longrightarrow> live_client w b" and "\<And>b. q = Some b \<Longrightarrow> live_client w b" and "t = MT_Whisper \<longrightarrow> q \<noteq> None"
  shows "keeps w (Message_Send p q t m)"
  by (rule holds_weaken [OF holds_core [OF assms(1) wp_send_ok [OF server_rooms [OF assms(1)] refl]]]) (use assms in \<open>auto intro: frames\<close>)

lemma keeps_info [keep]: "server_ok w \<Longrightarrow> live_client w a \<Longrightarrow> keeps w (info a m)"
  unfolding info_def by (rule keeps_bind [OF keeps_Message_Send]) (auto intro: keep extD)

lemma keeps_rooms [keep]:
  assumes "server_ok w" and "live_client w a"
  shows "keeps w (leave_game a)" and "keeps w (leave_channel a)"
    and "ch < length (channels w) \<Longrightarrow> keeps w (Channel_Join ch a)"
    and "live_game w g \<Longrightarrow> keeps w (Game_Join g a)" and "ch < length (channels w) \<Longrightarrow> keeps w (Talk ch a msg)"
    and "(\<And>v. u = Some v \<Longrightarrow> v < length (users w)) \<Longrightarrow> keeps w (SetUser a u)"
proof -
  note ok = server_rooms [OF assms(1)]
  have t: "wp m (\<lambda>_. rooms_ok) w \<Longrightarrow> frame m \<Longrightarrow> keeps w m" for m :: "unit M"
    by (rule holds_rooms [OF assms(1)]) simp_all
  show "keeps w (leave_game a)"
    by (rule t) (use wp_leave_game_ok [OF ok assms(2)] rooms_ok_gone_game [OF ok assms(2)] in \<open>auto intro: frames\<close>)
  show "keeps w (leave_channel a)"
    by (rule t) (use wp_leave_channel_ok [OF ok assms(2)] rooms_ok_gone_channel [OF ok assms(2)] in \<open>auto intro: frames\<close>)
  show "ch < length (channels w) \<Longrightarrow> keeps w (Channel_Join ch a)" by (rule t [OF Channel_Join_ok [OF ok assms(2)]]) (auto intro: frames)
  show "live_game w g \<Longrightarrow> keeps w (Game_Join g a)" by (rule t [OF Game_Join_ok [OF ok assms(2)]]) (auto intro: frames)
  show "ch < length (channels w) \<Longrightarrow> keeps w (Talk ch a msg)" by (rule t [OF Talk_ok [OF ok assms(2)]]) (auto intro: frames)
  show "(\<And>v. u = Some v \<Longrightarrow> v < length (users w)) \<Longrightarrow> keeps w (SetUser a u)"
    by (rule t [OF wp_SetUser [OF ok assms(2)]]) (auto intro: frames)
qed

lemma holds_Ensure [keep]:
  assumes "server_ok w" and "NUL \<notin> set nm" and "NUL \<notin> set c"
  shows "holds w (Ensure nm t c) (\<lambda>q v. \<forall>ch. q = Some ch \<longrightarrow> ch < length (channels v))"
  by (rule holds_rooms [OF assms(1) wp_mono [OF wp_Ensure [OF server_rooms [OF assms(1)] assms(2,3)]]])
    (auto simp: more_channels_def intro: frames)

lemma holds_Games_Add [keep]:
  assumes "server_ok w" and "ufind CompareInCaseEqual (game_map w) nm = None"
  shows "holds w (Games_Add e nm) (\<lambda>g v. live_game v g)"
  by (rule holds_rooms [OF assms(1) wp_mono [OF wp_Games_Add [OF server_rooms [OF assms(1)] assms(2)]]])
    (auto intro: frames)

lemma holds_upd_game [keep]:
  assumes "server_ok w" and "live_game w g" and "\<And>x. g_name (f x) = g_name x \<and> g_connlist (f x) = g_connlist x \<and> g_host (f x) = g_host x"
  shows "holds w (upd_game g f) (\<lambda>_ v. live_game v g)"
  by (rule holds_rooms [OF assms(1)])
    (use assms rooms_ok_game_data [OF server_rooms [OF assms(1)] assms(2)] in \<open>auto intro: frames simp: live_game_def\<close>)

lemma keeps_SendWhisper [keep]: "server_ok w \<Longrightarrow> live_client w a \<Longrightarrow> keeps w (SendWhisper nm (Some a) m ack)"
  by (rule holds_weaken [OF holds_core [OF _ wp_SendWhisper_core]])
    (auto intro: frames rooms_ok_pool_good server_rooms rooms_okD(1) [OF server_rooms])

lemma wp_online_friends:
  assumes "server_ok w" and "\<And>f p. f \<in> set fs \<Longrightarrow> fuser f = Some p \<Longrightarrow> p < length (users w)" and "\<forall>a\<in>set us. live_client w a"
  shows "wp (online_friends fs mut us) (\<lambda>l v. v = w \<and> (\<forall>a\<in>set l. live_client w a)) w"
  using assms(2,3)
proof (induction fs arbitrary: us)
  case (Cons f fs)
  have n: "\<forall>a\<in>set (case ufind CompareInCaseEqual (clientMap w) nm of None \<Rightarrow> us | Some a \<Rightarrow> set_insert a us). live_client w a" for nm
    using Cons.prems(2) server_pool [OF assms(1)] by (auto split: option.split)
  have ih: "wp (online_friends fs mut ys) (\<lambda>l v. v = w \<and> (\<forall>a\<in>set l. live_client w a)) w" if "\<forall>a\<in>set ys. live_client w a" for ys
    by (rule Cons.IH) (use Cons.prems(1) that in auto)
  have "p < length (users w)" if "fuser f = Some p" for p by (rule Cons.prems(1) [OF _ that]) simp
  then show ?case using ih [OF Cons.prems(2)] ih [OF n] by (cases "fuser f"; cases mut) (simp_all add: pool_by_name_def)
qed simp

lemma keeps_FriendWhisper [keep]:
  assumes "server_ok w" and "live_client w a" and "u < length (users w)"
  shows "keeps w (FriendWhisper u (Some a) t mut)"
proof (rule holds_weaken [OF holds_core [OF assms(1)]])
  have "wp (Message_SendSet l (Some a) MT_Whisper t False) (\<lambda>_ v. core v = core w) w" if "\<forall>b\<in>set l. live_client w b" for l
    by (rule wp_sendset_ok [OF server_rooms [OF assms(1)] refl]) (use that assms(2) in auto)
  then show "wp (FriendWhisper u (Some a) t mut) (\<lambda>_ v. core v = core w) w"
    using assms(3) by (auto simp: FriendWhisper_def intro!: wp_mono [OF wp_online_friends [OF assms(1) server_friend [OF assms(1,3)]]])
qed (auto intro: frames)

lemma rooms_ok_gcm:
  assumes "rooms_ok w" and "\<And>ch. ch \<in> set l \<Longrightarrow> ch < length (channels w)"
  shows "rooms_ok (w\<lparr>game_channelmap := oset (<) (game_channelmap w) t l\<rparr>)"
proof -
  have "rooms_ok (w\<lparr>channelmap := channelmap w, game_channelmap := oset (<) (game_channelmap w) t l\<rparr>)"
    using maps_okD(5,6) [OF rooms_okD(5) [OF assms(1)]] assms(2)
    by (intro rooms_ok_channel_maps [OF assms(1)]) (auto dest!: oset_entryD)
  then show ?thesis by simp
qed

lemma keeps_gcm [keep]:
  assumes "server_ok w" and "\<And>ch. ch \<in> set l \<Longrightarrow> ch < length (channels w)"
  shows "keeps w (modify (\<lambda>w. w\<lparr>game_channelmap := oset (<) (game_channelmap w) t l\<rparr>))"
  by (rule holds_rooms [OF assms(1)]) (use rooms_ok_gcm [OF server_rooms [OF assms(1)] assms(2)] in \<open>auto intro: frames\<close>)

lemma holds_Channels_by_tag [keep]:
  assumes "server_ok w"
  shows "holds w (Channels_by_tag t) (\<lambda>l v. \<forall>ch\<in>set l. ch < length (channels v))"
proof (rule holds_rooms [OF assms])
  let ?v = "w\<lparr>game_channelmap := oset (<) (game_channelmap w) t (tag_list t (game_channelmap w))\<rparr>"
  have "rooms_ok ?v" by (rule rooms_ok_gcm) (use tag_list_ok [OF rooms_okD(5)] server_rooms [OF assms] in auto)
  then show "wp (Channels_by_tag t) (\<lambda>l v. rooms_ok v \<and> (\<forall>ch\<in>set l. ch < length (channels v))) w"
    using tag_list_ok [OF rooms_okD(5), of ?v] by (auto simp: Channels_by_tag_def)
qed (rule frames)

lemma keeps_fileCache [keep]: "server_ok w \<Longrightarrow> keeps w (fileCache e dir fn)"
  unfolding holds_def by (rule sf_of_wp, rule wp_fileCache) (simp add: ext_core core_def)

section \<open>Accounts\<close>

text \<open>A state in which only accounts changed, none was lost or renamed.\<close>

lemma ext_users:
  assumes ok: "server_ok w" and p: "ptrs_ok v" and l: "length (users w) \<le> length (users v)"
    and n: "\<And>i. i < length (users w) \<Longrightarrow> u_username (users v ! i) = u_username (users w ! i)"
    and s: "clients v = clients w" "channels v = channels w" "games v = games w" "game_map v = game_map w"
      "clientMap v = clientMap w" "channelmap v = channelmap w" "game_channelmap v = game_channelmap w"
  shows "ext w v"
proof -
  note r = server_rooms [OF ok]
  have c: "live_client v = live_client w" "the_client v = the_client w" "live_game v = live_game w" "the_game v = the_game w"
    using s by (simp_all add: fun_eq_iff live_client_def the_client_def live_game_def the_game_def)
  have u: "username_of v a = username_of w a" if "live_client w a" for a
    using server_user [OF ok that] n by (auto simp: username_of_def c split: option.split)
  have "rooms_ok v"
  proof (rule rooms_okI)
    show "good_client v a" if "live_client v a" for a
      using that rooms_okD(1) [OF r, of a] l s by (auto simp: c good_client_def)
    show "maps_ok v"
      using rooms_okD(5) [OF r] u by (auto simp: maps_ok_def c s)
  qed (use r s in \<open>auto simp: rooms_ok_def c game_ok_def members_def\<close>)
  then show ?thesis using p l s by (simp add: ext_def server_ok_def c)
qed

lemma keeps_upd_user [keep]:
  assumes "server_ok w" and "i < length (users w)" and "u_username (f (users w ! i)) = u_username (users w ! i)"
    and "\<And>x p. x \<in> set (u_friend_list (f (users w ! i))) \<Longrightarrow> fuser x = Some p \<Longrightarrow> p < length (users w)"
    and "shaped (users w ! i) \<Longrightarrow> shaped (f (users w ! i))"
  shows "keeps w (upd_user i f)"
proof -
  have s: "list_all shaped (users w)" using assms(1) by (simp add: server_ok_def ptrs_ok_def)
  then have "list_all shaped ((users w)[i := f (users w ! i)])"
    using assms(2,5) by (simp add: list_all_length nth_list_update)
  have "ptrs_ok (w\<lparr>users := (users w)[i := f (users w ! i)]\<rparr>)"
    using \<open>list_all shaped ((users w)[i := f (users w ! i)])\<close> assms(1,4) set_update_subset_insert [of "users w" i "f (users w ! i)"]
    unfolding server_ok_def ptrs_ok_def by fastforce
  then have "ext w (w\<lparr>users := (users w)[i := f (users w ! i)]\<rparr>)"
    by (rule ext_users [OF assms(1)]) (use assms(2,3) in \<open>auto simp: nth_list_update\<close>)
  then show ?thesis unfolding holds_def by (intro sf_of_wp) (simp add: assms(2))
qed

text \<open>The changes that the requests make to an account leave its name and friends alone.\<close>

lemma user_setters [simp]:
  "u_username (SetSalt b u) = u_username u" "u_friend_list (SetSalt b u) = u_friend_list u"
  "u_username (SetVerifier b u) = u_username u" "u_friend_list (SetVerifier b u) = u_friend_list u"
  "u_username (SetPasswd b u) = u_username u" "u_friend_list (SetPasswd b u) = u_friend_list u"
  "u_username (SetMail t u) = u_username u" "u_friend_list (SetMail t u) = u_friend_list u"
  "u_username (AddUserFlag k u) = u_username u" "u_friend_list (AddUserFlag k u) = u_friend_list u"
  "u_username (SetUserFlag k u) = u_username u" "u_friend_list (SetUserFlag k u) = u_friend_list u"
  "u_username (SetDataMap b u) = u_username u" "u_friend_list (SetDataMap b u) = u_friend_list u"
  "u_username (snd (GetData t u)) = u_username u" "u_friend_list (snd (GetData t u)) = u_friend_list u"
  "u_username (SetData t t' u) = u_username u" "u_friend_list (SetData t t' u) = u_friend_list u"
  by (simp_all add: SetSalt_def SetVerifier_def SetPasswd_def SetMail_def AddUserFlag_def SetUserFlag_def SetDataMap_def
      GetData_def SetData_def split: prod.split)

lemma shaped_friends [simp]: "shaped (u\<lparr>u_friend_list := l\<rparr>) = shaped u" "shaped (u\<lparr>u_friend_dirty := b\<rparr>) = shaped u"
    "shaped (u\<lparr>u_dirty := b\<rparr>) = shaped u" "shaped (u\<lparr>u_id := k\<rparr>) = shaped u"
  by (simp_all add: shaped_def)

lemma osorted_records: "osorted CompareInCaseLess m \<Longrightarrow> osorted CompareInCaseLess (load_records d m)"
proof (induction d m rule: load_records.induct)
  case (1 d m)
  then show ?case by (subst load_records.simps) (auto simp: Let_def store_record_def cil.osorted_oset)
qed

lemma shaped_set [simp]:
  "32 \<le> length b \<Longrightarrow> shaped u \<Longrightarrow> shaped (SetSalt b u)" "32 \<le> length b \<Longrightarrow> shaped u \<Longrightarrow> shaped (SetVerifier b u)"
  "20 \<le> length b \<Longrightarrow> shaped u \<Longrightarrow> shaped (SetPasswd b u)" "shaped u \<Longrightarrow> shaped (SetMail t u)" "shaped u \<Longrightarrow> shaped (AddUserFlag k u)"
  "shaped u \<Longrightarrow> shaped (SetUserFlag k u)" "shaped u \<Longrightarrow> shaped (SetDataMap b u)" "shaped u \<Longrightarrow> shaped (snd (GetData t u))"
  "shaped u \<Longrightarrow> shaped (SetData t t' u)" "shaped (UserCacheItem e i t)"
  "u_friend_list (UserCacheItem e i t) = []"
  by (simp_all add: shaped_def SetSalt_def SetVerifier_def SetPasswd_def SetMail_def AddUserFlag_def SetUserFlag_def SetDataMap_def
      GetData_def SetData_def data_at_def UserCacheItem_def fresh_def osorted_records osorted_def [of _ "[]"] cil.osorted_oset split: option.split)

lemma keeps_set_user [keep]:
  assumes "server_ok w" and "i < length (users w)" and "\<And>u. u_username (f u) = u_username u" and "\<And>u. u_friend_list (f u) = u_friend_list u"
    and "\<And>u. shaped u \<Longrightarrow> shaped (f u)"
  shows "keeps w (upd_user i f)"
  by (rule keeps_upd_user) (use assms server_friend [OF assms(1,2)] in auto)

lemma holds_user_read [keep]:
  assumes "server_ok w" and "i < length (users w)"
  shows "holds w (user_at i) (\<lambda>u v. v = w \<and> u = users w ! i)"
  using assms by (simp add: holds_def sf_def user_at_def ext_refl)

lemma holds_AddFriend [keep]:
  assumes "server_ok w" and "i < length (users w)" and "\<And>p. q = Some p \<Longrightarrow> p < length (users w)"
  shows "keeps w (AddFriend i q)"
proof (cases q)
  case None
  then show ?thesis using assms(1) by (simp add: AddFriend_def holds_ret)
next
  case (Some p)
  let ?l = "\<lambda>j l. l[j := (l ! j)\<lparr>mutual := True\<rparr>]"
  have l: "\<exists>y\<in>set l. fuser x = fuser y" if x: "x \<in> set (?l j l)" for x j l
  proof (cases "j < length l")
    case True
    then show ?thesis using set_update_subset_insert [THEN subsetD, OF x] by auto
  qed (use x in \<open>auto simp: list_update_beyond\<close>)
  have pw: "p < length (users w)" using assms(3) Some by simp
  have 1: "keeps w (whenM b (upd_user p (\<lambda>o'. o'\<lparr>u_friend_list := ?l j (u_friend_list o')\<rparr>)))" for b j
    by (intro holds_when keeps_upd_user assms(1) pw) (use server_friend [OF assms(1) pw] l in \<open>auto dest!: l\<close>)
  have 2: "keeps v (upd_user i (\<lambda>m. m\<lparr>u_friend_list := u_friend_list m @ [\<lparr>mutual = b, fuser = Some p\<rparr>], u_friend_dirty := True\<rparr>))"
    if "ext w v" for v b
  proof (rule keeps_upd_user)
    have v: "server_ok v" "i < length (users v)" "p < length (users v)" using extD [OF that] assms(2) pw by auto
    then show "server_ok v" "i < length (users v)" by blast+
    show "p' < length (users v)" if "x \<in> set (u_friend_list ((users v ! i)\<lparr>u_friend_list := u_friend_list (users v ! i)
        @ [\<lparr>mutual = b, fuser = Some p\<rparr>], u_friend_dirty := True\<rparr>))" "fuser x = Some p'" for x p'
      using that v server_friend [OF v(1,2)] by auto
  qed (simp_all add: shaped_def)
  show ?thesis
    unfolding AddFriend_def Some option.case Let_def
    by (intro holds_if holds_ret holds_user_at [OF assms(2)] holds_user_at [OF pw] keeps_seq 1 2 assms(1)) (auto intro: extD)
qed

lemma holds_UserAdd [keep]:
  assumes "server_ok w"
  shows "holds w (UserAdd e nm k) (\<lambda>p v. p < length (users v))"
proof -
  have "ptrs_ok (added e nm k w)"
    using assms unfolding server_ok_def ptrs_ok_def
    by (auto simp: added_def Let_def dest!: uset_entryD intro: less_SucI)
  then have "ext w (added e nm k w)"
    by (rule ext_users [OF assms]) (auto simp: added_def Let_def nth_append)
  moreover have "length (users w) < length (users (added e nm k w))" by (simp add: added_def Let_def)
  ultimately show ?thesis unfolding holds_def by (intro sf_of_wp) (simp add: wp_UserAdd)
qed

lemma holds_vals [keep]:
  "server_ok w \<Longrightarrow> keeps w (cell rows i j)" "server_ok w \<Longrightarrow> keeps w (lVal d)" "server_ok w \<Longrightarrow> keeps w (sVal d)"
  "server_ok w \<Longrightarrow> keeps w (bVal d)" "server_ok w \<Longrightarrow> keeps w (where_text nm k)"
  by (auto simp: cell_def lVal_def sVal_def bVal_def where_text_def Let_def hazards_def intro!: holds_ret holds_fail split: DataDef.split)

lemma holds_sql [keep]:
  assumes "server_ok w"
  shows "keeps w (GetMatch e t ks c r)" and "keeps w (RemoveMatch e t c)" and "keeps w (StorageSet e t ks d)"
    and "keeps w (Begin e)" and "keeps w (Commit e)"
proof -
  have x: "keeps w (doExec e q)" for q
    unfolding holds_def by (intro sf_of_wp) (simp add: ext_core [OF assms])
  have q: "keeps w (doQuery e q n r)" for q n r
    unfolding holds_def by (intro sf_of_wp) (simp add: ext_refl [OF assms] split: option.split)
  show "keeps w (GetMatch e t ks c r)" by (simp add: GetMatch_def GetAll_def q)
  have u: "keeps w (bind (doExec e q) (\<lambda>_. ret ()))" for q by (rule keeps_bind [OF x]) (auto intro: holds_ret extD)
  show "keeps w (RemoveMatch e t c)" "keeps w (Begin e)" "keeps w (Commit e)"
    by (simp_all add: RemoveMatch_def RemoveAll_def Begin_def Commit_def u)
  show "keeps w (StorageSet e t ks d)" by (auto simp: StorageSet_def hazards_def x intro: holds_fail split: option.split)
qed

lemma keeps_fill_user [keep]:
  assumes "server_ok w" and "i < length (users w)"
  shows "keeps w (fill_user rows i)"
proof -
  have c: "holds v (bind (bind (cell rows 0 j) f) k) R"
    if "server_ok v" "\<And>d u. ext v u \<Longrightarrow> keeps u (f d)" "\<And>x u. ext v u \<Longrightarrow> holds u (k x) R" for v j f k R
    by (rule keeps_bind [OF keeps_bind [OF holds_vals(1)]]) (use that in auto)
  show ?thesis unfolding fill_user_def
    by (intro c assms(1) keeps_set_user) (use assms(2) in \<open>auto simp: Let_def ext_def intro: holds_vals\<close>)
qed

abbreviation valid_user :: "nat option \<Rightarrow> world \<Rightarrow> bool" where
  "valid_user q v \<equiv> \<forall>p. q = Some p \<longrightarrow> p < length (users v)"

lemma holds_found: "server_ok w \<Longrightarrow> i < length (users w) \<Longrightarrow> holds w (found i) valid_user"
  unfolding found_def by (intro holds_user_at holds_ret) auto

lemma server_maps:
  assumes "server_ok w"
  shows "ufind CompareInCaseEqual (name_map w) nm = Some i \<Longrightarrow> i < length (users w)"
    and "ufind (=) (id_map w) k = Some i \<Longrightarrow> i < length (users w)"
  using assms by (auto simp: server_ok_def ptrs_ok_def dest!: ufind_SomeD)

lemma holds_by_name:
  assumes "server_ok w" and "\<And>nm k. holds w (load nm k) valid_user"
  shows "holds w (by_name load nm) valid_user"
  unfolding by_name_def by (intro holds_get holds_option assms(2) holds_found assms(1)) (rule server_maps [OF assms(1)])

lemma holds_by_id:
  assumes "server_ok w" and "\<And>nm k. holds w (load nm k) valid_user"
  shows "holds w (by_id load k) valid_user"
  unfolding by_id_def by (intro holds_get holds_option assms(2) holds_found assms(1)) (rule server_maps [OF assms(1)])

text \<open>The entry that records that there is no account of a name.\<close>

lemma holds_no_user:
  assumes "server_ok w"
  shows "holds w (bind (new_user e nm) (\<lambda>item. seq (modify (\<lambda>w. w\<lparr>name_map := uset CompareInCaseEqual (name_map w) nm item\<rparr>)) (ret None))) valid_user"
proof -
  let ?v = "w\<lparr>users := users w @ [UserCacheItem e (length (users w)) nm], name_map := uset CompareInCaseEqual (name_map w) nm (length (users w))\<rparr>"
  have "ptrs_ok ?v" using assms unfolding server_ok_def ptrs_ok_def
    by (auto dest!: uset_entryD intro: less_SucI)
  then have "ext w ?v" by (rule ext_users [OF assms]) (auto simp: nth_append)
  then show ?thesis unfolding holds_def by (intro sf_of_wp) (simp add: new_user_def)
qed

lemma holds_friend_loop:
  assumes "server_ok w" and "p < length (users w)" and "\<And>v nm k. server_ok v \<Longrightarrow> holds v (load nm k) valid_user"
  shows "keeps w (forM ks (\<lambda>fid. bind (by_id load fid) (\<lambda>fr. bind (AddFriend p fr) (\<lambda>_. ret ()))))"
proof (rule holds_forM [OF assms(1)])
  fix fid v assume v: "ext w v"
  note ok = extD(1) [OF v]
  show "keeps v (bind (by_id load fid) (\<lambda>fr. bind (AddFriend p fr) (\<lambda>_. ret ())))"
  proof (rule holds_bind [OF holds_by_id [OF ok assms(3) [OF ok]]])
    fix fr u assume u: "ext v u" "valid_user fr u"
    show "keeps u (bind (AddFriend p fr) (\<lambda>_. ret ()))"
      by (rule keeps_bind [OF holds_AddFriend]) (use u v assms(2) in \<open>auto simp: ext_def intro: holds_ret\<close>)
  qed
qed

lemma holds_cell: "server_ok w \<Longrightarrow> (\<And>v d. server_ok v \<Longrightarrow> keeps v (f d)) \<Longrightarrow> keeps w (bind (cell rows i j) f)"
  by (rule keeps_bind [OF holds_vals(1)]) (auto intro: extD)

lemma holds_load_friends:
  assumes "server_ok w" and "p < length (users w)" and "\<And>v nm k. server_ok v \<Longrightarrow> holds v (load nm k) valid_user"
  shows "holds w (seq (whenM (length frows \<ge> 1) (bind (bind (cell frows 0 0) bVal) (\<lambda>b.
       forM (words_of b) (\<lambda>fid. bind (by_id load fid) (\<lambda>fr. bind (AddFriend p fr) (\<lambda>_. ret ()))))))
     (ret (Some p))) valid_user"
proof (intro keeps_seq holds_when keeps_bind holds_cell assms(1) holds_vals)
  fix b v assume v: "ext w v"
  show "keeps v (forM (words_of b) (\<lambda>fid. bind (by_id load fid) (\<lambda>fr. bind (AddFriend p fr) (\<lambda>_. ret ()))))"
    by (rule holds_friend_loop) (use extD [OF v] assms(2,3) in auto)
qed (use assms(2) in \<open>auto simp: ext_def intro!: holds_ret\<close>)

lemma holds_LoadUser: "server_ok w \<Longrightarrow> holds w (LoadUser n e nm k) valid_user"
proof (induction n arbitrary: w nm k)
  case 0
  then show ?case by (simp add: hazards_def holds_fail)
next
  case (Suc n)
  have user: "holds v (bind (UserAdd e un i) (\<lambda>ptr. seq (fill_user rows ptr) (bind (where_text None i) (\<lambda>whereexpr.
         bind (GetMatch e ''friends'' [''friendlist''] whereexpr []) (\<lambda>(_, frows).
         seq (whenM (length frows \<ge> 1) (bind (bind (cell frows 0 0) bVal) (\<lambda>b.
                forM (words_of b) (\<lambda>fid. bind (by_id (LoadUser n e) fid) (\<lambda>fr. bind (AddFriend ptr fr) (\<lambda>_. ret ()))))))
         (ret (Some ptr))))))) valid_user" if v: "server_ok v" for v rows un i
    by (intro holds_bind [OF holds_UserAdd [OF v]] keeps_seq keeps_fill_user keeps_bind holds_vals holds_sql holds_prod
        holds_load_friends Suc.IH; (erule extD(1) | assumption | auto simp: ext_def))
  show ?case
    unfolding LoadUser.simps
    by (intro keeps_bind holds_vals holds_sql holds_prod holds_if user holds_cell keeps_seq holds_when holds_option holds_no_user
        holds_fail Suc.prems; (erule extD(1) | assumption | simp add: hazards_def))
qed

lemma holds_user_by_name: "server_ok w \<Longrightarrow> holds w (user_by_name n e nm) valid_user"
  unfolding user_by_name_def by (intro holds_by_name holds_LoadUser)

lemma bind_user_by_name:
  "server_ok w \<Longrightarrow> (\<And>q v. ext w v \<Longrightarrow> valid_user q v \<Longrightarrow> holds v (k q) R) \<Longrightarrow> holds w (bind (user_by_name n e nm) k) R"
  by (rule holds_bind [OF holds_user_by_name])

section \<open>Commands\<close>

lemma keeps_status_commands [keep]:
  assumes "server_ok w" and "live_client w a"
  shows "keeps w (CommandAway a t)" and "keeps w (CommandDND a t)" and "keeps w (CommandStatus a)"
    and "keeps w (CommandReply a t)" and "keeps w (CommandWhisper a t t')"
  unfolding CommandAway_def CommandDND_def CommandStatus_def CommandReply_def CommandWhisper_def
  by (intro holds_client_at keeps_seq keeps_bind [OF keeps_SendWhisper] keeps_upd_client holds_if holds_when keeps_info holds_get holds_ret assms;
      use assms in \<open>auto simp: ext_def place_def\<close>)+

lemma keeps_CommandChannels [keep]:
  assumes "server_ok w" and "live_client w a"
  shows "keeps w (CommandChannels a)"
  unfolding CommandChannels_def
  by (intro holds_client_at holds_bind [OF holds_Channels_by_tag] keeps_seq holds_forM holds_channel_at keeps_info assms)
    (use assms in \<open>auto simp: ext_def\<close>)

lemma keeps_CommandJoin [keep]:
  assumes "server_ok w" and "live_client w a" and "NUL \<notin> set t"
  shows "keeps w (CommandJoin a t)"
  unfolding CommandJoin_def
  by (intro holds_client_at holds_bind [OF holds_Ensure] holds_option keeps_rooms keeps_info assms)
    (use assms in \<open>auto simp: ext_def\<close>)

lemma bind_GetUsername:
  assumes "server_ok w" and "live_client w b" and "holds w (k (username_of w b)) R"
  shows "holds w (bind (GetUsername b) k) R"
proof (rule holds_read)
  show "GetUsername b w = Inr (username_of w b, w)"
    using assms(1,2) server_user [OF assms(1,2)]
    by (auto simp: GetUsername_def username_of_def bind_def reads ret_def split: option.split)
qed (rule assms(3))

lemma keeps_CommandWhoIs [keep]:
  assumes "server_ok w" and "live_client w a"
  shows "keeps w (CommandWhoIs a t)"
  unfolding CommandWhoIs_def
  by (intro holds_if holds_ret holds_get holds_option keeps_info holds_client_at bind_GetUsername holds_game_at holds_channel_at assms)
    (use assms in \<open>auto intro: server_facts\<close>)

lemma holds_friend_where:
  assumes "server_ok w" and "\<And>b. c = Some b \<Longrightarrow> live_client w b"
  shows "keeps w (friend_where fr c)"
  unfolding friend_where_def
  by (intro holds_option holds_ret holds_client_at holds_if holds_channel_at holds_bind [OF holds_the_ptr] assms)
    (use assms in \<open>auto simp: ext_def dest: server_channel\<close>)

lemma friend_at: "GetFriend i u = Some fr \<Longrightarrow> fr \<in> set (u_friend_list u)"
  by (auto simp: GetFriend_def split: if_splits)

lemma keeps_friend_line:
  assumes "server_ok w" and "live_client w a" and "u < length (users w)"
  shows "keeps w (friend_line a u i)"
proof -
  have "keeps w (bind (the_ptr (fuser fr)) (\<lambda>f. bind (user_at f) (\<lambda>fu. bind (pool_by_name (u_username fu)) (\<lambda>c.
      bind (friend_where fr c) (\<lambda>utxt. info a (u_username fu @ '', '' @ utxt))))))" if "GetFriend i (users w ! u) = Some fr" for fr
  proof (cases "fuser fr")
    case None
    then show ?thesis by (simp add: the_ptr_def bind_def fail_def holds_def sf_def hazards_def)
  next
    case (Some f)
    then have "f < length (users w)" using server_friend [OF assms(1,3) friend_at [OF that]] by blast
    then show ?thesis unfolding Some the_ptr_def option.case bind_ret
      by (intro holds_user_at holds_get keeps_bind [OF holds_friend_where] keeps_info assms)
        (use assms in \<open>auto simp: ext_def intro: server_pool\<close>)
  qed
  then show ?thesis unfolding friend_line_def
    by (intro holds_user_at holds_option holds_ret assms) simp_all
qed

lemma keeps_friend_list [keep]:
  assumes "server_ok w" and "live_client w a"
  shows "keeps w (friend_list a)"
proof -
  have l: "keeps v (forM xs (friend_line a u))" if "server_ok v" "live_client v a" "u < length (users v)" for v u xs
    by (rule holds_forM [OF that(1)]) (use that in \<open>auto simp: ext_def intro!: keeps_friend_line\<close>)
  show ?thesis
    unfolding friend_list_def
    by (intro keeps_seq keeps_info holds_client_at holds_option holds_ret holds_user_at l assms)
      (use assms in \<open>auto simp: ext_def intro: server_user\<close>)
qed

lemma keeps_friend_help [keep]: "server_ok w \<Longrightarrow> live_client w a \<Longrightarrow> keeps w (friend_help a)"
  unfolding friend_help_def by (intro holds_forM keeps_info) (auto intro: extD)

lemma keeps_friend_location: "server_ok w \<Longrightarrow> live_client w b \<Longrightarrow> keeps w (friend_location mut (the_client w b))"
  unfolding friend_location_def
  by (intro holds_option holds_ret holds_game_at holds_channel_at) (auto intro: server_facts)

lemma keeps_friend_status:
  assumes "server_ok w" and "\<And>b. p = Some b \<Longrightarrow> live_client w b"
  shows "keeps w (friend_status mut p)"
  unfolding friend_status_def
  by (intro holds_option holds_ret holds_client_at keeps_bind [OF keeps_friend_location] holds_prod assms) (use assms in \<open>auto simp: ext_def\<close>)

lemma keeps_friend_packs [keep]:
  assumes "server_ok w" and "valid_user (fuser fr) w" and "\<And>b. cl = Some b \<Longrightarrow> live_client w b"
  shows "keeps w (FriendAdd_Pack cl fr)" and "keeps w (FriendUpdate_Pack i cl fr)" and "keeps w (friend_entry fr)"
proof -
  have p: "holds w (case cl of None \<Rightarrow> pool_by_name nm | Some b \<Rightarrow> ret (Some b)) (\<lambda>q v. \<forall>b. q = Some b \<longrightarrow> live_client v b)" for nm
    using assms(1,3) server_pool [OF assms(1)] by (auto simp: pool_by_name_def intro!: holds_gets holds_ret split: option.split)
  have st: "keeps v (bind (friend_status (mutual fr) q) (\<lambda>st. ret (f st)))"
    if "server_ok v" "\<forall>b. q = Some b \<longrightarrow> live_client v b" for v q and f :: "bytes \<Rightarrow> bytes option"
    by (rule keeps_bind [OF keeps_friend_status]) (use that in \<open>auto simp: ext_def intro: holds_ret\<close>)
  have st': "keeps v (bind (friend_status (mutual fr) q) (\<lambda>st. ret (f st)))"
    if "server_ok v" "\<forall>b. q = Some b \<longrightarrow> live_client v b" for v q and f :: "bytes \<Rightarrow> bytes"
    by (rule keeps_bind [OF keeps_friend_status]) (use that in \<open>auto simp: ext_def intro: holds_ret\<close>)
  show "keeps w (FriendAdd_Pack cl fr)" unfolding FriendAdd_Pack_def
    by (intro holds_option holds_ret holds_user_at holds_bind [OF p] st assms(1)) (use assms(2) extD in auto)
  have q: "holds w (case cl of None \<Rightarrow> bind (user_at u) (\<lambda>user. pool_by_name (u_username user)) | Some b \<Rightarrow> ret (Some b))
      (\<lambda>q v. \<forall>b. q = Some b \<longrightarrow> live_client v b)" if "fuser fr = Some u" for u
    using p holds_user_at [of u w "\<lambda>user. pool_by_name (u_username user)"] assms(2) that by (cases cl) simp_all
  show "keeps w (FriendUpdate_Pack i cl fr)" unfolding FriendUpdate_Pack_def
    by (intro holds_option holds_ret holds_bind [OF q] st assms(1)) (use assms(2) extD in auto)
  show "keeps w (friend_entry fr)" unfolding friend_entry_def
    by (intro holds_option holds_ret holds_user_at holds_get st' assms(1)) (use assms server_pool in auto)
qed

lemma keeps_with_friend [keep]:
  assumes "server_ok w" and "live_client w a"
    and "\<And>v u cu i. ext w v \<Longrightarrow> u < length (users v) \<Longrightarrow> cu < length (users v) \<Longrightarrow> keeps v (act u cu i)"
  shows "keeps w (with_friend n e a t act)"
  unfolding with_friend_def Let_def
  by (intro bind_user_by_name holds_option keeps_info holds_client_at holds_ret holds_user_at holds_if assms)
    (use assms(1,2) in \<open>auto simp: ext_def intro: server_user\<close>)

lemma fuser_moved:
  assumes "x \<in> set (move_slots i j l)" and "i < length l" and "j < length l"
  shows "x \<in> set l"
proof -
  have up: "length (fold (\<lambda>i l. l[i := l ! f i]) is l) = length l \<and> set (fold (\<lambda>i l. l[i := l ! f i]) is l) \<subseteq> set l"
    if "\<forall>i\<in>set is. f i < length l" for "is" f and l :: "friend_t list"
    using that
  proof (induction "is" arbitrary: l)
    case (Cons i "is")
    have "set (l[i := l ! f i]) \<subseteq> set l" using Cons.prems set_update_subset_insert [of l i "l ! f i"] by auto
    moreover have "length (fold (\<lambda>i l. l[i := l ! f i]) is (l[i := l ! f i])) = length (l[i := l ! f i])
        \<and> set (fold (\<lambda>i l. l[i := l ! f i]) is (l[i := l ! f i])) \<subseteq> set (l[i := l ! f i])"
      by (rule Cons.IH) (use Cons.prems in simp)
    ultimately show ?case by auto
  qed simp
  let ?m = "if i < j then fold (\<lambda>i l. l[i := l ! (i + 1)]) [i..<j] l else fold (\<lambda>i l. l[i := l ! (i - 1)]) (rev [j + 1..<i + 1]) l"
  have "length ?m = length l \<and> set ?m \<subseteq> set l"
  proof (cases "i < j")
    case True
    have "\<forall>k\<in>set [i..<j]. k + 1 < length l" using assms(3) by auto
    from up [OF this] True show ?thesis by (simp only: if_True)
  next
    case False
    have "\<forall>k\<in>set (rev [j + 1..<i + 1]). k - 1 < length l" using assms(2) by auto
    from up [OF this] False show ?thesis by (simp only: if_False)
  qed
  moreover have "x \<in> insert (?m ! i) (set ?m)"
    using assms(1) set_update_subset_insert [of ?m j "?m ! i"] by (auto simp: move_slots_def Let_def)
  ultimately show ?thesis using assms(2) nth_mem [of i ?m] by auto
qed

lemma keeps_MoveFriend [keep]:
  assumes "server_ok w" and "u < length (users w)"
  shows "keeps w (upd_user u (\<lambda>x. snd (MoveFriend i j x)))"
  by (rule keeps_upd_user) (use assms server_friend [OF assms] in \<open>auto simp: MoveFriend_def Let_def dest!: fuser_moved split: if_splits\<close>)

lemma keeps_RemoveFriend [keep]:
  assumes "server_ok w" and "u < length (users w)"
  shows "keeps w (RemoveFriend_at u i)"
proof -
  have r: "x \<in> set (u_friend_list v)" if "x \<in> set (u_friend_list (snd (RemoveFriend i v)))" for x v
  proof (cases "length (u_friend_list v) > i + 1")
    case True
    have "x \<in> set (fold (\<lambda>i l. l[i - 1 := l ! i]) (rev [i + 1..<length (u_friend_list v)]) (u_friend_list v))"
      using that True by (auto simp: RemoveFriend_def Let_def dest: in_set_takeD)
    moreover have "fold (\<lambda>i l. l[i - 1 := l ! i]) (rev [i + 1..<length (u_friend_list v)]) (u_friend_list v) =
        map (\<lambda>j. if i + 1 \<le> Suc j then u_friend_list v ! (length (u_friend_list v) - 1) else u_friend_list v ! j)
          [0..<length (u_friend_list v)]"
      by (rule copy_last) (use True in simp_all)
    ultimately show ?thesis using True by (auto simp del: One_nat_def split: if_splits)
  qed (use that in \<open>auto simp: RemoveFriend_def Let_def dest: in_set_takeD split: if_splits\<close>)
  have s: "shaped (snd (RemoveFriend i v)) = shaped v" for v by (simp add: RemoveFriend_def Let_def shaped_def)
  have "u_username (snd (RemoveFriend i v)) = u_username v" for v by (simp add: RemoveFriend_def Let_def)
  then have "keeps w (upd_user u (\<lambda>x. snd (RemoveFriend i x)))"
    by (intro keeps_upd_user assms) (use server_friend [OF assms] in \<open>auto dest!: r simp: s\<close>)
  then show ?thesis unfolding RemoveFriend_at_def
    by (intro holds_user_at assms(2) keeps_seq) (auto intro: holds_ret extD)
qed

lemma keeps_friend_actions [keep]:
  assumes "server_ok w" and "live_client w a" and "u < length (users w)" and "cu < length (users w)"
  shows "keeps w (friend_remove a u cu i)" and "keeps w (friend_demote a u cu i)" and "keeps w (friend_promote a u cu i)"
  unfolding friend_remove_def friend_demote_def friend_promote_def
  by (intro keeps_seq keeps_RemoveFriend keeps_MoveFriend keeps_BuildAndSendTo keeps_info holds_user_at holds_when assms;
      use assms in \<open>auto simp: ext_def\<close>)+

lemma valid_friend:
  "server_ok w \<Longrightarrow> i < length (users w) \<Longrightarrow> GetFriend j (users w ! i) = Some fr \<Longrightarrow> valid_user (fuser fr) w"
  using server_friend friend_at by blast

lemma keeps_friend_added:
  assumes "server_ok w" and "live_client w a" and "u < length (users w)" and "cu < length (users w)"
  shows "keeps w (friend_added a u cu i m)"
proof -
  have tell: "keeps w (seq (whenM (m \<ge> 0) (case GetFriend (nat m) (users w ! u) of None \<Rightarrow> fail NullDeref
        | Some fr \<Rightarrow> bind (FriendUpdate_Pack (word_of_int m) (Some a) fr) (BuildAndSendTo b 0x66FF)))
      (bind (user_at cu) (\<lambda>cu. info b (u_username cu @ '' added you as his/her friend.''))))" if b: "live_client w b" for b
    by (intro keeps_seq holds_when holds_option holds_fail keeps_bind [OF keeps_friend_packs(2)] keeps_BuildAndSendTo holds_user_at
        keeps_info assms(1) valid_friend [OF assms(1,3)]) (use assms b in \<open>auto simp: ext_def hazards_def\<close>)
  have add: "keeps v (bind (user_at cu) (\<lambda>c. case GetFriend (nat i) c of None \<Rightarrow> fail NullDeref
        | Some fr \<Rightarrow> seq (bind (FriendAdd_Pack q fr) (BuildAndSendTo a 0x67FF)) (info a t)))"
    if v: "server_ok v" "live_client v a" "cu < length (users v)" "\<And>b. q = Some b \<Longrightarrow> live_client v b" for v q t
    by (intro holds_user_at holds_option holds_fail keeps_seq keeps_bind [OF keeps_friend_packs(1)] keeps_BuildAndSendTo keeps_info v(1,3)
        valid_friend [OF v(1,3)]) (use v in \<open>auto simp: ext_def hazards_def\<close>)
  show ?thesis unfolding friend_added_def
    by (intro holds_user_at assms(3) holds_get keeps_seq holds_option holds_ret tell add assms(1))
      (use assms server_pool [OF assms(1)] in \<open>auto simp: ext_def\<close>)
qed

lemma keeps_friend_add [keep]:
  assumes "server_ok w" and "live_client w a"
  shows "keeps w (friend_add n e a t)"
proof -
  have add: "keeps v (bind (AddFriend cu (Some u)) (\<lambda>(idx, mutIdx). bind (user_at cu) (\<lambda>x.
       if idx < 0 then info a m1 else if word_of_int idx \<noteq> GetFriendCount x - 1 then info a m2
       else friend_added a u cu idx (case mutIdx of None \<Rightarrow> -1 | Some i \<Rightarrow> i))))"
    if v: "server_ok v" "live_client v a" "cu < length (users v)" "u < length (users v)" for v cu u m1 m2
    by (intro keeps_bind [OF holds_AddFriend] holds_prod holds_user_at holds_if keeps_info keeps_friend_added)
      (use v in \<open>auto simp: ext_def\<close>)
  show ?thesis unfolding friend_add_def
    by (intro bind_user_by_name holds_option keeps_info holds_client_at holds_if holds_ret add assms)
      (use assms in \<open>auto simp: ext_def intro: server_user\<close>)
qed

lemma keeps_CommandFriend [keep]:
  assumes "server_ok w" and "live_client w a"
  shows "keeps w (CommandFriend n e a t t')"
  unfolding CommandFriend_def
  by (intro holds_if keeps_friend_help keeps_friend_list holds_when holds_client_at holds_option holds_ret keeps_FriendWhisper
      keeps_friend_add keeps_with_friend keeps_friend_actions assms)
    (use assms in \<open>auto simp: ext_def intro: server_user\<close>)

lemma keeps_Command_Process [keep]:
  assumes "server_ok w" and "live_client w a" and "NUL \<notin> set t"
  shows "keeps w (Command_Process n e a t)"
proof -
  have tl: "x \<in> set (tl xs) \<Longrightarrow> x \<in> set xs" for x :: char and xs by (cases xs) auto
  have "set (behind_blanks s) \<subseteq> set s" "set (up_to_blank s) \<subseteq> set s" for s
    by (auto simp: behind_blanks_def up_to_blank_def dest!: set_dropWhileD tl set_takeWhileD)
  then have "NUL \<notin> set (behind_blanks t)" "NUL \<notin> set (up_to_blank (behind_blanks t))"
    using assms(3) by blast+
  then have n: "NUL \<notin> set (fst (split_args b t))" for b by (simp add: split_args_def Let_def)
  have "keeps w (handler_Process n e h a x y)" if "NUL \<notin> set x" for h x y
    using that assms(1,2) by (cases h) (auto intro: keep)
  then show ?thesis using n assms(1) unfolding Command_Process_def by (auto intro!: holds_ret split: option.split prod.split) (metis fst_conv)
qed

end
