(* ===== verification/Server.thy ===== *)
theory Server
  imports Safety
begin

text \<open>
  The whole server: clients connect, send bytes and disconnect, accounts are saved. The theory
  shows that no sequence of these events makes the server use an object that is gone, and which
  faults remain possible. Datagrams are not among the events: see \<open>Logins\<close>.
\<close>

section \<open>Packets that read the state\<close>

lemma holds_pure: "server_ok w \<Longrightarrow> keeps w (gets f)"
  by (simp add: holds_gets)

lemma keeps_packs [keep]:
  assumes "server_ok w"
  shows "keeps w (ReplyNews_Pack e t)" and "keeps w RealmList2_Pack" and "keeps w (realmCache nm)"
    and "keeps w (FileHeader_Build e cf fn k l m)"
proof -
  show "keeps w (ReplyNews_Pack e t)" "keeps w RealmList2_Pack" "keeps w (realmCache nm)"
    unfolding ReplyNews_Pack_def RealmList2_Pack_def realmCache_def by (simp_all add: holds_pure assms)
  show "keeps w (FileHeader_Build e cf fn k l m)" unfolding FileHeader_Build_def
    by (rule keeps_bind [OF keeps_fileCache [OF assms]]) (auto intro: holds_ret extD)
qed

lemma keeps_AuthInfo_Pack [keep]:
  assumes "server_ok w" and "live_client w a"
  shows "keeps w (AuthInfo_Pack e cf a)"
  unfolding AuthInfo_Pack_def Let_def
  by (intro holds_client_at keeps_bind [OF keeps_fileCache] holds_option holds_ret assms) (auto intro: extD)

lemma keeps_RealmLogonEx_Pack [keep]:
  assumes "server_ok w" and "live_client w a"
  shows "keeps w (RealmLogonEx_Pack e k nm a)"
  unfolding RealmLogonEx_Pack_def
  by (intro keeps_bind [OF keeps_packs(3)] holds_option holds_ret holds_client_at holds_user_at)
    (use assms in \<open>auto simp: ext_def intro: server_user\<close>)

lemma keeps_adv_loop:
  assumes "server_ok w" and "\<And>p. p \<in> set gs \<Longrightarrow> live_game w (snd p)"
  shows "holds w (adv_loop i k c m gs n out) (\<lambda>_ v. v = w)"
  using assms(2)
proof (induction gs arbitrary: n out)
  case Nil
  then show ?case using assms(1) by (simp add: holds_ret)
next
  case (Cons g gs)
  have g: "live_game w (snd g)" using Cons.prems by simp
  have host: "live_client w h" if "g_host (the_game w (snd g)) = Some h" for h
    using rooms_okD(4) [OF server_rooms [OF assms(1)] g] that
    by (auto simp: game_ok_def host_ok_def members_def split: if_splits)
  have "holds w (case g_host (the_game w (snd g)) of Some h \<Rightarrow>
        if (m = 0 \<or> g_type (the_game w (snd g)) AND m = c AND m) \<and> g_broadcast (the_game w (snd g))
        then if n + 1 > i \<and> n + 1 \<le> k then bind (client_at h) (\<lambda>host. ret (n + 1, out @ adv_entry (the_game w (snd g)) host))
             else ret (n + 1, out)
        else ret (n, out) | None \<Rightarrow> ret (n, out)) (\<lambda>_ v. v = w)"
    by (intro holds_option holds_if holds_client_at host holds_ret assms(1) refl)
  then show ?case
    unfolding adv_loop.simps
    by (intro holds_game_at g) (erule holds_bind, auto intro!: holds_ret Cons simp: assms(1))
qed

lemma server_host: "server_ok w \<Longrightarrow> live_game w g \<Longrightarrow> g_host (the_game w g) = Some h \<Longrightarrow> live_client w h"
  using rooms_okD(4) [OF server_rooms] by (fastforce simp: game_ok_def host_ok_def members_def split: if_splits)

lemma keeps_AdvListEx_Pack [keep]:
  assumes "server_ok w"
  shows "keeps w (AdvListEx_Pack nm pw i k c m)"
proof -
  have l: "live_game w (snd p)" if "p \<in> set (game_map w)" for p
    using maps_okD(3) [OF rooms_okD(5) [OF server_rooms [OF assms]], of "fst p" "snd p"] that by simp
  show ?thesis unfolding AdvListEx_Pack_def
    by (intro holds_if holds_get holds_bind [OF keeps_adv_loop] holds_prod holds_ret holds_option holds_game_at holds_client_at)
      (use assms l in \<open>auto intro: extD server_game_map server_host\<close>)
qed

lemma holds_channel_names:
  assumes "server_ok w" and "\<forall>i\<in>set l. i < length (channels w)"
  shows "keeps w (channel_names own l)"
  using assms(2)
proof (induction l)
  case (Cons i l)
  then show ?case using assms(1)
    by (auto intro!: holds_channel_at keeps_bind [of w "channel_names own l"] holds_ret intro: extD)
qed (simp add: holds_ret assms(1))

lemma keeps_ListChannel_Pack [keep]:
  assumes "server_ok w" and "live_client w a"
  shows "keeps w (ListChannel_Pack a)"
  unfolding ListChannel_Pack_def
  by (intro holds_client_at holds_bind [OF holds_Channels_by_tag] keeps_bind [OF holds_channel_names] keeps_seq keeps_gcm holds_ret assms)
    (auto simp: ext_def)

lemma holds_friend_entries:
  assumes "server_ok w" and "u < length (users w)"
  shows "keeps w (friend_entries (users w ! u) is)"
proof -
  have e: "keeps v (friend_entries x is)" if "server_ok v" "\<And>i fr. GetFriend i x = Some fr \<Longrightarrow> valid_user (fuser fr) v" for v x
    using that
  proof (induction "is" arbitrary: v)
    case (Cons i "is")
    show ?case unfolding friend_entries.simps
      by (intro holds_option holds_fail keeps_bind [OF keeps_friend_packs(3) [where cl = None]] keeps_bind [OF Cons.IH] holds_ret)
        (use Cons.prems in \<open>auto simp: ext_def hazards_def intro: less_le_trans\<close>)
  qed (simp add: holds_ret)
  show ?thesis by (rule e [OF assms(1)]) (rule valid_friend [OF assms])
qed

lemma keeps_FriendsList_Pack [keep]:
  assumes "server_ok w" and "live_client w a"
  shows "keeps w (FriendsList_Pack a)"
  unfolding FriendsList_Pack_def Let_def
  by (intro holds_client_at holds_option holds_ret holds_user_at keeps_bind [OF holds_friend_entries] assms)
    (use assms in \<open>auto simp: ext_def intro: server_user\<close>)

section \<open>Requests before the login\<close>

definition res_ok :: "'a res \<Rightarrow> bool" where
  "res_ok r \<longleftrightarrow> (\<forall>f. r = Inl f \<longrightarrow> f \<in> hazards)"

lemma res_ok_rules: "res_ok (Inr x)" "res_ok (Inl OutOfBounds)" "res_ok r \<Longrightarrow> (\<And>x. res_ok (k x)) \<Longrightarrow> res_ok (bind_res r k)"
  "(b \<Longrightarrow> res_ok r1) \<Longrightarrow> (\<not> b \<Longrightarrow> res_ok r2) \<Longrightarrow> res_ok (if b then r1 else r2)" "(\<And>y z. res_ok (f y z)) \<Longrightarrow> res_ok (case p of (y, z) \<Rightarrow> f y z)"
  by (cases r; auto simp: res_ok_def hazards_def split: prod.split)+

lemma res_ok_srp:
  "res_ok (export_to e v n d)" "res_ok (BnetSRP3_salt G e n un s)" "res_ok (getScrambler G e B)" "res_ok (hashSecret G e S)"
  "res_ok (getServerSecret G e o' A v')" "res_ok (getHashedServerSecret G e o' A v')" "res_ok (getClientPasswordProof G e o' A B Kk)"
  "res_ok (getServerPasswordProof G e A M Kk)"
proof -
  show x: "res_ok (export_to e v n d)" for v n d unfolding export_to_def by (intro res_ok_rules)
  show "res_ok (BnetSRP3_salt G e n un s)"
    by (auto simp: BnetSRP3_salt_def srp_init_def setSalt_def Let_def intro!: res_ok_rules)
  show sc: "res_ok (getScrambler G e B)" for B unfolding getScrambler_def Let_def by (intro res_ok_rules x)
  show h: "res_ok (hashSecret G e S)" for S unfolding hashSecret_def Let_def by (intro res_ok_rules x)
  show s: "res_ok (getServerSecret G e o' A v')" unfolding getServerSecret_def Let_def by (intro res_ok_rules sc)
  show "res_ok (getHashedServerSecret G e o' A v')" unfolding getHashedServerSecret_def by (intro res_ok_rules s h)
  show "res_ok (getClientPasswordProof G e o' A B Kk)" unfolding getClientPasswordProof_def Let_def by (intro res_ok_rules x)
  show "res_ok (getServerPasswordProof G e A M Kk)" unfolding getServerPasswordProof_def by (intro res_ok_rules x)
qed

lemma keeps_lift: "server_ok w \<Longrightarrow> res_ok r \<Longrightarrow> keeps w (lift r)"
  by (auto simp: holds_def sf_def lift_def res_ok_def ext_refl split: sum.split)

lemma keeps_srp_server [keep]:
  assumes "server_ok w" and "live_client w a"
  shows "keeps w (srp_server e cf a un u pk)"
  unfolding srp_server_def Let_def
  by (intro holds_get keeps_bind [OF keeps_lift] holds_prod keeps_seq holds_modify keeps_upd_client keeps_lift res_ok_srp)
    (use assms in \<open>auto simp: ext_def core_def place_def SetProof_def\<close>)

lemma keeps_ping [keep]:
  assumes "server_ok w" and "live_client w a"
  shows "keeps w (SendPing e a)" and "keeps w (CheckEnd e a t)"
proof -
  have t: "keeps v (GetTicks e)" "keeps v (GetRandom32 e)" if "server_ok v" for v
    using that by (auto simp: holds_def sf_def GetTicks_def GetRandom32_def intro!: ext_core)
  show "keeps w (SendPing e a)" unfolding SendPing_def CheckStart_def
    by (intro keeps_bind [OF t(2)] keeps_seq keeps_bind [OF t(1)] keeps_upd_client keeps_BuildAndSendTo)
      (use assms in \<open>auto simp: ext_def place_def\<close>)
  show "keeps w (CheckEnd e a t)" unfolding CheckEnd_def
    by (intro holds_client_at holds_if holds_ret keeps_bind [OF t(1)] keeps_upd_client assms)
      (use assms in \<open>auto simp: ext_def place_def\<close>)
qed

lemma length_got: "get_bytes (fresh e v n) s = (b, s') \<Longrightarrow> length b = n"
  using length_get_bytes [of "fresh e v n" s] by (simp add: fresh_def)

lemma keeps_create_account [keep]:
  assumes "server_ok w" and "\<And>u. u_username (f u) = u_username u" and "\<And>u. u_friend_list (f u) = u_friend_list u"
    and "\<And>u. shaped u \<Longrightarrow> shaped (f u)"
  shows "keeps w (create_account n e nm f)"
proof -
  have "keeps v (case q of None \<Rightarrow> ret False | Some p \<Rightarrow> bind (user_at p) (\<lambda>u. ret (IsExist u)))"
    if "server_ok v" "valid_user q v" for q v
    using that by (intro holds_option holds_ret holds_user_at) auto
  then show ?thesis unfolding create_account_def
    by (intro bind_user_by_name keeps_bind [of _ "case _ of None \<Rightarrow> _ | Some p \<Rightarrow> _ p"] holds_if holds_ret holds_bind [OF holds_UserAdd] keeps_seq keeps_set_user assms)
      (auto simp: ext_def)
qed

text \<open>A plugin keeps the invariant for every connected client and every packet.\<close>

definition plugin_ok :: "plugin \<Rightarrow> bool" where
  "plugin_ok p \<longleftrightarrow> (\<forall>w a s. server_ok w \<longrightarrow> live_client w a \<longrightarrow> keeps w (p a s))"

lemma plugin_okI: "(\<And>w a s. server_ok w \<Longrightarrow> live_client w a \<Longrightarrow> keeps w (p a s)) \<Longrightarrow> plugin_ok p"
  unfolding plugin_ok_def by blast

lemma plugin_AuthInfo: "plugin_ok (AuthInfo e cf)"
  unfolding AuthInfo_def
  by (intro plugin_okI holds_prod keeps_seq keeps_upd_client keeps_ping keeps_bind [OF keeps_AuthInfo_Pack] keeps_BuildAndSendTo holds_ret)
    (auto simp: ext_def place_def SetAuthInfo_def)

lemma plugin_AuthCheck: "plugin_ok (AuthCheck e cf)"
  unfolding AuthCheck_def Let_def
  by (intro plugin_okI holds_prod holds_client_at keeps_seq keeps_BuildAndSendTo holds_ret) (auto simp: ext_def)

lemma plugin_AccountChange: "plugin_ok (AccountChange n e cf)"
  unfolding AccountChange_def Let_def
  by (intro plugin_okI holds_prod bind_user_by_name keeps_seq holds_option keeps_BuildAndSendTo keeps_rooms(6) holds_user_at
      keeps_bind [OF keeps_srp_server] holds_ret) (auto simp: ext_def)

lemma plugin_AuthLogon: "plugin_ok (AuthLogon n e cf)"
  unfolding AuthLogon_def Let_def
  by (intro plugin_okI holds_prod bind_user_by_name keeps_seq holds_option keeps_BuildAndSendTo keeps_rooms(6) holds_user_at
      holds_if keeps_bind [OF keeps_srp_server] holds_ret) (auto simp: ext_def)

lemma plugin_AccountChangeProof: "plugin_ok (AccountChangeProof e)"
proof (rule plugin_okI)
  fix w a s assume w: "server_ok w" "live_client w a"
  have "keeps w (case c_user (the_client w a) of
         Some p \<Rightarrow> if x = y then (case get_bytes (fresh e b1 32) s1 of (sl, s2) \<Rightarrow> case get_bytes (fresh e b2 32) s2 of (v, _) \<Rightarrow>
                     seq (upd_user p (\<lambda>u. SetVerifier v (SetSalt sl u))) (ret z1)) else ret z2
       | None \<Rightarrow> ret z3)" for x y :: bytes and b1 b2 s1 and z1 z2 z3 :: bytes
    by (intro holds_option holds_if holds_prod keeps_seq keeps_set_user holds_ret) (use w in \<open>auto intro: server_user extD dest!: length_got\<close>)
  then show "keeps w (AccountChangeProof e a s)" unfolding AccountChangeProof_def
    by (intro holds_prod holds_client_at w(2) keeps_bind [of w "case _ of None \<Rightarrow> _ | Some p \<Rightarrow> _ p"] keeps_seq keeps_rooms(6) keeps_BuildAndSendTo holds_ret)
      (use w in \<open>auto simp: ext_def\<close>)
qed

lemma place_SetStage: "place (SetStage st c) = place c"
  by (simp add: SetStage_def BuildStats_def place_def)

lemma plugin_AccountCreate: "plugin_ok (AccountCreate n e)" "plugin_ok (OldAccountCreate2 n e)"
  unfolding AccountCreate_def OldAccountCreate2_def
  by (intro plugin_okI holds_prod keeps_bind [OF keeps_create_account] keeps_seq keeps_BuildAndSendTo holds_ret; auto simp: ext_def dest!: length_got)+

lemma plugin_AuthLogonProof: "plugin_ok (AuthLogonProof e)"
proof (rule plugin_okI)
  fix w a s assume w: "server_ok w" "live_client w a"
  have "keeps w (case c_user (the_client w a) of None \<Rightarrow> ret x | Some p \<Rightarrow> bind (user_at p) (\<lambda>u. ret (f u)))" for x :: u32 and f
    by (intro holds_option holds_ret holds_user_at w) (use server_user [OF w] in auto)
  then show "keeps w (AuthLogonProof e a s)" unfolding AuthLogonProof_def
    by (intro holds_prod holds_client_at w(2) holds_if keeps_bind [of w "case _ of None \<Rightarrow> _ | Some p \<Rightarrow> _ p"] keeps_seq
        keeps_upd_client keeps_BuildAndSendTo holds_ret) (use w in \<open>auto simp: ext_def place_SetStage\<close>)
qed

lemma plugin_ChangeEmail: "plugin_ok (ChangeEmail n e)"
  unfolding ChangeEmail_def
  by (intro plugin_okI holds_prod bind_user_by_name holds_option holds_user_at holds_if keeps_seq holds_when keeps_set_user holds_ret)
    (auto simp: ext_def)

lemma plugin_OldAccountChange: "plugin_ok (OldAccountChange n e)"
proof (rule plugin_okI)
  fix w a s assume w: "server_ok w" "live_client w a"
  have "keeps v (case q of None \<Rightarrow> ret x | Some p \<Rightarrow> bind (user_at p) (\<lambda>u. if c u then seq (upd_user p (SetPasswd b)) (ret y) else ret z))"
    if "server_ok v" "valid_user q v" "length b = 20" for v q b c and x y z :: u32
    by (intro holds_option holds_ret holds_user_at holds_if keeps_seq keeps_set_user) (use that in \<open>auto simp: ext_def\<close>)
  then show "keeps w (OldAccountChange n e a s)" unfolding OldAccountChange_def
    by (intro holds_prod bind_user_by_name keeps_bind [of _ "case _ of None \<Rightarrow> _ | Some p \<Rightarrow> _ p"] keeps_seq
        keeps_BuildAndSendTo holds_ret) (use w in \<open>auto simp: ext_def dest!: length_got\<close>)
qed

lemma plugin_OldAuthLogon2: "plugin_ok (OldAuthLogon2 n e)"
proof (rule plugin_okI)
  fix w a s assume w: "server_ok w" "live_client w a"
  have "keeps v (case q of None \<Rightarrow> ret x1 | Some p \<Rightarrow> bind (user_at p) (\<lambda>u. if c1 u then ret x2 else if c2 u then ret x3
       else if c3 u then seq (SetUser a (Some p)) (seq (upd_client a (SetStage BNET_LOGGEDIN))
         (seq (whenM (c4 u) (BuildAndSendTo a k b)) (ret x4))) else ret x5))"
    if "server_ok v" "live_client v a" "valid_user q v" for v q c1 c2 c3 c4 k b and x1 x2 x3 x4 x5 :: "u32 \<times> string"
    by (intro holds_option holds_ret holds_user_at holds_if keeps_seq holds_when keeps_rooms(6) keeps_upd_client keeps_BuildAndSendTo)
      (use that in \<open>auto simp: ext_def place_SetStage\<close>)
  then show "keeps w (OldAuthLogon2 n e a s)" unfolding OldAuthLogon2_def
    by (intro holds_prod bind_user_by_name keeps_bind [of _ "case _ of None \<Rightarrow> _ | Some p \<Rightarrow> _ p"] keeps_seq
        keeps_BuildAndSendTo holds_ret) (use w in \<open>auto simp: ext_def\<close>)
qed

lemma plugin_Ping: "plugin_ok (Ping e)"
  unfolding Ping_def by (intro plugin_okI holds_prod keeps_seq keeps_ping holds_ret) (auto simp: ext_def)

lemma plugin_QueryFileInfo: "plugin_ok (QueryFileInfo e cf)" "plugin_ok (QueryIcon e cf)"
  unfolding QueryFileInfo_def QueryIcon_def Let_def
  by (intro plugin_okI holds_prod holds_client_at keeps_bind [OF keeps_fileCache] holds_option keeps_seq keeps_BuildAndSendTo holds_ret;
      auto simp: ext_def)+

lemma keeps_named_user:
  assumes "server_ok w" and "live_client w a"
  shows "holds w (named_user n e a nm) valid_user"
  unfolding named_user_def
  by (intro holds_if holds_client_at holds_ret holds_user_by_name assms) (use server_user [OF assms] in auto)

lemma keeps_read_data [keep]:
  assumes "server_ok w" and "p < length (users w)"
  shows "keeps w (read_data p k)"
  unfolding read_data_def by (intro holds_user_at keeps_seq keeps_set_user holds_ret assms) (auto intro: extD)

lemma keeps_read_keys [keep]:
  assumes "server_ok w" and "p < length (users w)"
  shows "keeps w (read_keys p ks)"
  using assms
proof (induction ks arbitrary: w)
  case (Cons k ks)
  show ?case unfolding read_keys.simps
    by (intro keeps_bind [of w "if _ then _ else _"] keeps_bind [OF Cons.IH] holds_if holds_ret keeps_read_data)
      (use Cons.prems in \<open>auto simp: ext_def\<close>)
qed (simp add: holds_ret)

lemma keeps_read_rows [keep]:
  assumes "server_ok w" and "live_client w a"
  shows "keeps w (read_rows n e a ks nms)"
  using assms
proof (induction nms arbitrary: w)
  case (Cons nm nms)
  have "keeps v (case q of None \<Rightarrow> ret x | Some p \<Rightarrow> read_keys p ks)" if "server_ok v" "valid_user q v" for v q x
    using that by (intro holds_option holds_ret keeps_read_keys) auto
  then show ?case unfolding read_rows.simps
    by (intro holds_bind [OF keeps_named_user] keeps_bind [of _ "case _ of None \<Rightarrow> _ | Some p \<Rightarrow> _ p"] keeps_bind [OF Cons.IH] holds_ret)
      (use Cons.prems in \<open>auto simp: ext_def\<close>)
qed (simp add: holds_ret)

lemma plugin_ReadUserData: "plugin_ok (ReadUserData n e)"
  unfolding ReadUserData_def
  by (intro plugin_okI holds_prod holds_option keeps_bind [OF keeps_read_rows] keeps_seq keeps_BuildAndSendTo holds_ret)
    (auto simp: ext_def)

lemma plugin_SetEmail: "plugin_ok SetEmail"
  unfolding SetEmail_def
  by (intro plugin_okI holds_prod holds_client_at holds_option keeps_seq keeps_set_user holds_ret) (auto simp: ext_def intro: server_user)

lemma plugin_StopAdv: "plugin_ok StopAdv"
  unfolding StopAdv_def
  by (intro plugin_okI holds_client_at keeps_seq holds_option holds_game_at holds_when holds_weaken [OF holds_upd_game] holds_ret)
    (auto simp: ext_def intro: server_game)

lemma plugin_UDPResponse: "plugin_ok UDPResponse"
  unfolding UDPResponse_def by (intro plugin_okI keeps_seq keeps_upd_client holds_ret) (auto simp: ext_def place_def DelFlag_def)

lemma plugin_empty: "plugin_ok ResetPassword" "plugin_ok CheckAd" "plugin_ok ClickAd" "plugin_ok QueryAdUrl"
  unfolding ResetPassword_def CheckAd_def ClickAd_def QueryAdUrl_def by (intro plugin_okI holds_ret; simp)+

section \<open>Requests after the login\<close>

lemma plugin_EnterChat: "plugin_ok EnterChat"
  unfolding EnterChat_def
  by (intro plugin_okI holds_client_at holds_option holds_prod holds_user_at keeps_seq keeps_BuildAndSendTo holds_ret)
    (auto simp: ext_def intro: server_user)

lemma plugin_lists: "plugin_ok FriendsList" "plugin_ok ListChannel" "plugin_ok (QueryNews e)" "plugin_ok QueryRealms2"
    "plugin_ok (GetAdvListEx e)" "plugin_ok (RealmLogonEx e)"
  unfolding FriendsList_def ListChannel_def QueryNews_def QueryRealms2_def GetAdvListEx_def RealmLogonEx_def
  by (intro plugin_okI holds_prod keeps_seq keeps_bind [OF keeps_FriendsList_Pack] keeps_bind [OF keeps_ListChannel_Pack]
      keeps_bind [OF keeps_packs(1)] keeps_bind [OF keeps_packs(2)] keeps_bind [OF keeps_AdvListEx_Pack]
      keeps_bind [OF keeps_RealmLogonEx_Pack] keeps_BuildAndSendTo holds_ret; auto simp: ext_def)+

lemma plugin_FriendUpdate: "plugin_ok (FriendUpdate e)" "plugin_ok (GameResult e)"
  unfolding FriendUpdate_def GameResult_def
  by (intro plugin_okI holds_prod holds_client_at holds_option holds_user_at holds_ret; auto intro: server_user)+

lemma get_str_NUL:
  assumes "get_str s = (t, s')"
  shows "NUL \<notin> set t"
proof
  assume "NUL \<in> set t"
  then obtain x where x: "NUL = char_of_byte x" and "x \<noteq> 0" using assms by (auto simp: get_str_def Let_def dest!: set_takeWhileD)
  from arg_cong [OF x, of byte_of] \<open>x \<noteq> 0\<close> show False by simp
qed

lemma plugin_JoinChannel: "plugin_ok (JoinChannel e)"
  unfolding JoinChannel_def
  by (intro plugin_okI holds_prod holds_client_at holds_bind [OF holds_Ensure] keeps_seq holds_option keeps_rooms(3) keeps_info holds_ret)
    (auto simp: ext_def get_str_NUL)

lemma plugin_leave: "plugin_ok LeaveChat" "plugin_ok LeaveGame"
  unfolding LeaveChat_def LeaveGame_def by (intro plugin_okI keeps_seq keeps_rooms(1,2) holds_ret; auto simp: ext_def)+

lemma plugin_fields: "plugin_ok (NetGamePort e)" "plugin_ok (SwitchGameID e)" "plugin_ok Null"
  unfolding NetGamePort_def SwitchGameID_def Null_def
  by (intro plugin_okI holds_prod keeps_seq keeps_upd_client keeps_BuildAndSendTo holds_ret; auto simp: ext_def place_def)+

lemma plugin_NotifyJoin: "plugin_ok (NotifyJoin e)"
  unfolding NotifyJoin_def
  by (intro plugin_okI holds_prod holds_get keeps_seq holds_option keeps_rooms(4) holds_ret) (auto simp: ext_def intro: server_game_map)

lemma plugin_Profile: "plugin_ok (Profile n e)"
  unfolding Profile_def
  by (intro plugin_okI holds_prod bind_user_by_name holds_option keeps_bind [OF keeps_read_data] keeps_seq keeps_BuildAndSendTo holds_ret)
    (auto simp: ext_def)

lemma keeps_war3_loop:
  assumes "server_ok w" and "live_client w a"
  shows "keeps w (war3_loop e cf a k c is s)"
  using assms
proof (induction "is" arbitrary: w s)
  case (Cons i "is")
  show ?case unfolding war3_loop.simps
    by (intro holds_prod keeps_seq keeps_BuildAndSendTo Cons.IH) (use Cons.prems in \<open>auto simp: ext_def\<close>)
qed (simp add: holds_ret)

lemma plugin_QueryWar3Info: "plugin_ok (QueryWar3Info e cf)"
  unfolding QueryWar3Info_def
  by (intro plugin_okI holds_prod holds_if keeps_seq keeps_war3_loop holds_ret) (auto simp: ext_def)

lemma plugin_SendChat: "plugin_ok (SendChat n e)"
  unfolding SendChat_def
  by (intro plugin_okI holds_prod holds_if keeps_seq keeps_Command_Process holds_client_at holds_option keeps_rooms(5) holds_ret)
    (auto simp: ext_def get_str_NUL intro: server_channel)

lemma plugin_StartAdvEx3: "plugin_ok (StartAdvEx3 e)"
proof (rule plugin_okI)
  fix w a s assume w: "server_ok w" "live_client w a"
  have f: "holds v (upd_game g (\<lambda>x. (UpdateStatus x1 x2 x3 x4 x5 x)\<lparr>g_passwd := t1, g_stat := t2\<rparr>)) (\<lambda>_ v. live_game v g)"
    if "server_ok v" "live_game v g" for v g x1 x2 x3 x4 x5 t1 t2
    by (rule holds_upd_game [OF that]) (simp add: UpdateStatus_def)
  have "keeps w (case ufind CompareInCaseEqual (game_map w) nm of
       None \<Rightarrow> bind (Games_Add e nm) (\<lambda>g. seq (upd_game g (\<lambda>x. (UpdateStatus x1 x2 x3 x4 x5 x)\<lparr>g_passwd := t1, g_stat := t2\<rparr>))
           (seq (Game_Join g a) (ret y1)))
     | Some g \<Rightarrow> bind (game_at g) (\<lambda>x. if c x then ret y2
           else seq (upd_game g (\<lambda>x. (UpdateStatus x1 x2 x3 x4 x5 x)\<lparr>g_passwd := t1, g_stat := t2\<rparr>)) (ret y3)))"
    for nm x1 x2 x3 x4 x5 t1 t2 c and y1 y2 y3 :: u32
    by (intro holds_option holds_bind [OF holds_Games_Add] holds_seq [OF f] keeps_seq keeps_rooms(4) holds_ret holds_game_at holds_if w)
      (use w in \<open>auto simp: ext_def intro: server_game_map\<close>)
  then show "keeps w (StartAdvEx3 e a s)" unfolding StartAdvEx3_def Let_def
    by (intro holds_prod holds_get(3) keeps_bind [of _ "case _ of None \<Rightarrow> _ | Some p \<Rightarrow> _ p"] keeps_seq keeps_BuildAndSendTo holds_ret)
      (use w in \<open>auto simp: ext_def\<close>)
qed

lemma keeps_write_keys:
  assumes "server_ok w" and "p < length (users w)"
  shows "keeps w (write_keys p i ks kvs)"
  using assms
proof (induction kvs arbitrary: w)
  case (Cons kv kvs)
  show ?case unfolding write_keys.simps
    by (intro holds_if holds_fail keeps_seq holds_when keeps_set_user Cons.IH) (use Cons.prems in \<open>auto simp: ext_def hazards_def\<close>)
qed (simp add: holds_ret)

lemma keeps_write_rows:
  assumes "server_ok w" and "live_client w a"
  shows "keeps w (write_rows n e a ks vs i nms)"
  using assms
proof (induction nms arbitrary: w i)
  case (Cons nm nms)
  show ?case unfolding write_rows.simps
    by (intro holds_bind [OF keeps_named_user] keeps_seq holds_option holds_ret keeps_write_keys Cons.IH)
      (use Cons.prems in \<open>auto simp: ext_def\<close>)
qed (simp add: holds_ret)

lemma plugin_WriteUserData: "plugin_ok (WriteUserData n e)"
  unfolding WriteUserData_def
  by (intro plugin_okI holds_prod holds_option keeps_seq keeps_write_rows holds_ret) (auto simp: ext_def)

section \<open>The other suites\<close>

lemma plugin_init: "plugin_ok InitBnet" "plugin_ok InitFile"
  unfolding InitBnet_def InitFile_def
  by (intro plugin_okI keeps_seq keeps_upd_client holds_ret; auto simp: ext_def place_SetStage)+

lemma plugin_send: "plugin_ok InitBaal" "plugin_ok TokenReq" "plugin_ok (FileReq e cf)" "plugin_ok (RawReq e cf)"
  unfolding InitBaal_def TokenReq_def FileReq_def RawReq_def FileSendTo_def BaalSendTo_def
  by (intro plugin_okI holds_prod keeps_seq keeps_upd_client holds_client_at keeps_bind [OF keeps_packs(4)] holds_option keeps_Send holds_ret;
      auto simp: ext_def place_SetStage)+

lemma plugin_RealmAuth: "plugin_ok (RealmAuth e cf)"
proof -
  have r: "keeps v (Realm_Add nm d port ip)" if "server_ok v" for v nm d port ip
    unfolding Realm_Add_def Let_def
    by (intro holds_get holds_option holds_ret keeps_seq holds_modify) (use that in \<open>auto simp: ext_def core_def\<close>)
  show ?thesis unfolding RealmAuth_def BaalSendTo_def
    by (intro plugin_okI holds_prod holds_client_at keeps_bind [OF keeps_packs(3)] holds_if keeps_seq r keeps_Send holds_modify holds_ret)
      (auto simp: ext_def core_def)
qed

lemma plugin_UserCheck: "plugin_ok (UserCheck e)"
proof (rule plugin_okI)
  fix w a s assume w: "server_ok w" "live_client w a"
  have "keeps w (case ufind CompareInCaseEqual (clientMap w) nm of None \<Rightarrow> ret x1
       | Some b \<Rightarrow> bind (client_at b) (\<lambda>c. case c_user c of None \<Rightarrow> ret x2 | Some p \<Rightarrow> bind (user_at p) (\<lambda>u. ret (f c u))))"
    for nm f and x1 x2 :: u32
    by (intro holds_option holds_ret holds_client_at holds_user_at w) (use w in \<open>auto intro: server_facts\<close>)
  then show "keeps w (UserCheck e a s)" unfolding UserCheck_def BaalSendTo_def
    by (intro holds_prod holds_get(2) keeps_bind [of _ "case _ of None \<Rightarrow> _ | Some p \<Rightarrow> _ p"] keeps_seq keeps_Send holds_ret)
      (use w in \<open>auto simp: ext_def\<close>)
qed

lemmas plugins = plugin_AuthInfo plugin_AuthCheck plugin_AccountCreate plugin_AccountChange plugin_AccountChangeProof
  plugin_AuthLogon plugin_AuthLogonProof plugin_ChangeEmail plugin_OldAccountChange plugin_OldAuthLogon2 plugin_Ping
  plugin_QueryFileInfo plugin_ReadUserData plugin_SetEmail plugin_StopAdv plugin_UDPResponse plugin_empty plugin_EnterChat
  plugin_lists plugin_FriendUpdate plugin_JoinChannel plugin_leave plugin_fields plugin_NotifyJoin plugin_Profile
  plugin_QueryWar3Info plugin_SendChat plugin_StartAdvEx3 plugin_WriteUserData plugin_init plugin_send plugin_RealmAuth plugin_UserCheck

text \<open>Every entry of a suite.\<close>

definition suite_ok :: "(u16 \<times> plugin) list \<Rightarrow> bool" where
  "suite_ok ps \<longleftrightarrow> (\<forall>p\<in>set ps. plugin_ok (snd p))"

lemma suites: "suite_ok (PluginBNet n e cf)" "suite_ok (PluginBNetLoggedIn n e cf)" "suite_ok PluginInit" "suite_ok (PluginFile e cf)"
    "suite_ok (PluginBaal e cf)"
  by (simp_all add: suite_ok_def PluginBNet_def PluginBNetLoggedIn_def PluginInit_def PluginFile_def PluginBaal_def Load_def plugins)

lemma keeps_Process:
  assumes "suite_ok ps" and "server_ok w" and "live_client w a"
  shows "keeps w (PluginManager_Process ps a op s)"
  unfolding PluginManager_Process_def
  by (intro holds_option holds_ret assms(2)) (use assms in \<open>auto simp: suite_ok_def plugin_ok_def dest!: map_of_SomeD\<close>)

section \<open>Everything a connection sends\<close>

lemma keeps_bnet_loop:
  assumes "suite_ok ps" and "server_ok w" and "live_client w a"
  shows "keeps w (bnet_loop e cf (PluginManager_Process ps a) sb)"
  using assms(2,3)
proof (induction sb arbitrary: w rule: length_induct)
  case (1 sb)
  show ?case unfolding bnet_loop.simps [of e cf _ sb] Let_def
    by (intro holds_if holds_ret keeps_seq keeps_Process assms(1) 1(1) [rule_format]) (use 1(2,3) in \<open>auto simp: ext_def\<close>)
qed

lemma keeps_baal_loop:
  assumes "suite_ok ps" and "server_ok w" and "live_client w a"
  shows "keeps w (baal_loop e cf (PluginManager_Process ps a) sb)"
  using assms(2,3)
proof (induction sb arbitrary: w rule: length_induct)
  case (1 sb)
  show ?case unfolding baal_loop.simps [of e cf _ sb] Let_def
    by (intro holds_if holds_ret keeps_seq keeps_Process assms(1) 1(1) [rule_format]) (use 1(2,3) in \<open>auto simp: ext_def\<close>)
qed

lemma holds_stage:
  assumes "\<And>x. x \<in> {m1, m2, m3, m4, m5, m6} \<Longrightarrow> holds w x R"
  shows "holds w (case st of CONNECTED \<Rightarrow> m1 | BNET \<Rightarrow> m2 | BNET_LOGGEDIN \<Rightarrow> m3 | FILETRANS \<Rightarrow> m4 | FILERAW \<Rightarrow> m5 | BAAL \<Rightarrow> m6) R"
  using assms by (cases st) auto

lemma keeps_ProcessFile:
  assumes "server_ok w" and "live_client w a"
  shows "keeps w (ProcessFile e cf a sb)"
  using assms
proof (induction sb arbitrary: w rule: length_induct)
  case (1 sb)
  have r: "keeps w (ret sb)" "keeps v (ret [])" if "ext w v" for v using 1(2) extD(1) [OF that] by (simp_all add: holds_ret)
  have "keeps w (if length sb < 4 then ret sb else let hdr = of_le32 (take 4 sb); psize = low16 hdr
          in if unat psize > length sb then ret sb else let n = unat (psize - 4); b = drop 4 sb
          in if \<not> can_alloc cf n then ProcessFile e cf a (drop n b)
          else seq (PluginManager_Process (PluginFile e cf) a (high16 hdr) (Stream_bytes (sbuf_read e n b)))
                 (ProcessFile e cf a (drop n b)))" unfolding Let_def
    by (intro holds_if holds_ret keeps_seq keeps_Process suites 1(1) [rule_format]) (use 1(2,3) in \<open>auto simp: ext_def\<close>)
  moreover have "keeps w (if length sb < 53 then ret sb else if \<not> can_alloc cf (length sb) then ProcessFile e cf a []
          else seq (PluginManager_Process (PluginFile e cf) a 0 (Stream_bytes sb)) (ret []))"
    by (intro holds_if holds_ret keeps_seq keeps_Process suites r 1(1) [rule_format]) (use 1(2,3) in \<open>auto simp: ext_def\<close>)
  ultimately show ?case unfolding ProcessFile.simps [of e cf a sb] using r(1) [OF ext_refl [OF 1(2)]]
    by (intro holds_client_at 1(3)) (auto split: stage.split)
qed

lemma keeps_OnRecv:
  assumes "server_ok w" and "live_client w a"
  shows "keeps w (OnRecv n e cf a sb)"
proof -
  have "keeps v (OnRecv_stage n e cf a b)" if "server_ok v" "live_client v a" for v b
    unfolding OnRecv_stage_def ProcessBNet_def ProcessBNetLoggedIn_def ProcessBaal_def using that
    by (intro holds_client_at) (auto intro!: keeps_bnet_loop keeps_baal_loop keeps_ProcessFile suites holds_ret split: stage.split)
  then show ?thesis unfolding OnRecv_def
    by (intro holds_if holds_ret holds_client_at keeps_seq keeps_Process suites) (use assms in \<open>auto simp: ext_def\<close>)
qed

section \<open>Saving, connecting and disconnecting\<close>

lemma keeps_SaveToDB: "server_ok w \<Longrightarrow> keeps w (SaveToDB e)"
proof -
  have ids: "keeps v (friend_ids fs)" if "server_ok v" "\<And>f p. f \<in> set fs \<Longrightarrow> fuser f = Some p \<Longrightarrow> p < length (users v)" for v fs
    using that
  proof (induction fs arbitrary: v)
    case (Cons f fs)
    show ?case unfolding friend_ids.simps
      by (intro holds_option Cons.IH holds_user_at keeps_bind [OF Cons.IH] holds_ret) (use Cons.prems in \<open>auto simp: ext_def\<close>)
  qed (simp add: holds_ret)
  have save: "keeps v (save_user e p)" if "server_ok v" "p < length (users v)" for v p
    unfolding save_user_def
    by (intro holds_user_at keeps_seq holds_when keeps_set_user keeps_bind [OF holds_sql(3)] keeps_bind [OF ids] holds_ret)
      (use that in \<open>auto simp: ext_def dest!: server_friend [OF that]\<close>)
  assume "server_ok w"
  then show ?thesis unfolding SaveToDB_def
    by (intro keeps_seq holds_sql holds_get holds_forM save) (auto simp: ext_def server_ok_def ptrs_ok_def intro: less_le_trans)
qed

definition same_accounts :: "'a M \<Rightarrow> bool" where
  "same_accounts m \<longleftrightarrow> (\<forall>w x v. m w = Inr (x, v) \<longrightarrow> users v = users w \<and> name_map v = name_map w \<and> id_map v = id_map w)"

lemma same_accounts_rules: "frame m \<Longrightarrow> same_accounts m"
    "same_accounts m \<Longrightarrow> (\<And>x. same_accounts (k x)) \<Longrightarrow> same_accounts (bind m k)"
    "same_accounts m \<Longrightarrow> same_accounts n \<Longrightarrow> same_accounts (seq m n)" "same_accounts (modify (\<lambda>w. w\<lparr>clients := f w\<rparr>))"
  unfolding same_accounts_def frame_def seq_def by (auto simp: bind_def modify_def split: sum.splits)

lemma sf_same_accounts:
  assumes "server_ok w" and "wp m (\<lambda>_. rooms_ok) w" and "same_accounts m"
  shows "sf F m (\<lambda>_. server_ok) w"
  using assms by (auto simp: wp_run sf_run same_accounts_def server_ok_def ptrs_ok_def)

lemma connections_keep:
  assumes "server_ok w"
  shows "sf F (Client_new e peer) (\<lambda>_. server_ok) w" and "live_client w a \<Longrightarrow> sf F (Client_delete a) (\<lambda>_. server_ok) w"
proof -
  note rm = server_rooms [OF assms]
  have t: "frame (pool_Remove_token t)" "frame (pool_AddByToken a)" for t a
    unfolding pool_Remove_token_def pool_AddByToken_def by (intro frames; simp)+
  show "sf F (Client_new e peer) (\<lambda>_. server_ok) w"
    by (rule sf_same_accounts [OF assms wp_mono [OF wp_Client_new [OF rm]]], simp, unfold Client_new_def)
      (intro same_accounts_rules(2,3) same_accounts_rules(4) same_accounts_rules(1) [OF frame_modify]
        same_accounts_rules(1) [OF t(2)] same_accounts_rules(1) [OF frame_basic(1)] same_accounts_rules(1) [OF frame_basic(3)]
        same_accounts_rules(1) [OF frame_client(5)]; simp)
  show "sf F (Client_delete a) (\<lambda>_. server_ok) w" if a: "live_client w a"
    by (rule sf_same_accounts [OF assms wp_mono [OF wp_Client_delete [OF rm a]]], simp, unfold Client_delete_def)
      (intro same_accounts_rules(2) [OF same_accounts_rules(1) [OF frame_basic(4)]] same_accounts_rules(3)
        same_accounts_rules(4) same_accounts_rules(1) frames t)
qed

section \<open>The server\<close>

text \<open>
  What can happen to the server: a connection is accepted, the data \<open>sb\<close> in the buffer of a socket is
  processed, the accounts are saved, a connection is closed. The socket layer passes on only the events
  of clients that are still there. \<open>Datagram\<close> is not one of these events.
\<close>

datatype server_event = Accept "u32 option" | Receive nat bytes | Save | Close nat

definition server_step :: "nat \<Rightarrow> env \<Rightarrow> config \<Rightarrow> server_event \<Rightarrow> unit M" where
  "server_step n e cf ev = bind (gets (\<lambda>w. w)) (\<lambda>w. case ev of
       Accept peer \<Rightarrow> seq (Client_new e peer) (ret ())
     | Receive a sb \<Rightarrow> whenM (live_client w a) (seq (OnRecv n e cf a sb) (ret ()))
     | Save \<Rightarrow> SaveToDB e
     | Close a \<Rightarrow> whenM (live_client w a) (Client_delete a))"

lemma sf_of_keeps: "keeps w m \<Longrightarrow> sf hazards m (\<lambda>_. server_ok) w"
  unfolding holds_def by (erule sf_mono) (simp add: ext_def)

lemma server_step_ok:
  assumes "server_ok w"
  shows "sf hazards (server_step n e cf ev) (\<lambda>_. server_ok) w"
proof -
  show ?thesis
  proof (cases ev)
    case (Accept peer)
    then show ?thesis using sf_mono [OF connections_keep(1) [OF assms]] by (simp add: server_step_def seq_def sf_bind)
  next
    case (Receive a sb)
    then show ?thesis using assms sf_mono [OF sf_of_keeps [OF keeps_OnRecv [OF assms]]]
      by (auto simp: server_step_def whenM_def seq_def sf_bind)
  next
    case Save
    then show ?thesis using sf_of_keeps [OF keeps_SaveToDB [OF assms]] by (simp add: server_step_def sf_bind)
  next
    case (Close a)
    then show ?thesis using assms connections_keep(2) [OF assms] by (simp add: server_step_def whenM_def sf_bind)
  qed
qed

interpretation srv: guarded_ops hazards server_ok "server_step n e cf"
  by unfold_locales (rule server_step_ok)

lemma server_ok_start: "server_ok (world0\<lparr>next_uid := k, user_count := c\<rparr>)"
  by (simp add: server_ok_def ptrs_ok_def rooms_ok_def maps_ok_def world0_def live_client_def live_game_def)

text \<open>
  C3. Whatever connections are accepted, whatever bytes they send in whatever pieces, and whenever
  they are closed or the accounts are saved: starting from a server that has just read its counters
  from the database, no request reads or writes a client, a game, a channel or an account that has been
  deleted. The only ways a request can fail are the ones named, and after every
  sequence of events that does not run into one of them the state is consistent: the members of every
  channel and game are connected clients that say they are in it, and every pointer to an account leads
  to one.
\<close>

theorem server_never_dangles:
  "(\<exists>f\<in>{OutOfBounds, NullDeref, NoFuel}. forM evs (server_step n e cf) (world0\<lparr>next_uid := k, user_count := c\<rparr>) = Inl f)
     \<or> (\<exists>w. forM evs (server_step n e cf) (world0\<lparr>next_uid := k, user_count := c\<rparr>) = Inr ((), w) \<and> server_ok w)"
  by (rule srv.run_outcome [OF server_ok_start, unfolded hazards_def])

end
