(* ===== verification/Logins.thy ===== *)
theory Logins
  imports Server
begin

text \<open>
  What a connection can reach: the login of the old protocol, a login that needs no account, how much
  of its data the server holds back, and what a datagram can do.
\<close>

section \<open>The old login\<close>

lemma BSHA1_call:
  assumes "\<forall>p\<in>set ps. length p < 2 ^ 32" and "8 * length (concat ps) < 2 ^ 64"
  shows "BSHA1_call e ps = bsha1 (concat ps)"
  using BSHA1_digest [of "fresh_ctx e" ps "fresh e ''cres'' 20"] assms
  by (auto simp: BSHA1_call_def fresh_ctx_def fresh_def)

lemma old_hash: "length token = 8 \<Longrightarrow> length pw = 20 \<Longrightarrow> old_hash e token pw = reverse_words (bsha1 (token @ pw))"
  by (simp add: old_hash_def BSHA1_call)

lemma old_fields:
  assumes "length token = length t0" and "length pwd = length p0" and "NUL \<notin> set nm"
  obtains s1 s2 s3 where "get_bytes t0 (Stream_bytes (token @ pwd @ str_bytes nm)) = (token, s1)" "get_bytes p0 s1 = (pwd, s2)"
    "get_str s2 = (nm, s3)"
proof -
  let ?s = "Stream_bytes (token @ pwd @ str_bytes nm)"
  have r: "rest ?s = token @ pwd @ str_bytes nm" by (simp add: rest_def Stream_bytes_def)
  have 1: "get_bytes t0 ?s = (token, adv (length token) ?s)" by (rule get_bytes_full [OF r]) (use assms in simp)
  have r1: "rest (adv (length token) ?s) = pwd @ str_bytes nm" using r by (simp add: rest_adv)
  have 2: "get_bytes p0 (adv (length token) ?s) = (pwd, adv (length pwd) (adv (length token) ?s))"
    by (rule get_bytes_full [OF r1]) (use assms in simp)
  have r2: "rest (adv (length pwd) (adv (length token) ?s)) = str_bytes nm @ []" using r1 by (simp add: rest_adv)
  show ?thesis by (rule that [OF 1 2 cstr.dec_enc [OF assms(3) r2]])
qed

text \<open>
  C35. The old login lets a client in exactly when it knows the password: for an account that uses the old
  protocol the request of a client that is not logged in is always answered, and the client is logged in
  as that account, and found under its name, if the hash it sent is the broken SHA-1 of its token and the
  stored password with the bytes of each word reversed; otherwise nothing about the client changes
  and it is told that the password is wrong.
\<close>

theorem old_login_checks_password:
  assumes "live_client w a" and "c_user (the_client w a) = None"
    and "ufind CompareInCaseEqual (name_map w) (c_str (take 15 nm)) = Some p" and "p < length (users w)"
    and "IsExist (users w ! p)" and "u_flag (users w ! p) AND UCF_OLSAUTH \<noteq> 0" and "length (u_passwd (users w ! p)) = 20"
    and "length token = 8" and "length pwd = 20" and "NUL \<notin> set nm"
  shows "\<exists>v. OldAuthLogon2 n e a (Stream_bytes (token @ pwd @ str_bytes nm)) w = Inr (True, v) \<and>
     (if pwd = reverse_words (bsha1 (token @ u_passwd (users w ! p)))
      then c_stage (the_client v a) = BNET_LOGGEDIN \<and> c_user (the_client v a) = Some p
        \<and> ufind CompareInCaseEqual (clientMap v) (u_username (users w ! p)) = Some a
      else the_client v a = the_client w a \<and> sent v = sent w @ [(a, bnet_build 0x3AFF (OldAuthLogon2_Pack 2 []))])"
proof -
  obtain s1 s2 s3 where g: "get_bytes (fresh e ''token'' 8) (Stream_bytes (token @ pwd @ str_bytes nm)) = (token, s1)"
      "get_bytes (fresh e ''pwd'' 20) s1 = (pwd, s2)" "get_str s2 = (nm, s3)"
    by (rule old_fields [of token "fresh e ''token'' 8" pwd "fresh e ''pwd'' 20" nm]) (use assms in \<open>auto simp: fresh_def\<close>)
  let ?h = "reverse_words (bsha1 (token @ u_passwd (users w ! p)))"
  have "wp (OldAuthLogon2 n e a (Stream_bytes (token @ pwd @ str_bytes nm))) (\<lambda>r v. r = True \<and>
     (if pwd = ?h then c_stage (the_client v a) = BNET_LOGGEDIN \<and> c_user (the_client v a) = Some p
        \<and> ufind CompareInCaseEqual (clientMap v) (u_username (users w ! p)) = Some a
      else the_client v a = the_client w a \<and> sent v = sent w @ [(a, bnet_build 0x3AFF (OldAuthLogon2_Pack 2 []))])) w"
    using assms old_hash [OF assms(8,7), of e]
    by (auto simp: OldAuthLogon2_def g user_by_name_def by_name_def found_def SetUser_def pool_Add_def BuildAndSendTo_def
        SetStage_def BuildStats_def live_client_def the_client_def ci.ufind_uset_same)
  then show ?thesis by (auto simp: wp_run)
qed

definition old_world :: world where
  "old_world = world0\<lparr>clients := [Some (new_client env0 0 None 1 0)], name_map := [(''bob'', 0)],
     users := [(UserCacheItem env0 0 ''bob'')\<lparr>u_id := 1, u_flag := UCF_OLSAUTH, u_passwd := replicate 20 0\<rparr>]\<rparr>"

theorem old_login_checks_password_witness:
  "\<exists>v. OldAuthLogon2 1 env0 0 (Stream_bytes (replicate 8 0 @ replicate 20 0 @ str_bytes ''bob'')) old_world = Inr (True, v) \<and>
     (if replicate 20 0 = reverse_words (bsha1 (replicate 8 0 @ u_passwd (users old_world ! 0)))
      then c_stage (the_client v 0) = BNET_LOGGEDIN \<and> c_user (the_client v 0) = Some 0
        \<and> ufind CompareInCaseEqual (clientMap v) (u_username (users old_world ! 0)) = Some 0
      else the_client v 0 = the_client old_world 0 \<and> sent v = sent old_world @ [(0, bnet_build 0x3AFF (OldAuthLogon2_Pack 2 []))])"
proof (rule old_login_checks_password)
  show "ufind CompareInCaseEqual (name_map old_world) (c_str (take 15 ''bob'')) = Some 0"
    by (simp add: old_world_def CompareInCaseEqual_def generic_strcmpia_def c_str_def NUL_def)
qed (simp_all add: old_world_def world0_def live_client_def the_client_def new_client_def IsExist_def UCF_OLSAUTH_def NUL_def)

section \<open>A login without an account\<close>

text \<open>
  C37. The last step of the login does not ask whether a login has begun. A new connection that sends the
  selecting byte and the proof request is let in without any account when the 20 bytes are those that
  the memory of the client object happened to hold, because nothing has been written to the proof that
  they are compared with.
\<close>

theorem login_without_account:
  assumes "can_alloc cf 20"
  shows "\<exists>w. forM [Accept peer, Receive 0 (1 # bnet_build 0x54FF (fresh e ''Client._client_proof0'' 20))] (server_step n e cf) world0
       = Inr ((), w) \<and> c_stage (the_client w 0) = BNET_LOGGEDIN \<and> c_user (the_client w 0) = None"
proof -
  let ?pr = "fresh e ''Client._client_proof0'' 20"
  let ?c = "new_client e 0 peer 1 (rand32 e 0)"
  let ?v = "world0\<lparr>current_session := 1, nrand := 3, clients := [Some ?c], tokenMap := [(rand32 e 0, 0)]\<rparr>"
  have new: "wp (server_step n e cf (Accept peer)) (\<lambda>_ x. x = ?v) world0"
    by (simp add: server_step_def Client_new_def pool_AddByToken_def live_client_def the_client_def world0_def new_client_def)
  have "dec_nat 0 = ''0''" by code_simp
  then have c: "c_client_proof ?c = ?pr" by (simp add: new_client_def)
  have st: "c_stage ?c = CONNECTED" "c_user ?c = None" "bnet_build 0x54FF ?pr \<noteq> []" by (simp_all add: new_client_def bnet_build_def fresh_def)
  have g: "fst (get_bytes old (Stream_bytes ?pr)) = ?pr" if "length old = 20" for old
    using get_bytes_full [where s = "Stream_bytes ?pr" and v = ?pr and r = "[]" and old = old] that by (simp add: rest_def Stream_bytes_def fresh_def)
  have loop: "bnet_loop e cf p (bnet_build 0x54FF ?pr) = seq (p 0x54FF (Stream_bytes ?pr)) (ret [])" for p
    using bnet.loop_enc [where b = ?pr and r = "[]" and k = "0x54FF" and p = p] assms by (simp add: fresh_def bnet.loop_eq [of e cf p "[]"])
  have "wp (server_step n e cf (Receive 0 (1 # bnet_build 0x54FF ?pr)))
     (\<lambda>_ w. c_stage (the_client w 0) = BNET_LOGGEDIN \<and> c_user (the_client w 0) = None) ?v"
    using c st
    by (simp add: server_step_def OnRecv_def OnRecv_stage_def PluginManager_Process_def PluginInit_def Load_def InitBnet_def
        ProcessBNet_def loop PluginBNet_def AuthLogonProof_def case_prod_beta g fresh_def [of e "''clientProof''"] BuildAndSendTo_def
        SetStage_def BuildStats_def live_client_def the_client_def)
  then show ?thesis using new by (auto simp: wp_run seq_def bind_def ret_def)
qed

theorem login_without_account_witness:
  "can_alloc config0 20 \<and> (\<exists>w. forM [Accept None, Receive 0 (1 # bnet_build 0x54FF (fresh env0 ''Client._client_proof0'' 20))]
       (server_step 1 env0 config0) world0 = Inr ((), w) \<and> c_stage (the_client w 0) = BNET_LOGGEDIN \<and> c_user (the_client w 0) = None)"
  using login_without_account [of config0 None env0 1] by (simp add: config0_def)

section \<open>Datagrams\<close>

text \<open>
  C38. A datagram stops the server: the token in it is looked up and the client used without a test. With
  a token that no connection has, a null pointer is used; with the token of a client that has been
  deleted, its memory.
\<close>

theorem datagram_stops_server:
  assumes "4 \<le> length x"
  shows "(ufind (=) (tokenMap w) t = None \<longrightarrow> UDP_OnRecv e ip port (le32 9 @ le32 t @ x) w = Inl NullDeref)
     \<and> (ufind (=) (tokenMap w) t = Some b \<and> b < length (clients w) \<and> clients w ! b = None
          \<longrightarrow> UDP_OnRecv e ip port (le32 9 @ le32 t @ x) w = Inl Dangling)"
proof -
  let ?s = "Stream_bytes (le32 t @ x)"
  obtain s' where g: "get32 old ?s = (t, s')" for old
    using c32.dec_enc [OF TrueI, of ?s t x] by (auto simp: rest_def Stream_bytes_def)
  have "\<not> stream_left ?s < 8" using assms by (simp add: stream_left_def Stream_bytes_def)
  then have "UDP_OnRecv e ip port (le32 9 @ le32 t @ x) w =
      seq (bind (pool_by_token t) (\<lambda>client. bind (the_ptr client) (\<lambda>b.
       seq (upd_client b (\<lambda>c. c\<lparr>c_gameIp := ip, c_gamePort := port\<rparr>))
       (seq (modify (\<lambda>w. w\<lparr>udp_sent := udp_sent w @ [(ip, port, udp_build 5 UDPServerPing_Pack)]\<rparr>)) (ret True))))) (ret ()) w"
    by (simp add: UDP_OnRecv_def PluginManager_Process_udp_def PluginUDP_def Load_def ConnTest2_def g)
  then show ?thesis
    by (auto simp: pool_by_token_def gets_def bind_def seq_def the_ptr_def fail_def ret_def upd_client_def client_at_def)
qed

theorem datagram_stops_server_witness:
  "UDP_OnRecv env0 0 0 (le32 9 @ le32 7 @ [0, 0, 0, 0]) world0 = Inl NullDeref \<and>
   UDP_OnRecv env0 0 0 (le32 9 @ le32 7 @ [0, 0, 0, 0]) (world0\<lparr>tokenMap := [(7, 0)], clients := [None]\<rparr>) = Inl Dangling"
  using datagram_stops_server [of "[0, 0, 0, 0]" world0 7 env0 0 0 0]
    datagram_stops_server [of "[0, 0, 0, 0]" "world0\<lparr>tokenMap := [(7, 0)], clients := [None]\<rparr>" 7 env0 0 0 0]
  by (simp add: world0_def)

section \<open>What the server holds back\<close>

text \<open>The requests for files leave the client in one of the two stages of a file connection.\<close>

abbreviation file_stage :: "world \<Rightarrow> nat \<Rightarrow> bool" where
  "file_stage w a \<equiv> c_stage (the_client w a) = FILETRANS \<or> c_stage (the_client w a) = FILERAW"

lemma file_requests_stage:
  assumes "live_client w a" and "file_stage w a"
  shows "wp (PluginManager_Process (PluginFile e cf) a op s) (\<lambda>_ v. live_client v a \<and> file_stage v a) w"
proof -
  have b: "wp (bind (FileHeader_Build e cf fn k l m) (FileSendTo a)) (\<lambda>_ v. live_client v a \<and> file_stage v a) w" for fn k l m
    unfolding FileHeader_Build_def wp_bind
    by (rule wp_fileCache) (use assms in \<open>auto simp: FileSendTo_def live_client_def the_client_def split: option.split\<close>)
  have "wp (FileReq e cf a s) (\<lambda>_ v. live_client v a \<and> file_stage v a) w"
      "wp (RawReq e cf a s) (\<lambda>_ v. live_client v a \<and> file_stage v a) w" for s
    using b by (simp_all add: FileReq_def RawReq_def split: prod.split)
  moreover have "wp (TokenReq a s) (\<lambda>_ v. live_client v a \<and> file_stage v a) w" for s
    using assms by (simp add: TokenReq_def FileSendTo_def SetStage_def live_client_def the_client_def)
  ultimately show ?thesis using assms
    by (simp add: PluginManager_Process_def PluginFile_def Load_def)
qed

lemma ProcessFile_left:
  assumes "live_client w a" and "file_stage w a" and "ProcessFile e cf a sb w = Inr (r, v)"
  shows "length r < 65535"
  using assms
proof (induction sb arbitrary: w rule: length_induct)
  case (1 sb)
  have again: "length r < 65535" if t: "length t < length sb" and q: "seq (PluginManager_Process (PluginFile e cf) a op s) (ProcessFile e cf a t) w = Inr (r, v)" for op s t
  proof -
    obtain x u where "PluginManager_Process (PluginFile e cf) a op s w = Inr (x, u)" and u: "ProcessFile e cf a t u = Inr (r, v)"
      using q by (auto simp: seq_def bind_def split: sum.splits)
    moreover from this(1) have "live_client u a" "file_stage u a" using file_requests_stage [OF 1(2,3), of e cf op s] by (auto simp: wp_run)
    ultimately show ?thesis using 1(1) t by blast
  qed
  have wait: "length sb < 65535" if "unat (low16 h) > length sb" for h
  proof -
    have "unat (low16 h) < 65536" by (simp add: unat_halves)
    then show ?thesis using that by simp
  qed
  show ?case
  proof (cases "c_stage (the_client w a) = FILETRANS")
    case True
    let ?h = "of_le32 (take 4 sb)"
    let ?t = "drop (unat (low16 ?h - 4)) (drop 4 sb)"
    have run: "(if length sb < 4 then ret sb else if unat (low16 ?h) > length sb then ret sb
        else if \<not> can_alloc cf (unat (low16 ?h - 4)) then ProcessFile e cf a ?t
        else seq (PluginManager_Process (PluginFile e cf) a (high16 ?h) (Stream_bytes (sbuf_read e (unat (low16 ?h - 4)) (drop 4 sb))))
          (ProcessFile e cf a ?t)) w = Inr (r, v)"
      using 1(4) unfolding ProcessFile.simps [of e cf a sb] bind_def [of "client_at a"] reads(1) [OF 1(2)] Let_def
      by (simp only: sum.case prod.case stage.case True)
    show ?thesis
    proof (cases "length sb < 4 \<or> unat (low16 ?h) > length sb")
      case True
      then show ?thesis using run wait by (auto simp: ret_def split: if_splits)
    next
      case False
      then have t: "length ?t < length sb" by simp linarith
      have skip: "ProcessFile e cf a ?t w = Inr (r, v) \<Longrightarrow> length r < 65535" using 1(1-3) t by blast
      show ?thesis
        by (cases "can_alloc cf (unat (low16 ?h - 4))", rule again [OF t], use run False in \<open>simp del: drop_drop\<close>, rule skip)
          (use run False in \<open>simp del: drop_drop\<close>)
    qed
  next
    case False
    then have "c_stage (the_client w a) = FILERAW" using 1(3) by blast
    moreover have "length r < 65535" if "\<not> length sb < 53" "ProcessFile e cf a [] w = Inr (r, v)"
      using that 1(1) [rule_format, of "[]", OF _ 1(2,3)] by (cases sb) auto
    ultimately show ?thesis using 1(2,4) by (auto simp: ProcessFile.simps [of e cf a sb] bind_def [of "client_at a"] reads(1) seq_def ret_def
        bind_def split: if_splits sum.splits)
  qed
qed

text \<open>
  C34. A connection that has chosen its protocol cannot make the server hold back more than 65534 bytes:
  whatever it sends, what is left in its buffer when the server has looked at it is shorter than a
  packet can be. A connection that has not chosen can: of data that begins with an unknown byte, only
  that byte is taken, and the client's state stays as it was.
\<close>

theorem waiting_bytes_bounded:
  assumes "live_client w a"
  shows "(c_stage (the_client w a) \<noteq> CONNECTED \<and> OnRecv n e cf a sb w = Inr (r, v) \<longrightarrow> length r < 65535)
     \<and> (c_stage (the_client w a) = CONNECTED \<and> x \<noteq> 1 \<and> x \<noteq> 2 \<and> x \<noteq> 0x65 \<longrightarrow> OnRecv n e cf a (x # sb) w = Inr (sb, w))"
proof (intro conjI impI; elim conjE)
  have big: "unat (high16 h) < 65536" "unat (low16 h) < 65536" for h
    using unat_bound(2) [of "high16 h"] unat_bound(2) [of "low16 h"] by simp_all
  assume st: "c_stage (the_client w a) \<noteq> CONNECTED" and run: "OnRecv n e cf a sb w = Inr (r, v)"
  show "length r < 65535"
  proof (cases "sb = []")
    case True
    then show ?thesis using run by (simp add: OnRecv_def ret_def)
  next
    case False
    then have run': "OnRecv_stage n e cf a sb w = Inr (r, v)" using run st by (simp add: OnRecv_def bind_def reads(1) [OF assms])
    have b: "length r < 65535" if "length r < 4 \<or> unat (high16 h) > length r \<or> unat (low16 h) > length r" for h
      using that big [of h] by auto
    show ?thesis
      using run' st bnet.loop_left baal.loop_left ProcessFile_left [OF assms] b
      by (cases "c_stage (the_client w a)")
        (fastforce simp: OnRecv_stage_def bind_def reads(1) [OF assms] ProcessBNet_def ProcessBNetLoggedIn_def ProcessBaal_def)+
  qed
next
  assume "c_stage (the_client w a) = CONNECTED" "x \<noteq> 1" "x \<noteq> 2" "x \<noteq> 0x65"
  moreover have "ucast x = (k :: u16) \<longleftrightarrow> x = ucast k" if "unat k < 256" for k
    using that unat_bound(1) [of x] take_bit_nat_eq_self [of "unat x" 16] by (auto simp: word_unat_eq_iff unsigned_ucast_eq take_bit_nat_eq_self)
  ultimately show "OnRecv n e cf a (x # sb) w = Inr (sb, w)"
    by (simp add: OnRecv_def OnRecv_stage_def PluginManager_Process_def PluginInit_def Load_def bind_def seq_def reads(1) [OF assms] ret_def)
qed

definition bnet_world :: world where
  "bnet_world = world0\<lparr>clients := [Some ((new_client env0 0 None 1 0)\<lparr>c_stage := BNET\<rparr>), Some (new_client env0 1 None 2 0)]\<rparr>"

theorem waiting_bytes_bounded_witness:
  "OnRecv 1 env0 config0 0 [0xFF, 0x25] bnet_world = Inr ([0xFF, 0x25], bnet_world) \<and> length [0xFF, 0x25 :: u8] < 65535 \<and>
   OnRecv 1 env0 config0 1 (0 # replicate 70000 0) bnet_world = Inr (replicate 70000 0, bnet_world)"
proof -
  have l: "live_client bnet_world 0" "live_client bnet_world 1" by (simp_all add: bnet_world_def live_client_def)
  have s: "c_stage (the_client bnet_world 0) = BNET" "c_stage (the_client bnet_world 1) = CONNECTED"
    by (simp_all add: bnet_world_def the_client_def new_client_def)
  have "OnRecv 1 env0 config0 0 [0xFF, 0x25] bnet_world = Inr ([0xFF, 0x25], bnet_world)"
    using s by (simp add: OnRecv_def OnRecv_stage_def ProcessBNet_def bnet_loop.simps bind_def reads(1) [OF l(1)] ret_def)
  moreover from this have "length [0xFF, 0x25 :: u8] < 65535"
    using waiting_bytes_bounded [OF l(1), of 1 env0 config0 "[0xFF, 0x25]" "[0xFF, 0x25]" bnet_world 0] s by simp
  moreover have "OnRecv 1 env0 config0 1 (0 # replicate 70000 0) bnet_world = Inr (replicate 70000 0, bnet_world)"
    using waiting_bytes_bounded [OF l(2), of 1 env0 config0 "replicate 70000 0" _ _ 0] s(2) by simp
  ultimately show ?thesis by blast
qed

end
