(* ===== verification/Stages.thy ===== *)
theory Stages
  imports Logins
begin

text \<open>
  The stage of a connection decides which loop of src/blitzd/core/Client.cpp handles its bytes. This theory shows
  that no request of a logged-in client or of a realm server changes the stage of any connection, and what follows for
  \<^verbatim>\<open>Client::OnRecv\<close>: every whole packet is handled, and the pieces in which the network delivers the data do not matter.
\<close>

section \<open>Operations that leave the stages alone\<close>

definition stages :: "world \<Rightarrow> stage option list" where
  "stages w = map (map_option c_stage) (clients w)"

definition steady :: "'a M \<Rightarrow> bool" where
  "steady m \<longleftrightarrow> (\<forall>w x v. m w = Inr (x, v) \<longrightarrow> stages v = stages w)"

named_theorems steadies \<open>operations that leave the stages alone\<close>

lemma steady_bind [steadies]: "steady m \<Longrightarrow> (\<And>x. steady (k x)) \<Longrightarrow> steady (bind m k)"
  unfolding steady_def bind_def by (auto split: sum.splits)

lemma steady_seq [steadies]: "steady m \<Longrightarrow> steady n \<Longrightarrow> steady (seq m n)"
  unfolding seq_def by (rule steady_bind)

lemma steady_same: "(\<And>w x v. m w = Inr (x, v) \<Longrightarrow> clients v = clients w) \<Longrightarrow> steady m"
  unfolding steady_def stages_def by metis

lemma steady_basic [steadies]: "steady (ret x)" "steady (fail f)" "steady (gets g)" "steady (client_at a)" "steady (user_at a)"
    "steady (channel_at a)" "steady (game_at a)" "steady (the_ptr p)" "steady (lift r)"
  by (rule steady_same, simp add: ret_def fail_def gets_def client_at_def user_at_def channel_at_def game_at_def the_ptr_def
      lift_def split: option.splits if_splits sum.splits)+

lemma steady_modify [steadies]: "(\<And>w. clients (f w) = clients w) \<Longrightarrow> steady (modify f)"
  by (rule steady_same) (auto simp: modify_def)

lemma steady_upd_client [steadies]: "(\<And>c. c_stage (f c) = c_stage c) \<Longrightarrow> steady (upd_client a f)"
  by (auto simp: steady_def stages_def upd_client_def bind_def client_at_def modify_def map_update list_update_same_conv split: option.splits if_splits)

lemma steady_upd [steadies]: "steady (upd_user a f)" "steady (upd_channel a g)" "steady (upd_game a h)"
  unfolding upd_user_def upd_channel_def upd_game_def by (intro steadies; simp)+

lemma steady_when [steadies]: "steady m \<Longrightarrow> steady (whenM b m)"
  by (simp add: whenM_def steady_basic)

lemma steady_forM [steadies]: "(\<And>x. steady (k x)) \<Longrightarrow> steady (forM xs k)"
  by (induction xs) (simp_all add: steady_basic steady_seq)

lemma steady_cases [steadies]:
  "steady m \<Longrightarrow> (\<And>a. steady (k a)) \<Longrightarrow> steady (case p of None \<Rightarrow> m | Some a \<Rightarrow> k a)"
  "steady m \<Longrightarrow> steady n \<Longrightarrow> steady (if b then m else n)"
  "(\<And>x y. steady (g x y)) \<Longrightarrow> steady (case q of (x, y) \<Rightarrow> g x y)"
  "steady m \<Longrightarrow> (\<And>x xs. steady (j x xs)) \<Longrightarrow> steady (case l of [] \<Rightarrow> m | x # xs \<Rightarrow> j x xs)"
  "(\<And>x. steady (i x)) \<Longrightarrow> steady (Let t i)"
  by (simp_all split: option.split prod.split list.split)

lemma steady_env [steadies]: "steady (GetRandom32 e)" "steady (GetTicks e)" "steady (lVal d)" "steady (sVal d)" "steady (bVal d)"
    "steady (cell rows i j)" "steady (doExec e q)" "steady (doQuery e q n r)"
  by (rule steady_same, auto simp: GetRandom32_def GetTicks_def lVal_def sVal_def bVal_def cell_def doExec_def doQuery_def Let_def ret_def fail_def
      split: DataDef.splits option.splits if_splits)+

lemma steady_storage [steadies]:
  "steady (StorageSet x1 y1 z1 u1)" "steady (GetAll x2 y2 z2 u2)" "steady (GetMatch x3 y3 z3 u3 v3)" "steady (RemoveAll x4 y4)"
  "steady (RemoveMatch x5 y5 z5)"
  unfolding StorageSet_def GetAll_def GetMatch_def RemoveAll_def RemoveMatch_def
  by (intro steadies; simp)+

section \<open>Accounts, messages and rooms\<close>

lemma steady_find_name [steadies]: "steady (find_name nm i fs)"
  by (induction fs arbitrary: i) (auto intro!: steadies)

lemma steady_users [steadies]:
  "steady (FindFriend_name x1 y1)" "steady (AddFriend x2 y2)" "steady (RemoveFriend_at x3 y3)" "steady (RemoveFriend_user x4 y4)"
  "steady (RemoveFriend_name x5 y5)" "steady (new_user x6 y6)" "steady (UserAdd x7 y7 z7)" "steady (found x8)"
  "steady (where_text x9 y9)" "steady (fill_user x10 y10)"
  unfolding FindFriend_name_def AddFriend_def RemoveFriend_at_def RemoveFriend_user_def RemoveFriend_name_def
    new_user_def UserAdd_def found_def where_text_def fill_user_def
  by (intro steadies; simp)+

lemma steady_by [steadies]:
  "(\<And>x y. steady (load x y)) \<Longrightarrow> steady (by_name load nm)" "(\<And>x y. steady (load x y)) \<Longrightarrow> steady (by_id load i)"
  unfolding by_name_def by_id_def by (intro steadies; simp)+

lemma steady_LoadUser [steadies]: "steady (LoadUser n e nm uid)"
  by (induction n arbitrary: nm uid) (auto intro!: steadies)

lemma steady_user_by [steadies]: "steady (user_by_name n e nm)" "steady (user_by_id n e i)"
  unfolding user_by_name_def user_by_id_def by (intro steadies)+

lemma steady_sessions [steadies]:
  "steady (BuildAndSendTo x1 y1 z1)" "steady (BaalSendTo x2 y2 z2 u2)" "steady (GetUsername x3)" "steady (GetFlag x4)"
  "steady (CheckStart x5 y5 z5)" "steady (CheckEnd x6 y6 z6)" "steady (SendPing x7 y7)" "steady (pool_by_name x8)"
  "steady (BuildMessagePacket x9 y9 z9)" "steady (SetLastWhisper x10 y10)" "steady (Message_Send x11 y11 z11 u11)"
  "steady (SendToSet x12 y12 z12 u12)" "steady (Message_SendSet x13 y13 z13 u13 v13)" "steady (FindOnlineUser x14 y14 z14)"
  "steady (SendWhisper x15 y15 z15 u15)"
  unfolding Send_def BuildAndSendTo_def BaalSendTo_def GetUsername_def GetFlag_def CheckStart_def CheckEnd_def SendPing_def
    pool_by_name_def BuildMessagePacket_def SetLastWhisper_def Message_Send_def SendToSet_def Message_SendSet_def
    FindOnlineUser_def SendWhisper_def
  by (intro steadies; simp)+

lemma steady_online_friends [steadies]: "steady (online_friends fs mut to)"
  by (induction fs arbitrary: to) (auto intro!: steadies)

lemma steady_friend_messages [steadies]:
  "steady (FriendSendInfo x1 y1 z1)" "steady (FriendWhisper x2 y2 z2 u2)"
  unfolding FriendSendInfo_def FriendWhisper_def
  by (intro steadies; simp)+

lemma steady_rooms [steadies]:
  "steady (Game_delete x1)" "steady (Games_Remove x2)" "steady (Games_Add x3 y3)" "steady (Games_find x4)"
  "steady (Game_Leave x5 y5)" "steady (Channel_Leave x6 y6)" "steady (leave_game x7)" "steady (leave_channel x8)"
  "steady (Channel_Join x9 y9)" "steady (Talk x10 y10 z10)" "steady (Game_Join x11 y11)"
  unfolding Game_delete_def Games_Remove_def Games_Add_def Games_find_def Game_Leave_def Channel_Leave_def
    leave_game_def leave_channel_def Channel_Join_def Talk_def Game_Join_def
  by (intro steadies; simp)+

lemma steady_channels [steadies]:
  "steady (Channels_find x1)" "steady (Channels_by_tag x2)" "steady (Channels_Add x3)" "steady (new_channel x4)"
  "steady (Channels_Add_new x5)"
  unfolding Channels_find_def Channels_by_tag_def Channels_Add_def new_channel_def Channels_Add_new_def
  by (intro steadies; simp)+

lemma steady_ensure_index [steadies]: "steady (ensure_index k r nn i)"
  by (induction k arbitrary: i) (auto simp: Let_def intro!: steadies)

lemma steady_Ensure [steadies]:
  "steady (Ensure x1 y1 z1)"
  unfolding Ensure_def
  by (intro steadies; simp)+

lemma steady_caches [steadies]:
  "steady (FetchFile x1 y1 z1)" "steady (fileCache x2 y2 z2)" "steady (Realm_Add x3 y3 z3 u3)" "steady (realmCache x4)"
  unfolding FetchFile_def fileCache_def Realm_Add_def realmCache_def
  by (intro steadies; simp)+

lemma steady_pack_loops [steadies]: "steady (adv_loop i m c k gs n out)" "steady (channel_names own chs)"
  by (induction gs arbitrary: n out; auto simp: Let_def intro!: steadies) (induction chs; auto simp: Let_def intro!: steadies)

lemma steady_packs [steadies]:
  "steady (ReplyNews_Pack x1 y1)" "steady RealmList2_Pack" "steady (RealmLogonEx_Pack x2 y2 z2 u2)"
  "steady (AdvListEx_Pack x3 y3 z3 u3 v3 r3)" "steady (ListChannel_Pack x4)" "steady (friend_location x5 y5)"
  "steady (friend_status x6 y6)" "steady (FriendAdd_Pack x7 y7)" "steady (FriendUpdate_Pack x8 y8 z8)" "steady (friend_entry x9)"
  unfolding ReplyNews_Pack_def RealmList2_Pack_def RealmLogonEx_Pack_def AdvListEx_Pack_def ListChannel_Pack_def
    friend_location_def friend_status_def FriendAdd_Pack_def FriendUpdate_Pack_def friend_entry_def
  by (intro steadies; simp)+

lemma steady_friend_entries [steadies]: "steady (friend_entries u is)"
  by (induction "is") (auto simp: Let_def intro!: steadies)

lemma steady_FriendsList_Pack [steadies]:
  "steady (FriendsList_Pack x1)"
  unfolding FriendsList_Pack_def
  by (intro steadies; simp)+

section \<open>Requests\<close>

lemma steady_commands [steadies]:
  "steady (info x1 y1)" "steady (CommandAway x2 y2)" "steady (CommandDND x3 y3)" "steady (CommandChannels x4)"
  "steady (CommandJoin x5 y5)" "steady (CommandReply x6 y6)" "steady (CommandStatus x7)" "steady (CommandWhisper x8 y8 z8)"
  "steady (CommandWhoIs x9 y9)" "steady (friend_help x10)" "steady (friend_where x11 y11)" "steady (friend_line x12 y12 z12)"
  "steady (friend_list x13)" "steady (friend_added x14 y14 z14 u14 v14)" "steady (friend_add x15 y15 z15 u15)"
  "steady (friend_remove x16 y16 z16 u16)" "steady (friend_demote x17 y17 z17 u17)" "steady (friend_promote x18 y18 z18 u18)"
  unfolding info_def CommandAway_def CommandDND_def CommandChannels_def CommandJoin_def CommandReply_def
    CommandStatus_def CommandWhisper_def CommandWhoIs_def friend_help_def friend_where_def friend_line_def
    friend_list_def friend_added_def friend_add_def friend_remove_def friend_demote_def friend_promote_def
  by (intro steadies; simp)+

lemma steady_with_friend [steadies]: "(\<And>i j k. steady (f i j k)) \<Longrightarrow> steady (with_friend n e a s f)"
  unfolding with_friend_def by (intro steadies; simp)

lemma steady_CommandFriend [steadies]:
  "steady (CommandFriend x1 y1 z1 u1 v1)"
  unfolding CommandFriend_def
  by (intro steadies; simp)+

lemma steady_handler_Process [steadies]: "steady (handler_Process n e h a c s)"
  by (cases h) (simp_all add: steadies)

lemma steady_Command_Process [steadies]:
  "steady (Command_Process x1 y1 z1 u1)"
  unfolding Command_Process_def
  by (intro steadies; simp)+


lemma steady_read_data [steadies]:
  "steady (named_user x1 y1 z1 u1)" "steady (read_data x2 y2)"
  unfolding named_user_def read_data_def
  by (intro steadies; simp)+

lemma steady_user_loops [steadies]:
  "steady (read_keys p ks)" "steady (read_rows n e a ns ks)" "steady (write_keys p i ks kvs)" "steady (write_rows n e a ks vs i ns)"
  "steady (war3_loop e cf a cookie k is s)"
proof -
  show 1: "steady (read_keys p ks)" for p ks by (induction ks) (auto intro!: steadies)
  show "steady (read_rows n e a ns ks)" by (induction ks) (auto intro!: steadies 1)
  show 2: "steady (write_keys p i ks kvs)" for p i ks kvs by (induction kvs) (auto intro!: steadies)
  show "steady (write_rows n e a ks vs i ns)" by (induction ns arbitrary: i) (auto intro!: steadies 2)
  show "steady (war3_loop e cf a cookie k is s)" by (induction "is" arbitrary: s) (auto intro!: steadies simp: Let_def)
qed

lemma steady_plugins [steadies]:
  "steady (CheckAd x1 y1)" "steady (ClickAd x2 y2)" "steady (EnterChat x3 y3)" "steady (FriendsList x4 y4)"
  "steady (FriendUpdate x5 y5 z5)" "steady (GameResult x6 y6 z6)" "steady (GetAdvListEx x7 y7 z7)"
  "steady (JoinChannel x8 y8 z8)" "steady (LeaveChat x9 y9)" "steady (LeaveGame x10 y10)" "steady (ListChannel x11 y11)"
  "steady (NetGamePort x12 y12 z12)" "steady (NotifyJoin x13 y13 z13)" "steady (Null x14 y14)"
  "steady (Ping x15 y15 z15)" "steady (Profile x16 y16 z16 u16)" "steady (QueryAdUrl x17 y17)"
  "steady (QueryFileInfo x18 y18 z18 u18)" "steady (QueryIcon x19 y19 z19 u19)" "steady (QueryNews x20 y20 z20)"
  "steady (QueryRealms2 x21 y21)" "steady (QueryWar3Info x22 y22 z22 u22)" "steady (ReadUserData x23 y23 z23 u23)"
  "steady (RealmLogonEx x24 y24 z24)" "steady (SendChat x25 y25 z25 u25)" "steady (SetEmail x26 y26)"
  "steady (StartAdvEx3 x27 y27 z27)" "steady (StopAdv x28 y28)" "steady (SwitchGameID x29 y29 z29)"
  "steady (UDPResponse x30 y30)" "steady (WriteUserData x31 y31 z31 u31)" "steady (RealmAuth x32 y32 z32 u32)"
  "steady (UserCheck x33 y33 z33)"
  unfolding CheckAd_def ClickAd_def EnterChat_def FriendsList_def FriendUpdate_def GameResult_def GetAdvListEx_def
    JoinChannel_def LeaveChat_def LeaveGame_def ListChannel_def NetGamePort_def NotifyJoin_def Null_def Ping_def
    Profile_def QueryAdUrl_def QueryFileInfo_def QueryIcon_def QueryNews_def QueryRealms2_def QueryWar3Info_def
    ReadUserData_def RealmLogonEx_def SendChat_def SetEmail_def StartAdvEx3_def StopAdv_def SwitchGameID_def
    UDPResponse_def WriteUserData_def RealmAuth_def UserCheck_def
  by (intro steadies; simp add: DelFlag_def)+

lemma steady_Process: "(\<And>p b t. p \<in> set ps \<Longrightarrow> steady (snd p b t)) \<Longrightarrow> steady (PluginManager_Process ps a op s)"
  unfolding PluginManager_Process_def by (fastforce split: option.split intro: steady_basic dest!: map_of_SomeD)

lemma steady_suites [steadies]: "steady (PluginManager_Process (PluginBNetLoggedIn n e cf) a op s)"
    "steady (PluginManager_Process (PluginBaal e cf) a op s)"
  by (rule steady_Process, auto simp: PluginBNetLoggedIn_def PluginBaal_def Load_def intro: steady_plugins)+

lemma steady_bnet_loop [steadies]:
  assumes "\<And>op s. steady (p op s)"
  shows "steady (bnet_loop e cf p sb)"
proof (induction sb rule: length_induct)
  case (1 sb)
  show ?case unfolding bnet_loop.simps [of e cf p sb] Let_def
    by (cases "length sb < 4") (auto intro!: steadies assms 1 [rule_format])
qed

section \<open>What a connection's bytes do\<close>

text \<open>The three stages in which the bytes are packets: the suite of requests, the size in a header, and a packet.\<close>

definition stage_suite :: "nat \<Rightarrow> env \<Rightarrow> config \<Rightarrow> stage \<Rightarrow> (u16 \<times> plugin) list" where
  "stage_suite n e cf st = (if st = BAAL then PluginBaal e cf else if st = BNET then PluginBNet n e cf else PluginBNetLoggedIn n e cf)"

definition stage_size :: "stage \<Rightarrow> bytes \<Rightarrow> u16" where
  "stage_size st h = (if st = BAAL then low16 (of_le32 h) else high16 (of_le32 h))"

definition stage_frame :: "stage \<Rightarrow> u16 \<Rightarrow> bytes \<Rightarrow> bytes" where
  "stage_frame st = (if st = BAAL then baal_frame else bnet_build)"

definition packet_stage :: "stage \<Rightarrow> bool" where
  "packet_stage st \<longleftrightarrow> st = BNET \<or> st = BNET_LOGGEDIN \<or> st = BAAL"

lemma OnRecv_loop:
  assumes "live_client w a" and "c_stage (the_client w a) = st" and "packet_stage st"
  shows "OnRecv n e cf a sb w =
     (if st = BAAL then baal_loop else bnet_loop) e cf (PluginManager_Process (stage_suite n e cf st) a) sb w"
proof (cases "sb = []")
  case True
  then show ?thesis by (simp add: OnRecv_def bnet.loop_eq [of _ _ _ "[]"] baal.loop_eq [of _ _ _ "[]"])
next
  case False
  then show ?thesis using assms
    by (auto simp: OnRecv_def OnRecv_stage_def bind_def reads(1) [OF assms(1)] packet_stage_def stage_suite_def ProcessBNet_def
        ProcessBNetLoggedIn_def ProcessBaal_def)
qed

text \<open>
  C33. No packet waits: in each of the three stages in which a connection sends packets (before the login, after it, and
  for a realm server), whatever well framed bytes are in the buffer of the socket, they are a sequence of whole packets and a rest that
  is not a whole packet; \<^verbatim>\<open>Client::OnRecv\<close> handles exactly these packets, each once, in order and with exactly its own bytes, by the
  requests of the stage, and leaves exactly the rest in the buffer.
\<close>

theorem no_packet_waits:
  assumes "live_client w a" and "c_stage (the_client w a) = st" and "packet_stage st"
    and "well_framed (stage_size st) sb" and "\<forall>n. can_alloc cf n"
  shows "\<exists>fs r. sb = concat (map (\<lambda>(k, b). stage_frame st k b) fs) @ r \<and> (length r < 4 \<or> unat (stage_size st (take 4 r)) > length r)
     \<and> OnRecv n e cf a sb w =
         seq (forM fs (\<lambda>(k, b). seq (PluginManager_Process (stage_suite n e cf st) a k (Stream_bytes b)) (ret ()))) (ret r) w"
proof (cases "st = BAAL")
  let ?p = "PluginManager_Process (stage_suite n e cf st) a"
  case True
  then have eq: "stage_size st = (\<lambda>h. low16 (of_le32 h))" "stage_frame st = baal_frame" by (simp_all add: fun_eq_iff stage_size_def stage_frame_def)
  obtain fs r where "sb = concat (map (\<lambda>(k, b). baal_frame k b) fs) @ r" "length r < 4 \<or> unat (low16 (of_le32 (take 4 r))) > length r"
      "baal_loop e cf ?p sb = seq (forM fs (\<lambda>(k, b). seq (?p k (Stream_bytes b)) (ret ()))) (ret r)"
    using baal.loop_split [of sb cf e ?p] assms(4,5) unfolding eq by blast
  then show ?thesis unfolding eq OnRecv_loop [OF assms(1-3)] using True by (intro exI conjI) (assumption, assumption, simp)
next
  let ?p = "PluginManager_Process (stage_suite n e cf st) a"
  case False
  then have eq: "stage_size st = (\<lambda>h. high16 (of_le32 h))" "stage_frame st = bnet_build" by (simp_all add: fun_eq_iff stage_size_def stage_frame_def)
  obtain fs r where "sb = concat (map (\<lambda>(k, b). bnet_build k b) fs) @ r" "length r < 4 \<or> unat (high16 (of_le32 (take 4 r))) > length r"
      "bnet_loop e cf ?p sb = seq (forM fs (\<lambda>(k, b). seq (?p k (Stream_bytes b)) (ret ()))) (ret r)"
    using bnet.loop_split [of sb cf e ?p] assms(4,5) unfolding eq by blast
  then show ?thesis unfolding eq OnRecv_loop [OF assms(1-3)] using False by (intro exI conjI) (assumption, assumption, simp)
qed

text \<open>
  C32. It does not matter in which pieces the network delivers the data of a logged-in client: receiving well framed data
  piece by piece, each time choosing anew by the stage of the client what to do with it, has the same result as receiving all of it at once. No
  request of a logged-in client changes the stage.
\<close>

theorem pieces_do_not_matter:
  assumes "live_client w a" and "c_stage (the_client w a) = BNET_LOGGEDIN"
    and "well_framed (\<lambda>h. high16 (of_le32 h)) (concat (c # cs))" and "\<forall>n. can_alloc cf n"
  shows "DoRecv n e cf a (c # cs) [] w = OnRecv n e cf a (concat (c # cs)) w"
proof -
  let ?I = "\<lambda>w. live_client w a \<and> c_stage (the_client w a) = BNET_LOGGEDIN"
  let ?p = "PluginManager_Process (PluginBNetLoggedIn n e cf) a"
  have I: "?I w \<longleftrightarrow> a < length (stages w) \<and> stages w ! a = Some BNET_LOGGEDIN" for w
    by (auto simp: stages_def live_client_def the_client_def)
  have on: "OnRecv n e cf a sb w = bnet_loop e cf ?p sb w" if "?I w" for w sb
    using that OnRecv_loop [of w a BNET_LOGGEDIN n e cf sb] by (simp add: packet_stage_def stage_suite_def)
  have keep: "?I v" if "?I w" "bnet_loop e cf ?p sb w = Inr (r, v)" for w sb r v
    using that steady_bnet_loop [OF steady_suites(1), unfolded steady_def, rule_format, OF that(2)] unfolding I by simp
  have "DoRecv n e cf a (c # cs) [] w = bnet_loop e cf ?p ([] @ concat (c # cs)) w"
    by (rule bnet.loop_arrivals [where I = ?I and l = "OnRecv n e cf a", OF assms(4) on keep]) (use assms(1-3) in simp_all)
  then show ?thesis using assms(1,2) on by simp
qed

definition logged_world :: world where
  "logged_world = world0\<lparr>clients := [Some ((new_client env0 0 None 1 0)\<lparr>c_stage := BNET_LOGGEDIN\<rparr>)]\<rparr>"

lemma logged_world: "live_client logged_world 0" "c_stage (the_client logged_world 0) = BNET_LOGGEDIN"
  by (simp_all add: logged_world_def live_client_def the_client_def)

text \<open>A ping, and the first byte of the next packet.\<close>

lemma ping_framed: "well_framed (\<lambda>h. high16 (of_le32 h)) [0xFF, 0x25, 8, 0, 1, 2, 3, 4, 0xFF]"
proof -
  have "high16 (of_le32 [0xFF, 0x25, 8, 0]) = 8" by (simp add: word_unat_eq_iff unat_halves of_le32_def)
  then show ?thesis by (simp add: well_framed.simps)
qed

theorem no_packet_waits_witness:
  "\<exists>fs r. [0xFF, 0x25, 8, 0, 1, 2, 3, 4, 0xFF] = concat (map (\<lambda>(k, b). stage_frame BNET_LOGGEDIN k b) fs) @ r
     \<and> (length r < 4 \<or> unat (stage_size BNET_LOGGEDIN (take 4 r)) > length r)
     \<and> OnRecv 1 env0 config0 0 [0xFF, 0x25, 8, 0, 1, 2, 3, 4, 0xFF] logged_world =
         seq (forM fs (\<lambda>(k, b). seq (PluginManager_Process (stage_suite 1 env0 config0 BNET_LOGGEDIN) 0 k (Stream_bytes b)) (ret ()))) (ret r) logged_world"
proof (rule no_packet_waits [OF logged_world])
  show "well_framed (stage_size BNET_LOGGEDIN) [0xFF, 0x25, 8, 0, 1, 2, 3, 4, 0xFF]"
    using ping_framed by (simp add: stage_size_def [abs_def])
qed (simp_all add: packet_stage_def config0_def)

theorem pieces_do_not_matter_witness:
  "DoRecv 1 env0 config0 0 [[0xFF, 0x25, 8], [0, 1, 2, 3, 4, 0xFF]] [] logged_world =
     OnRecv 1 env0 config0 0 (concat [[0xFF, 0x25, 8], [0, 1, 2, 3, 4, 0xFF]]) logged_world"
  by (rule pieces_do_not_matter [OF logged_world]) (use ping_framed in \<open>simp_all add: config0_def\<close>)

end
