(* ===== verification/MemCache.thy ===== *)
theory MemCache
  imports Prelude
begin

text \<open>
  The memory cache of shald (src/shald/cache/MemCache.cpp): one block of memory from which chunks are
  handed out by first fit. The free chunks form a list that is kept inside the chunks themselves.
  The theory models the memory byte by byte, gives the specification of the allocator as
  operations on the sequence of chunks, and proves that the code implements it.

  A \<^verbatim>\<open>size_t\<close> is a natural number below \<open>2 ^ 64\<close>; every sum of the code is taken modulo \<open>2 ^ 64\<close>.
\<close>

section \<open>The code\<close>

record memcache =
  mc_mem :: "nat \<Rightarrow> u8"
  mem_base :: nat
  mc_size :: nat
  first_free :: nat
  mc_freed :: "nat list"

definition add64 :: "nat \<Rightarrow> nat \<Rightarrow> nat" where
  "add64 a b = (a + b) mod 2 ^ 64"

text \<open>Rounding up to a multiple of 16: the low four bits of the sum are cleared.\<close>

definition COUNT_ALIGNED :: "nat \<Rightarrow> nat" where
  "COUNT_ALIGNED n = (let s = add64 n 15 in s - s mod 16)"

text \<open>A \<^verbatim>\<open>size_t\<close> in memory; an access outside the block is a fault.\<close>

definition ld :: "(nat \<Rightarrow> u8) \<Rightarrow> nat \<Rightarrow> nat" where
  "ld m a = of_le_nat (map m [a..<a + 8])"

definition st :: "(nat \<Rightarrow> u8) \<Rightarrow> nat \<Rightarrow> nat \<Rightarrow> nat \<Rightarrow> u8" where
  "st m a v = (\<lambda>b. if a \<le> b \<and> b < a + 8 then le_nat 8 v ! (b - a) else m b)"

definition inside :: "memcache \<Rightarrow> nat \<Rightarrow> bool" where
  "inside mc a \<longleftrightarrow> mem_base mc \<le> a \<and> a + 8 \<le> mem_base mc + mc_size mc"

definition CHUNK_NEXT :: "memcache \<Rightarrow> nat \<Rightarrow> nat res" where
  "CHUNK_NEXT mc n = (if inside mc n then Inr (ld (mc_mem mc) n) else Inl OutOfBounds)"

definition CHUNK_SIZE :: "memcache \<Rightarrow> nat \<Rightarrow> nat res" where
  "CHUNK_SIZE mc n = CHUNK_NEXT mc (add64 n 8)"

definition set_CHUNK_NEXT :: "nat \<Rightarrow> nat \<Rightarrow> memcache \<Rightarrow> memcache res" where
  "set_CHUNK_NEXT n v mc = (if inside mc n then Inr (mc\<lparr>mc_mem := st (mc_mem mc) n v\<rparr>) else Inl OutOfBounds)"

definition set_CHUNK_SIZE :: "nat \<Rightarrow> nat \<Rightarrow> memcache \<Rightarrow> memcache res" where
  "set_CHUNK_SIZE n v mc = set_CHUNK_NEXT (add64 n 8) v mc"

text \<open>\<open>base\<close> is what \<^verbatim>\<open>_MEM.Alloc\<close> returns for the rounded size, 0 for a null pointer.\<close>

definition Init :: "nat \<Rightarrow> nat \<Rightarrow> memcache \<Rightarrow> (bool \<times> memcache) res" where
  "Init base memsize mc = (let memsize = COUNT_ALIGNED memsize in
     if memsize = 0 then Inr (False, mc)
     else let mc = mc\<lparr>mem_base := base\<rparr> in
     if base = 0 then Inr (False, mc)
     else let mc = mc\<lparr>mc_size := memsize, first_free := base\<rparr> in
       bind_res (set_CHUNK_NEXT base 0 mc) (\<lambda>mc. bind_res (set_CHUNK_SIZE base memsize mc) (\<lambda>mc. Inr (True, mc))))"

definition Uninit :: "memcache \<Rightarrow> memcache" where
  "Uninit mc = (if mem_base mc = 0 then mc else mc\<lparr>mc_freed := mc_freed mc @ [mem_base mc]\<rparr>)"

text \<open>The link to the chunk that is taken: the head of the list or the chunk before it.\<close>

definition relink :: "nat \<Rightarrow> nat \<Rightarrow> memcache \<Rightarrow> memcache res" where
  "relink this_chunk v mc = (if this_chunk = 0 then Inr (mc\<lparr>first_free := v\<rparr>) else set_CHUNK_NEXT this_chunk v mc)"

definition take_chunk :: "nat \<Rightarrow> nat \<Rightarrow> nat \<Rightarrow> nat \<Rightarrow> memcache \<Rightarrow> (nat \<times> memcache) res" where
  "take_chunk memsize this_chunk next_chunk sz mc =
     bind_res (CHUNK_NEXT mc next_chunk) (\<lambda>nnext_chunk.
     bind_res (if sz = memsize then relink this_chunk nnext_chunk mc
               else bind_res (relink this_chunk (add64 next_chunk memsize) mc) (\<lambda>mc.
                    bind_res (set_CHUNK_NEXT (add64 next_chunk memsize) nnext_chunk mc) (\<lambda>mc.
                    set_CHUNK_SIZE (add64 next_chunk memsize) (sz - memsize) mc))) (\<lambda>mc.
     bind_res (set_CHUNK_NEXT next_chunk memsize mc) (\<lambda>mc. Inr (add64 next_chunk 8, mc))))"

text \<open>The search; a list of free chunks that is a ring would be searched for ever.\<close>

partial_function (option) alloc_loop :: "memcache \<Rightarrow> nat \<Rightarrow> nat \<Rightarrow> nat \<Rightarrow> (nat \<times> memcache) res option" where
  "alloc_loop mc memsize this_chunk next_chunk =
     (if next_chunk = 0 then Some (Inr (0, mc))
      else case CHUNK_SIZE mc next_chunk of Inl f \<Rightarrow> Some (Inl f)
      | Inr sz \<Rightarrow>
          if sz \<ge> memsize then Some (take_chunk memsize this_chunk next_chunk sz mc)
          else (case CHUNK_NEXT mc next_chunk of Inl f \<Rightarrow> Some (Inl f)
                | Inr nn \<Rightarrow> alloc_loop mc memsize next_chunk nn))"

definition Alloc :: "nat \<Rightarrow> memcache \<Rightarrow> (nat \<times> memcache) res option" where
  "Alloc memsize mc = (if memsize = 0 then Some (Inr (0, mc))
     else alloc_loop mc (COUNT_ALIGNED (add64 memsize 8)) 0 (first_free mc))"

partial_function (option) free_loop :: "memcache \<Rightarrow> nat \<Rightarrow> nat \<Rightarrow> nat \<Rightarrow> (nat \<times> nat) res option" where
  "free_loop mc this_chunk prev_chunk next_chunk =
     (if next_chunk > 0 \<and> next_chunk < this_chunk
      then (case CHUNK_NEXT mc next_chunk of Inl f \<Rightarrow> Some (Inl f)
            | Inr nn \<Rightarrow> free_loop mc this_chunk next_chunk nn)
      else Some (Inr (prev_chunk, next_chunk)))"

text \<open>The freed chunk becomes the list entry \<open>c\<close>, joined with the next free chunk if it ends there.\<close>

definition join_next :: "nat \<Rightarrow> nat \<Rightarrow> nat \<Rightarrow> nat \<Rightarrow> memcache \<Rightarrow> memcache res" where
  "join_next c csize end_chunk next_chunk mc =
     (if end_chunk = next_chunk then
        bind_res (CHUNK_NEXT mc next_chunk) (\<lambda>nn. bind_res (set_CHUNK_NEXT c nn mc) (\<lambda>mc.
        bind_res (CHUNK_SIZE mc next_chunk) (\<lambda>ns. set_CHUNK_SIZE c (add64 csize ns) mc)))
      else bind_res (set_CHUNK_NEXT c next_chunk mc) (set_CHUNK_SIZE c csize))"

definition free_chunk :: "nat \<Rightarrow> nat \<Rightarrow> nat \<Rightarrow> memcache \<Rightarrow> memcache res" where
  "free_chunk this_chunk prev_chunk next_chunk mc =
     bind_res (CHUNK_NEXT mc this_chunk) (\<lambda>this_size. let end_chunk = add64 this_chunk this_size in
     if prev_chunk = 0 then join_next this_chunk this_size end_chunk next_chunk (mc\<lparr>first_free := this_chunk\<rparr>)
     else bind_res (CHUNK_SIZE mc prev_chunk) (\<lambda>prev_size.
       if add64 prev_chunk prev_size = this_chunk
       then join_next prev_chunk (add64 prev_size this_size) end_chunk next_chunk mc
       else bind_res (set_CHUNK_NEXT prev_chunk this_chunk mc)
              (join_next this_chunk this_size end_chunk next_chunk)))"

definition Free :: "nat \<Rightarrow> memcache \<Rightarrow> memcache res option" where
  "Free ptr mc = (let this_chunk = (ptr + 2 ^ 64 - 8) mod 2 ^ 64 in
     case free_loop mc this_chunk 0 (first_free mc) of None \<Rightarrow> None
     | Some r \<Rightarrow> Some (bind_res r (\<lambda>(prev_chunk, next_chunk). free_chunk this_chunk prev_chunk next_chunk mc)))"

section \<open>Memory\<close>

lemma ld_cong: "(\<And>b. a \<le> b \<Longrightarrow> b < a + 8 \<Longrightarrow> m b = m' b) \<Longrightarrow> ld m a = ld m' a"
  unfolding ld_def by (intro arg_cong [of _ _ of_le_nat] map_cong refl) simp

lemma ld_st_same [simp]: "v < 2 ^ 64 \<Longrightarrow> ld (st m a v) a = v"
proof -
  have "map (st m a v) [a..<a + 8] = le_nat 8 v"
    by (rule nth_equalityI) (auto simp: st_def)
  then show "v < 2 ^ 64 \<Longrightarrow> ld (st m a v) a = v" by (simp add: ld_def of_le_le_nat)
qed

lemma ld_st_other [simp]: "a + 8 \<le> b \<or> b + 8 \<le> a \<Longrightarrow> ld (st m a v) b = ld m b"
  by (rule ld_cong) (auto simp: st_def)

lemma ld_bound: "ld m a < 2 ^ 64"
  using of_le_nat_bound [of "map m [a..<a + 8]"] by (simp add: ld_def)

lemma add64 [simp]: "a + b < 2 ^ 64 \<Longrightarrow> add64 a b = a + b"
  by (simp add: add64_def)

lemma COUNT_ALIGNED:
  assumes "n + 15 < 2 ^ 64"
  shows "n \<le> COUNT_ALIGNED n" "16 dvd COUNT_ALIGNED n" "COUNT_ALIGNED n < n + 16"
proof -
  have c: "COUNT_ALIGNED n = (n + 15) - (n + 15) mod 16" using assms by (simp add: COUNT_ALIGNED_def Let_def)
  then show "16 dvd COUNT_ALIGNED n" by (simp add: minus_mod_eq_mult_div)
  have "(n + 15) mod 16 \<le> 15" using mod_less_divisor [of 16 "n + 15"] by linarith
  then show "n \<le> COUNT_ALIGNED n" "COUNT_ALIGNED n < n + 16" unfolding c by linarith+
qed

section \<open>The specification\<close>

text \<open>The block of memory as the sequence of its chunks, with their sizes.\<close>

datatype chunk = Used nat | Unused nat

primrec chunk_size :: "chunk \<Rightarrow> nat" where
  "chunk_size (Used n) = n"
| "chunk_size (Unused n) = n"

abbreviation total :: "chunk list \<Rightarrow> nat" where
  "total bs \<equiv> sum_list (map chunk_size bs)"

text \<open>First fit from address \<open>a\<close> on: the address of the chunk that is taken and the new sequence.\<close>

fun first_fit :: "nat \<Rightarrow> nat \<Rightarrow> chunk list \<Rightarrow> (nat \<times> chunk list) option" where
  "first_fit n a [] = None"
| "first_fit n a (Used k # bs) = map_option (\<lambda>(p, cs). (p, Used k # cs)) (first_fit n (a + k) bs)"
| "first_fit n a (Unused k # bs) =
     (if n \<le> k then Some (a, if k = n then Used n # bs else Used n # Unused (k - n) # bs)
      else map_option (\<lambda>(p, cs). (p, Unused k # cs)) (first_fit n (a + k) bs))"

text \<open>Freeing: the chunk is joined with free neighbours.\<close>

fun join_right :: "nat \<Rightarrow> chunk list \<Rightarrow> chunk list" where
  "join_right n (Unused k # bs) = Unused (n + k) # bs"
| "join_right n bs = Unused n # bs"

fun give_back :: "chunk list \<Rightarrow> nat \<Rightarrow> chunk list \<Rightarrow> chunk list" where
  "give_back [] n bs = join_right n bs"
| "give_back [Unused k] n bs = join_right (k + n) bs"
| "give_back (c # cs) n bs = c # give_back cs n bs"

section \<open>Chunks in memory\<close>

text \<open>
  \<open>seg m a bs f g\<close>: the memory from address \<open>a\<close> on holds the chunks \<open>bs\<close>; \<open>f\<close> is the link that leads to the
  first free one of them and \<open>g\<close> the link that leads out of the last. Without a free chunk they are the same.
\<close>

primrec seg :: "(nat \<Rightarrow> u8) \<Rightarrow> nat \<Rightarrow> chunk list \<Rightarrow> nat \<Rightarrow> nat \<Rightarrow> bool" where
  "seg m a [] f g = (f = g)"
| "seg m a (b # bs) f g = (16 \<le> chunk_size b \<and> 16 dvd chunk_size b \<and> (case b of
       Used n \<Rightarrow> ld m a = n \<and> seg m (a + n) bs f g
     | Unused n \<Rightarrow> f = a \<and> ld m (a + 8) = n \<and> seg m (a + n) bs (ld m a) g))"

lemma seg_append: "seg m a (bs @ cs) f g \<longleftrightarrow> (\<exists>h. seg m a bs f h \<and> seg m (a + total bs) cs h g)"
  by (induction bs arbitrary: a f) (auto simp: add.assoc split: chunk.splits)

lemma seg_frame: "(\<And>b. a \<le> b \<Longrightarrow> b < a + total bs \<Longrightarrow> m' b = m b) \<Longrightarrow> seg m' a bs f g = seg m a bs f g"
proof (induction bs arbitrary: a f)
  case (Cons c bs)
  have l: "16 \<le> chunk_size c \<Longrightarrow> x \<le> 8 \<Longrightarrow> ld m' (a + x) = ld m (a + x)" for x
    by (rule ld_cong) (use Cons.prems in simp)
  have r: "seg m' (a + chunk_size c) bs h g = seg m (a + chunk_size c) bs h g" for h
    by (rule Cons.IH) (use Cons.prems in simp)
  show ?case
  proof (cases c)
    case (Used n)
    then show ?thesis using l [of 0] r by (simp cong: conj_cong)
  next
    case (Unused n)
    then show ?thesis using l [of 0] l [of 8] r by (simp cong: conj_cong)
  qed
qed simp

lemma seg_st: "p + 8 \<le> a \<or> a + total bs \<le> p \<Longrightarrow> seg (st m p v) a bs f g = seg m a bs f g"
  by (rule seg_frame) (auto simp: st_def)

text \<open>The last free chunk of a sequence, \<open>t\<close> if there is none.\<close>

primrec last_free :: "nat \<Rightarrow> nat \<Rightarrow> chunk list \<Rightarrow> nat" where
  "last_free t a [] = t"
| "last_free t a (b # bs) = (case b of Used n \<Rightarrow> last_free t (a + n) bs | Unused n \<Rightarrow> last_free a (a + n) bs)"

lemma last_free_append: "last_free t a (bs @ cs) = last_free (last_free t a bs) (a + total bs) cs"
  by (induction bs arbitrary: t a) (auto simp: add.assoc split: chunk.splits)

text \<open>The bytes of the free chunks.\<close>

primrec free_area :: "nat \<Rightarrow> chunk list \<Rightarrow> nat set" where
  "free_area a [] = {}"
| "free_area a (b # bs) = (case b of Used n \<Rightarrow> free_area (a + n) bs | Unused n \<Rightarrow> {a..<a + n} \<union> free_area (a + n) bs)"

lemma free_area_append [simp]: "free_area a (bs @ cs) = free_area a bs \<union> free_area (a + total bs) cs"
  by (induction bs arbitrary: a) (auto simp: add.assoc split: chunk.splits)

lemma free_area_range: "free_area a bs \<subseteq> {a..<a + total bs}"
  by (induction bs arbitrary: a) (fastforce split: chunk.splits)+

lemma last_free_cases:
  assumes "seg m a bs f g" and "last_free 0 a bs \<noteq> 0"
  shows "{last_free 0 a bs..<last_free 0 a bs + 16} \<subseteq> free_area a bs"
  using assms
proof (induction bs arbitrary: a f g rule: rev_induct)
  case (snoc b bs)
  then show ?case by (cases b) (force simp: last_free_append seg_append)+
qed simp

lemma last_free_range:
  assumes "seg m a bs f g" and "last_free 0 a bs \<noteq> 0"
  shows "a \<le> last_free 0 a bs \<and> last_free 0 a bs + 16 \<le> a + total bs"
  using subset_trans [OF last_free_cases [OF assms] free_area_range] by auto

text \<open>Changing the link out of a segment: a store in its last free chunk, or another link into it.\<close>

lemma seg_relink:
  assumes "seg m a bs f g" and "v < 2 ^ 64" and "0 < a"
  shows "if last_free 0 a bs = 0 then f = g \<and> seg m a bs v v else seg (st m (last_free 0 a bs) v) a bs f v"
  using assms(1)
proof (induction bs arbitrary: g rule: rev_induct)
  case (snoc b bs)
  obtain h where h: "seg m a bs f h" "seg m (a + total bs) [b] h g" using snoc.prems by (auto simp: seg_append)
  show ?case
  proof (cases b)
    case (Used n)
    then have hg: "h = g" "16 \<le> n" "16 dvd n" "ld m (a + total bs) = n" using h(2) by auto
    then show ?thesis
      using snoc.IH [OF h(1)] last_free_range [OF h(1)] Used by (auto simp: last_free_append seg_append)
  next
    case (Unused n)
    then show ?thesis using h assms(2,3) by (auto simp: last_free_append seg_append seg_st)
  qed
qed simp

section \<open>The code implements the specification\<close>

text \<open>Two states with the same block of memory, which differ at most in the bytes of \<open>A\<close>.\<close>

definition changed :: "nat set \<Rightarrow> memcache \<Rightarrow> memcache \<Rightarrow> bool" where
  "changed A mc mc' \<longleftrightarrow> mem_base mc' = mem_base mc \<and> mc_size mc' = mc_size mc \<and> mc_freed mc' = mc_freed mc
     \<and> (\<forall>b. b \<notin> A \<longrightarrow> mc_mem mc' b = mc_mem mc b)"

lemma changed_refl [simp]: "changed A mc mc"
  by (simp add: changed_def)

lemma changed_trans: "changed A mc mc' \<Longrightarrow> changed B mc' mc'' \<Longrightarrow> A \<subseteq> D \<Longrightarrow> B \<subseteq> D \<Longrightarrow> changed D mc mc''"
  unfolding changed_def by (metis subsetD)

lemma changed_seg: "changed A mc mc' \<Longrightarrow> A \<inter> {a..<a + total bs} = {} \<Longrightarrow> seg (mc_mem mc') a bs f g = seg (mc_mem mc) a bs f g"
  by (rule seg_frame) (auto simp: changed_def)

lemma changed_st: "{p..<p + 8} \<subseteq> A \<Longrightarrow> changed A mc (mc\<lparr>mc_mem := st (mc_mem mc) p v\<rparr>)"
  by (auto simp: changed_def st_def)

lemma changed_ld: "changed A mc mc' \<Longrightarrow> A \<inter> {p..<p + 8} = {} \<Longrightarrow> ld (mc_mem mc') p = ld (mc_mem mc) p"
  by (rule ld_cong) (auto simp: changed_def)

definition block_ok :: "memcache \<Rightarrow> bool" where
  "block_ok mc \<longleftrightarrow> 0 < mem_base mc \<and> mem_base mc + mc_size mc < 2 ^ 64"

lemma changed_block: "changed A mc mc' \<Longrightarrow> block_ok mc' = block_ok mc"
  by (simp add: changed_def block_ok_def)

text \<open>The accesses, where they are inside the block.\<close>

lemma chunk_access:
  assumes "block_ok mc" and "mem_base mc \<le> p"
  shows "p + 8 \<le> mem_base mc + mc_size mc \<Longrightarrow> CHUNK_NEXT mc p = Inr (ld (mc_mem mc) p)"
    "p + 8 \<le> mem_base mc + mc_size mc \<Longrightarrow> set_CHUNK_NEXT p v mc = Inr (mc\<lparr>mc_mem := st (mc_mem mc) p v\<rparr>)"
    "p + 16 \<le> mem_base mc + mc_size mc \<Longrightarrow> CHUNK_SIZE mc p = Inr (ld (mc_mem mc) (p + 8))"
    "p + 16 \<le> mem_base mc + mc_size mc \<Longrightarrow> set_CHUNK_SIZE p v mc = Inr (mc\<lparr>mc_mem := st (mc_mem mc) (p + 8) v\<rparr>)"
  using assms by (auto simp: CHUNK_NEXT_def set_CHUNK_NEXT_def CHUNK_SIZE_def set_CHUNK_SIZE_def inside_def block_ok_def)

lemma relink_ok:
  assumes "block_ok mc" and "seg (mc_mem mc) (mem_base mc) pre (first_free mc) g" and "total pre \<le> mc_size mc" and "v < 2 ^ 64"
  shows "\<exists>mc'. relink (last_free 0 (mem_base mc) pre) v mc = Inr mc'
     \<and> changed (free_area (mem_base mc) pre) mc mc' \<and> seg (mc_mem mc') (mem_base mc) pre (first_free mc') v"
proof (cases "last_free 0 (mem_base mc) pre = 0")
  case True
  then show ?thesis using seg_relink [OF assms(2,4)] assms(1) by (auto simp: relink_def changed_def block_ok_def)
next
  case False
  note r = last_free_range [OF assms(2) False] and c = last_free_cases [OF assms(2) False]
  have "set_CHUNK_NEXT (last_free 0 (mem_base mc) pre) v mc =
      Inr (mc\<lparr>mc_mem := st (mc_mem mc) (last_free 0 (mem_base mc) pre) v\<rparr>)"
    by (rule chunk_access) (use assms r in auto)
  moreover have "changed (free_area (mem_base mc) pre) mc (mc\<lparr>mc_mem := st (mc_mem mc) (last_free 0 (mem_base mc) pre) v\<rparr>)"
    by (rule changed_st) (use c in auto)
  ultimately show ?thesis using seg_relink [OF assms(2,4)] assms(1) False by (auto simp: relink_def block_ok_def)
qed

lemma take_chunk_ok:
  assumes ok: "block_ok mc" and pre: "seg (mc_mem mc) (mem_base mc) pre (first_free mc) q" and q: "q = mem_base mc + total pre"
    and suf: "seg (mc_mem mc) q (Unused k # suf) q 0" and t: "total pre + k + total suf = mc_size mc"
    and n: "16 \<le> n" "16 dvd n" "n \<le> k"
  shows "\<exists>mc'. take_chunk n (last_free 0 (mem_base mc) pre) q k mc = Inr (q + 8, mc')
     \<and> changed (free_area (mem_base mc) (pre @ Unused k # suf)) mc mc'
     \<and> seg (mc_mem mc') (mem_base mc) (pre @ (if k = n then Used n # suf else Used n # Unused (k - n) # suf)) (first_free mc') 0"
proof -
  let ?b = "mem_base mc" and ?nn = "ld (mc_mem mc) q"
  have k: "16 \<le> k" "16 dvd k" "ld (mc_mem mc) (q + 8) = k" "seg (mc_mem mc) (q + k) suf ?nn 0" using suf by auto
  have fits: "q + k + total suf = ?b + mc_size mc" "?b \<le> q" "q + 8 < 2 ^ 64" "total pre \<le> mc_size mc"
    using q t ok k(1) by (auto simp: block_ok_def)
  have nx: "CHUNK_NEXT mc q = Inr ?nn" by (rule chunk_access) (use ok fits k in auto)
  have fa: "free_area ?b pre \<inter> {q + k..<q + k + total suf} = {}" using free_area_range [of ?b pre] q by fastforce
  show ?thesis
  proof (cases "k = n")
    case True
    obtain mc1 where r: "relink (last_free 0 ?b pre) ?nn mc = Inr mc1" "changed (free_area ?b pre) mc mc1"
        "seg (mc_mem mc1) ?b pre (first_free mc1) ?nn"
      using relink_ok [OF ok pre fits(4) ld_bound] by blast
    have b1: "block_ok mc1" "mem_base mc1 = ?b" "mc_size mc1 = mc_size mc" using r(2) ok by (auto simp: changed_block changed_def)
    let ?mc = "mc1\<lparr>mc_mem := st (mc_mem mc1) q n\<rparr>"
    have u: "set_CHUNK_NEXT q n mc1 = Inr ?mc" by (rule chunk_access) (use b1 fits k in auto)
    have "changed {q..<q + k} mc1 ?mc" by (rule changed_st) (use k in auto)
    then have ch: "changed (free_area ?b (pre @ Unused k # suf)) mc ?mc"
      by (rule changed_trans [OF r(2)]) (use q in auto)
    have "seg (mc_mem mc1) (q + k) suf ?nn 0" using k(4) changed_seg [OF r(2) fa] by simp
    moreover have "n < 2 ^ 64" using True fits ok by (auto simp: block_ok_def)
    ultimately have "seg (mc_mem ?mc) q (Used n # suf) ?nn 0" using True n fits by (simp add: seg_st)
    moreover have "seg (mc_mem ?mc) ?b pre (first_free ?mc) ?nn" using r(3) q by (simp add: seg_st)
    ultimately show ?thesis using True nx r(1) u ch q fits by (auto simp: take_chunk_def seg_append)
  next
    case False
    then have kn: "16 \<le> k - n" "16 dvd k - n" "q + n + 16 \<le> q + k" using k n dvd_imp_le [of 16 "k - n"] by auto
    have v: "q + n < 2 ^ 64" using fits ok n by (auto simp: block_ok_def)
    obtain mc1 where r: "relink (last_free 0 ?b pre) (q + n) mc = Inr mc1" "changed (free_area ?b pre) mc mc1"
        "seg (mc_mem mc1) ?b pre (first_free mc1) (q + n)"
      using relink_ok [OF ok pre fits(4) v] by blast
    have b1: "block_ok mc1" "mem_base mc1 = ?b" "mc_size mc1 = mc_size mc" using r(2) ok by (auto simp: changed_block changed_def)
    let ?mc2 = "mc1\<lparr>mc_mem := st (mc_mem mc1) (q + n) ?nn\<rparr>"
    let ?mc3 = "?mc2\<lparr>mc_mem := st (mc_mem ?mc2) (q + n + 8) (k - n)\<rparr>"
    let ?mc = "?mc3\<lparr>mc_mem := st (mc_mem ?mc3) q n\<rparr>"
    have a: "set_CHUNK_NEXT (q + n) ?nn mc1 = Inr ?mc2" "set_CHUNK_SIZE (q + n) (k - n) ?mc2 = Inr ?mc3" "set_CHUNK_NEXT q n ?mc3 = Inr ?mc"
      by (rule chunk_access; use b1 fits kn in \<open>auto simp: block_ok_def\<close>)+
    have "changed {q..<q + k} mc1 ?mc" using kn k by (auto simp: changed_def st_def)
    then have ch: "changed (free_area ?b (pre @ Unused k # suf)) mc ?mc"
      by (rule changed_trans [OF r(2)]) (use q in auto)
    have "seg (mc_mem mc1) (q + k) suf ?nn 0" using k(4) changed_seg [OF r(2) fa] by simp
    moreover have "k - n < 2 ^ 64" "n < 2 ^ 64" using fits ok n by (auto simp: block_ok_def)
    ultimately have "seg (mc_mem ?mc) q (Used n # Unused (k - n) # suf) (q + n) 0" using n kn ld_bound by (simp add: seg_st)
    moreover have "seg (mc_mem ?mc) ?b pre (first_free ?mc) (q + n)" using r(3) q by (simp add: seg_st)
    ultimately show ?thesis using False nx r(1) a ch q fits v by (auto simp: take_chunk_def seg_append)
  qed
qed

lemma alloc_loop_ok:
  assumes "block_ok mc" and "seg (mc_mem mc) (mem_base mc) pre (first_free mc) g" and "seg (mc_mem mc) (mem_base mc + total pre) suf g 0"
    and "total pre + total suf = mc_size mc" and "16 \<le> n" "16 dvd n"
  shows "case first_fit n (mem_base mc + total pre) suf of
       None \<Rightarrow> alloc_loop mc n (last_free 0 (mem_base mc) pre) g = Some (Inr (0, mc))
     | Some (p, cs) \<Rightarrow> \<exists>mc'. alloc_loop mc n (last_free 0 (mem_base mc) pre) g = Some (Inr (p + 8, mc'))
         \<and> changed (free_area (mem_base mc) (pre @ suf)) mc mc' \<and> seg (mc_mem mc') (mem_base mc) (pre @ cs) (first_free mc') 0"
  using assms(2-4)
proof (induction suf arbitrary: pre g)
  case Nil
  then show ?case by (simp add: alloc_loop.simps)
next
  case (Cons c suf)
  let ?q = "mem_base mc + total pre"
  show ?case
  proof (cases c)
    case (Used k)
    have "seg (mc_mem mc) (mem_base mc) (pre @ [c]) (first_free mc) g" using Cons.prems Used by (auto simp: seg_append)
    from Cons.IH [OF this] show ?thesis
      using Cons.prems Used by (auto simp: last_free_append add.assoc split: option.splits)
  next
    case (Unused k)
    have q: "g = ?q" "0 < ?q" "16 \<le> k" "ld (mc_mem mc) (?q + 8) = k" "?q + k + total suf = mem_base mc + mc_size mc"
      using Cons.prems Unused assms(1) by (auto simp: block_ok_def)
    have sz: "CHUNK_SIZE mc ?q = Inr k" "CHUNK_NEXT mc ?q = Inr (ld (mc_mem mc) ?q)"
      using chunk_access(1,3) [OF assms(1), of ?q] q by auto
    show ?thesis
    proof (cases "n \<le> k")
      case True
      obtain mc' where "take_chunk n (last_free 0 (mem_base mc) pre) ?q k mc = Inr (?q + 8, mc')"
          "changed (free_area (mem_base mc) (pre @ Unused k # suf)) mc mc'"
          "seg (mc_mem mc') (mem_base mc) (pre @ (if k = n then Used n # suf else Used n # Unused (k - n) # suf)) (first_free mc') 0"
        using take_chunk_ok [OF assms(1) _ refl, of pre k suf n] Cons.prems Unused q(1) assms(5,6) True by auto
      moreover have "alloc_loop mc n t ?q = Some (take_chunk n t ?q k mc)" for t
        using True sz assms(1) alloc_loop.simps [of mc n t ?q] by (simp add: block_ok_def)
      ultimately show ?thesis using True Unused q(1) by simp
    next
      case False
      have "seg (mc_mem mc) (mem_base mc) (pre @ [c]) (first_free mc) (ld (mc_mem mc) ?q)"
        using Cons.prems Unused by (auto simp: seg_append)
      from Cons.IH [OF this] have "case first_fit n (?q + k) suf of
           None \<Rightarrow> alloc_loop mc n ?q (ld (mc_mem mc) ?q) = Some (Inr (0, mc))
         | Some (p, cs) \<Rightarrow> \<exists>mc'. alloc_loop mc n ?q (ld (mc_mem mc) ?q) = Some (Inr (p + 8, mc'))
             \<and> changed (free_area (mem_base mc) (pre @ c # suf)) mc mc' \<and> seg (mc_mem mc') (mem_base mc) (pre @ c # cs) (first_free mc') 0"
        using Cons.prems Unused by (auto simp: last_free_append add.assoc split: option.splits)
      moreover have "alloc_loop mc n t ?q = alloc_loop mc n ?q (ld (mc_mem mc) ?q)" for t
        using False sz assms(1) alloc_loop.simps [of mc n t ?q] by (simp add: block_ok_def)
      ultimately show ?thesis using False Unused q(1) by (auto split: option.splits)
    qed
  qed
qed

section \<open>Freeing\<close>

lemma free_loop_ok:
  assumes "block_ok mc" and "seg (mc_mem mc) (mem_base mc) (pre0 @ pre) (first_free mc) g" and "seg (mc_mem mc) (mem_base mc + total pre0) pre h g"
    and "total pre0 + total pre < mc_size mc" and "g = 0 \<or> mem_base mc + total pre0 + total pre < g"
  shows "free_loop mc (mem_base mc + total pre0 + total pre) (last_free 0 (mem_base mc) pre0) h
     = Some (Inr (last_free 0 (mem_base mc) (pre0 @ pre), g))"
  using assms(2-)
proof (induction pre arbitrary: pre0 h)
  case Nil
  then show ?case by (subst free_loop.simps) auto
next
  case (Cons c pre)
  let ?q = "mem_base mc + total pre0"
  show ?case
  proof (cases c)
    case (Used k)
    then show ?thesis using Cons.IH [of "pre0 @ [c]" h] Cons.prems by (auto simp: last_free_append add.assoc)
  next
    case (Unused k)
    have h: "h = ?q" "16 \<le> k" "0 < ?q" "seg (mc_mem mc) (?q + k) pre (ld (mc_mem mc) ?q) g"
      using Cons.prems Unused assms(1) by (auto simp: block_ok_def)
    have "CHUNK_NEXT mc ?q = Inr (ld (mc_mem mc) ?q)"
      using chunk_access(1) [OF assms(1), of ?q] Cons.prems Unused h by auto
    moreover have "free_loop mc (mem_base mc + total pre0 + total (c # pre)) ?q (ld (mc_mem mc) ?q)
        = Some (Inr (last_free 0 (mem_base mc) (pre0 @ c # pre), g))"
      using Cons.IH [of "pre0 @ [c]" "ld (mc_mem mc) ?q"] Cons.prems Unused h by (auto simp: last_free_append add.assoc)
    ultimately show ?thesis using h Unused by (subst free_loop.simps) simp
  qed
qed

lemma first_link_range: "seg m a bs f 0 \<Longrightarrow> f = 0 \<or> a \<le> f \<and> f + 16 \<le> a + total bs"
proof (induction bs arbitrary: a f)
  case (Cons b bs)
  show ?case
  proof (cases b)
    case (Used n)
    then have "seg m (a + n) bs f 0" using Cons.prems by simp
    from Cons.IH [OF this] show ?thesis using Used by auto
  qed (use Cons.prems in auto)
qed simp

lemma first_link:
  assumes "seg m a bs f 0" and "0 < a"
  shows "(\<exists>k cs. bs = Unused k # cs \<and> f = a) \<or> ((\<forall>k cs. bs \<noteq> Unused k # cs) \<and> (f = 0 \<or> a < f))"
proof (cases bs)
  case (Cons b cs)
  show ?thesis
  proof (cases b)
    case (Used n)
    then have "seg m (a + n) cs f 0" "16 \<le> n" using assms Cons by auto
    then show ?thesis using first_link_range [of m "a + n" cs f] Used Cons by auto
  qed (use assms Cons in auto)
qed (use assms in simp)

lemma join_right_other: "\<forall>k cs. bs \<noteq> Unused k # cs \<Longrightarrow> join_right n bs = Unused n # bs"
  by (cases "(n, bs)" rule: join_right.cases) auto

lemma join_next_ok:
  assumes ok: "block_ok mc" and c: "mem_base mc \<le> c" "16 \<le> cs" "16 dvd cs" and suf: "seg (mc_mem mc) (c + cs) suf g 0"
    and t: "c + cs + total suf = mem_base mc + mc_size mc"
  shows "\<exists>mc'. join_next c cs (c + cs) g mc = Inr mc' \<and> changed {c..<c + 16} mc mc' \<and> first_free mc' = first_free mc
     \<and> seg (mc_mem mc') c (join_right cs suf) c 0"
proof -
  have b: "c + cs + total suf < 2 ^ 64" "0 < c" using ok t c by (auto simp: block_ok_def)
  have sets: "set_CHUNK_NEXT c v mc = Inr (mc\<lparr>mc_mem := st (mc_mem mc) c v\<rparr>)"
      "set_CHUNK_SIZE c u (mc\<lparr>mc_mem := st (mc_mem mc) c v\<rparr>) = Inr (mc\<lparr>mc_mem := st (st (mc_mem mc) c v) (c + 8) u\<rparr>)" for u v
    using chunk_access(2) [OF ok c(1)] chunk_access(4) [of "mc\<lparr>mc_mem := st (mc_mem mc) c v\<rparr>" c u] ok c t by (auto simp: block_ok_def)
  have ch: "changed {c..<c + 16} mc (mc\<lparr>mc_mem := st (st (mc_mem mc) c v) (c + 8) u\<rparr>)" for u v
    by (auto simp: changed_def st_def)
  consider k s where "suf = Unused k # s" "g = c + cs" | "\<forall>k s. suf \<noteq> Unused k # s" "g \<noteq> c + cs" "g = 0 \<or> c + cs < g"
    using first_link [OF suf] b(2) by auto
  then show ?thesis
  proof cases
    case 1
    let ?e = "c + cs" and ?nn = "ld (mc_mem mc) (c + cs)"
    let ?mc1 = "mc\<lparr>mc_mem := st (mc_mem mc) c ?nn\<rparr>"
    have k: "16 \<le> k" "16 dvd k" "ld (mc_mem mc) (?e + 8) = k" "seg (mc_mem mc) (?e + k) s ?nn 0" using suf 1 by auto
    have r: "CHUNK_NEXT mc ?e = Inr ?nn" "CHUNK_SIZE ?mc1 ?e = Inr k"
      using chunk_access(1) [OF ok, of ?e] chunk_access(3) [of ?mc1 ?e] ok c k t 1 by (auto simp: block_ok_def)
    have "seg (st (st (mc_mem mc) c ?nn) (c + 8) (cs + k)) c (Unused (cs + k) # s) c 0"
      using k c b 1 ld_bound by (simp add: seg_st add.assoc)
    moreover have "join_next c cs ?e g mc = Inr (mc\<lparr>mc_mem := st (st (mc_mem mc) c ?nn) (c + 8) (cs + k)\<rparr>)"
      using 1 r sets b by (simp add: join_next_def)
    ultimately show ?thesis using 1 ch by auto
  next
    case 2
    have "g < 2 ^ 64" using first_link_range [OF suf] b by auto
    then have "seg (st (st (mc_mem mc) c g) (c + 8) cs) c (Unused cs # suf) c 0"
      using suf c b by (simp add: seg_st)
    moreover have "join_next c cs (c + cs) g mc = Inr (mc\<lparr>mc_mem := st (st (mc_mem mc) c g) (c + 8) cs\<rparr>)"
      using 2 sets by (simp add: join_next_def)
    ultimately show ?thesis using 2(1) ch by (auto simp: join_right_other)
  qed
qed

text \<open>A sequence up to and including its last free chunk, and the used chunks behind it.\<close>

lemma split_last_free:
  assumes "last_free 0 a pre \<noteq> 0"
  obtains us k rs where "pre = us @ Unused k # map Used rs" "last_free 0 a pre = a + total us"
  using assms
proof (induction pre arbitrary: thesis rule: rev_induct)
  case (snoc c cs)
  show ?case
  proof (cases c)
    case (Used n)
    then obtain us k rs where "cs = us @ Unused k # map Used rs" "last_free 0 a cs = a + total us"
      using snoc.IH snoc.prems(2) by (auto simp: last_free_append)
    then show ?thesis using snoc.prems(1) [of us k "rs @ [n]"] Used by (simp add: last_free_append)
  next
    case (Unused n)
    then show ?thesis using snoc.prems(1) [of cs n "[]"] by (simp add: last_free_append)
  qed
qed simp

lemma no_last_free: "0 < a \<Longrightarrow> last_free 0 a pre = 0 \<Longrightarrow> \<exists>rs. pre = map Used rs"
proof (induction pre rule: rev_induct)
  case (snoc c cs)
  then show ?case by (cases c) (auto simp: last_free_append, metis list.simps(8,9) map_append)
qed simp

lemma give_back_used: "give_back (cs @ map Used rs) n bs = (if rs = [] then give_back cs n bs else cs @ map Used rs @ join_right n bs)"
proof (induction cs n bs rule: give_back.induct)
  case (1 n bs)
  show ?case
  proof (induction rs)
    case (Cons r rs)
    then show ?case by (cases rs) simp_all
  qed simp
next
  case (2 k n bs)
  have "rs \<noteq> [] \<Longrightarrow> give_back (map Used rs) n bs = map Used rs @ join_right n bs"
  proof (induction rs)
    case (Cons r rs)
    then show ?case by (cases rs) simp_all
  qed simp
  then show ?case by (cases rs) simp_all
qed simp_all

lemma give_back_unused: "give_back (cs @ [Unused k]) n bs = cs @ join_right (k + n) bs"
proof (induction cs)
  case (Cons c cs)
  then show ?case by (cases c; cases "cs @ [Unused k]") simp_all
qed simp

lemma seg_used: "seg m a (map Used rs) f g \<Longrightarrow> f = g \<and> (rs \<noteq> [] \<longrightarrow> 16 \<le> sum_list rs)"
  by (induction rs arbitrary: a) fastforce+

lemma total_used [simp]: "map (chunk_size \<circ> Used) rs = rs"
  by (induction rs) simp_all

lemma join_right_area: "16 \<le> n \<Longrightarrow> {c..<c + 16} \<subseteq> free_area c (join_right n bs)"
  by (cases "(n, bs)" rule: join_right.cases) auto

lemma free_chunk_ok:
  assumes ok: "block_ok mc" and pre: "seg (mc_mem mc) (mem_base mc) pre (first_free mc) g" and p: "p = mem_base mc + total pre"
    and suf: "seg (mc_mem mc) p (Used n # suf) g 0" and t: "total pre + n + total suf = mc_size mc"
  shows "\<exists>mc'. free_chunk p (last_free 0 (mem_base mc) pre) g mc = Inr mc'
     \<and> changed (free_area (mem_base mc) (give_back pre n suf)) mc mc'
     \<and> seg (mc_mem mc') (mem_base mc) (give_back pre n suf) (first_free mc') 0"
proof -
  let ?b = "mem_base mc" and ?t = "last_free 0 (mem_base mc) pre"
  have n: "16 \<le> n" "16 dvd n" "ld (mc_mem mc) p = n" "seg (mc_mem mc) (p + n) suf g 0" using suf by auto
  have b: "?b \<le> p" "p + n + total suf = ?b + mc_size mc" "p + n < 2 ^ 64" "0 < ?b" using ok p t by (auto simp: block_ok_def)
  have rd: "CHUNK_NEXT mc p = Inr n" using chunk_access(1) [OF ok b(1)] n b by auto
  have join: "\<exists>mc'. join_next p n (p + n) g mc1 = Inr mc' \<and> changed {p..<p + 16} mc1 mc' \<and> first_free mc' = first_free mc1
       \<and> seg (mc_mem mc') p (join_right n suf) p 0" if "changed (free_area ?b pre) mc mc1" for mc1
  proof (rule join_next_ok)
    have "free_area ?b pre \<inter> {p + n..<p + n + total suf} = {}" using free_area_range [of ?b pre] p by fastforce
    then show "seg (mc_mem mc1) (p + n) suf g 0" using changed_seg [OF that] n(4) by simp
  qed (use that ok b n in \<open>auto simp: changed_block changed_def\<close>)
  have fin: ?thesis if m1: "changed (free_area ?b pre) mc mc1" "seg (mc_mem mc1) ?b pre (first_free mc1) p"
      and eq: "free_chunk p ?t g mc = join_next p n (p + n) g mc1" and gb: "give_back pre n suf = pre @ join_right n suf" for mc1
  proof -
    obtain mc' where m: "join_next p n (p + n) g mc1 = Inr mc'" "changed {p..<p + 16} mc1 mc'" "first_free mc' = first_free mc1"
        "seg (mc_mem mc') p (join_right n suf) p 0" using join [OF m1(1)] by blast
    have "seg (mc_mem mc') ?b pre (first_free mc') p" using m1(2) changed_seg [OF m(2), of ?b pre] m(3) p by auto
    moreover have "changed (free_area ?b (give_back pre n suf)) mc mc'"
      by (rule changed_trans [OF m1(1) m(2)]) (use gb p join_right_area [OF n(1), of p suf] in auto)
    ultimately show ?thesis using m eq gb p by (auto simp: seg_append)
  qed
  show ?thesis
  proof (cases "?t = 0")
    case True
    obtain rs where rs: "pre = map Used rs" using no_last_free [OF b(4) True] by blast
    then have "give_back pre n suf = pre @ join_right n suf" using give_back_used [of "[]" rs n suf] by (cases rs) auto
    moreover have "seg (mc_mem mc) ?b pre p p" using seg_relink [OF pre, of p] True b n by auto
    ultimately show ?thesis using True rd b by (intro fin [of "mc\<lparr>first_free := p\<rparr>"]) (auto simp: changed_def free_chunk_def)
  next
    case False
    obtain us k rs where u: "pre = us @ Unused k # map Used rs" "?t = ?b + total us" by (rule split_last_free [OF False])
    have k: "16 \<le> k" "16 dvd k" "ld (mc_mem mc) (?t + 8) = k" "seg (mc_mem mc) ?b us (first_free mc) ?t"
        "seg (mc_mem mc) (?t + k) (map Used rs) (ld (mc_mem mc) ?t) g"
      using pre u by (auto simp: seg_append)
    have r: "rs \<noteq> [] \<longrightarrow> 16 \<le> sum_list rs" using seg_used [OF k(5)] by simp
    have pk: "p = ?t + k + sum_list rs" "?b \<le> ?t" using p u by auto
    have sz: "CHUNK_SIZE mc ?t = Inr k" using chunk_access(3) [OF ok pk(2)] k pk b by auto
    show ?thesis
    proof (cases rs)
      case Nil
      have "\<exists>mc'. join_next ?t (k + n) (?t + (k + n)) g mc = Inr mc' \<and> changed {?t..<?t + 16} mc mc' \<and> first_free mc' = first_free mc
           \<and> seg (mc_mem mc') ?t (join_right (k + n) suf) ?t 0"
        by (rule join_next_ok) (use ok pk k n b Nil in \<open>auto simp: add.assoc\<close>)
      then obtain mc' where m: "join_next ?t (k + n) (?t + (k + n)) g mc = Inr mc'" "changed {?t..<?t + 16} mc mc'" "first_free mc' = first_free mc"
          "seg (mc_mem mc') ?t (join_right (k + n) suf) ?t 0" by blast
      have gb: "give_back pre n suf = us @ join_right (k + n) suf" using u(1) Nil by (simp add: give_back_unused)
      have "seg (mc_mem mc') ?b us (first_free mc') ?t" using k(4) changed_seg [OF m(2), of ?b us] m(3) u(2) by auto
      moreover have "changed (free_area ?b (give_back pre n suf)) mc mc'"
        by (rule changed_trans [OF m(2) changed_refl [of "{}"]]) (use gb u(2) k(1) join_right_area [of "k + n" ?t suf] in auto)
      moreover have "free_chunk p ?t g mc = join_next ?t (k + n) (?t + (k + n)) g mc"
        using False rd sz pk Nil b by (simp add: free_chunk_def add.assoc)
      ultimately show ?thesis using m gb u(2) by (auto simp: seg_append)
    next
      case (Cons r' rs')
      obtain mc1 where m1: "relink ?t p mc = Inr mc1" "changed (free_area ?b pre) mc mc1" "seg (mc_mem mc1) ?b pre (first_free mc1) p"
        using relink_ok [OF ok pre, of p] b p t by auto
      have "give_back pre n suf = pre @ join_right n suf" using give_back_used [of "us @ [Unused k]" rs n suf] u(1) Cons by simp
      moreover have "16 \<le> sum_list rs" using r Cons by simp
      then have "?t + k < p" using pk(1) by linarith
      then have "add64 ?t k \<noteq> p" using b by simp
      then have "free_chunk p ?t g mc = join_next p n (p + n) g mc1"
        using False rd sz b m1(1) by (simp add: free_chunk_def relink_def Let_def)
      ultimately show ?thesis by (rule fin [OF m1(2,3), rotated])
    qed
  qed
qed

section \<open>The invariant\<close>

text \<open>No two free chunks are neighbours.\<close>

fun coalesced :: "chunk list \<Rightarrow> bool" where
  "coalesced (Unused _ # Unused _ # _) = False"
| "coalesced (_ # bs) = coalesced bs"
| "coalesced [] = True"

definition cache_ok :: "memcache \<Rightarrow> chunk list \<Rightarrow> bool" where
  "cache_ok mc bs \<longleftrightarrow> block_ok mc \<and> total bs = mc_size mc \<and> coalesced bs \<and> seg (mc_mem mc) (mem_base mc) bs (first_free mc) 0"

text \<open>The chunks that are in use, with their addresses.\<close>

primrec used_at :: "nat \<Rightarrow> chunk list \<Rightarrow> (nat \<times> nat) list" where
  "used_at a [] = []"
| "used_at a (b # bs) = (case b of Used n \<Rightarrow> (a, n) # used_at (a + n) bs | Unused n \<Rightarrow> used_at (a + n) bs)"

lemma used_at_append [simp]: "used_at a (bs @ cs) = used_at a bs @ used_at (a + total bs) cs"
  by (induction bs arbitrary: a) (auto simp: add.assoc split: chunk.splits)

lemma used_at_split: "(p, n) \<in> set (used_at a bs) \<Longrightarrow> \<exists>pre suf. bs = pre @ Used n # suf \<and> p = a + total pre"
proof (induction bs arbitrary: a)
  case (Cons b bs)
  consider "b = Used n" "p = a" | "(p, n) \<in> set (used_at (a + chunk_size b) bs)"
    using Cons.prems by (cases b) auto
  then show ?case
  proof cases
    case 1
    then have "b # bs = [] @ Used n # bs \<and> p = a + total []" by simp
    then show ?thesis by blast
  next
    case 2
    from Cons.IH [OF 2] obtain pre suf where "bs = pre @ Used n # suf" "p = a + chunk_size b + total pre" by blast
    then have "b # bs = (b # pre) @ Used n # suf \<and> p = a + total (b # pre)" by simp
    then show ?thesis by blast
  qed
qed simp

lemma used_at_range: "(p, n) \<in> set (used_at a bs) \<Longrightarrow> a \<le> p \<and> p + n \<le> a + total bs"
  using used_at_split [of p n a bs] by auto

lemma used_at_apart:
  assumes "seg m a bs f g" and "(p, n) \<in> set (used_at a bs)" and "(q, k) \<in> set (used_at a bs)"
  shows "(p, n) = (q, k) \<or> p + n \<le> q \<or> q + k \<le> p"
proof -
  obtain pre suf where s: "bs = pre @ Used n # suf" "p = a + total pre" using used_at_split [OF assms(2)] by blast
  then have "(q, k) \<in> set (used_at a pre) \<or> (q, k) = (p, n) \<or> (q, k) \<in> set (used_at (p + n) suf)" using assms(3) by auto
  then show ?thesis using used_at_range [of q k a pre] used_at_range [of q k "p + n" suf] s by auto
qed

lemma used_at_size: "seg m a bs f g \<Longrightarrow> (p, n) \<in> set (used_at a bs) \<Longrightarrow> 16 \<le> n"
  using used_at_split [of p n a bs] by (auto simp: seg_append)

lemma used_not_free:
  assumes "(p, n) \<in> set (used_at a bs)"
  shows "{p..<p + n} \<inter> free_area a bs = {}"
proof -
  obtain pre suf where s: "bs = pre @ Used n # suf" "p = a + total pre" using used_at_split [OF assms] by blast
  then have "free_area a bs = free_area a pre \<union> free_area (p + n) suf" by simp
  then show ?thesis using free_area_range [of a pre] free_area_range [of "p + n" suf] s(2) by fastforce
qed

lemma first_fit_spec:
  assumes "first_fit n a bs = Some (p, cs)"
  shows "total cs = total bs \<and> set (used_at a cs) = insert (p, n) (set (used_at a bs)) \<and> {p..<p + n} \<subseteq> free_area a bs"
  using assms by (induction n a bs arbitrary: p cs rule: first_fit.induct) (fastforce split: if_splits option.splits)+

lemma coalesced_Cons: "coalesced (b # bs) \<longleftrightarrow> coalesced bs \<and> (bs = [] \<or> b \<in> range Used \<or> hd bs \<in> range Used)"
  by (cases b; cases bs; cases "hd bs") auto

lemma coalesced_append:
  "coalesced (bs @ cs) \<longleftrightarrow> coalesced bs \<and> coalesced cs \<and> (bs = [] \<or> cs = [] \<or> last bs \<in> range Used \<or> hd cs \<in> range Used)"
  by (induction bs) (auto simp: coalesced_Cons)

lemma first_fit_hd: "first_fit n a bs = Some (p, cs) \<Longrightarrow> bs \<noteq> [] \<and> cs \<noteq> [] \<and> (hd bs \<in> range Used \<longrightarrow> hd cs \<in> range Used)"
  by (cases "(n, a, bs)" rule: first_fit.cases) (auto split: if_splits option.splits)

lemma first_fit_coalesced: "first_fit n a bs = Some (p, cs) \<Longrightarrow> coalesced bs \<Longrightarrow> coalesced cs"
proof (induction n a bs arbitrary: p cs rule: first_fit.induct)
  case (3 n a k bs)
  then show ?case using first_fit_hd [of n "a + k" bs] by (auto simp: coalesced_Cons split: if_splits)
qed (auto simp: coalesced_Cons)

lemma join_right_spec: "total (join_right n bs) = n + total bs" "used_at a (join_right n bs) = used_at (a + n) bs"
    "coalesced bs \<Longrightarrow> coalesced (join_right n bs)"
  by (cases "(n, bs)" rule: join_right.cases; auto simp: coalesced_Cons add.assoc)+

lemma give_back_cases: "give_back pre n bs = pre @ join_right n bs \<and> (pre = [] \<or> last pre \<in> range Used)
   \<or> (\<exists>cs k. pre = cs @ [Unused k] \<and> give_back pre n bs = cs @ join_right (k + n) bs)"
proof (cases pre rule: rev_cases)
  case (snoc cs c)
  then show ?thesis using give_back_used [of cs "[_]" n bs] give_back_unused [of cs _ n bs] by (cases c) auto
qed simp

lemma give_back_spec:
  "total (give_back pre n bs) = total pre + n + total bs" "used_at a (give_back pre n bs) = used_at a pre @ used_at (a + total pre + n) bs"
    "coalesced (pre @ Used n # bs) \<Longrightarrow> coalesced (give_back pre n bs)"
  using give_back_cases [of pre n bs] by (auto simp: join_right_spec add.assoc coalesced_append coalesced_Cons)

section \<open>Alloc and Free\<close>

text \<open>Reading a request: the size of the chunk that serves it.\<close>

lemma request_size:
  assumes "0 < n" and "n + 24 \<le> 2 ^ 64"
  shows "n + 8 \<le> COUNT_ALIGNED (add64 n 8)" "16 \<le> COUNT_ALIGNED (add64 n 8)" "16 dvd COUNT_ALIGNED (add64 n 8)"
proof -
  have a: "add64 n 8 = n + 8" using assms by simp
  show "n + 8 \<le> COUNT_ALIGNED (add64 n 8)" "16 dvd COUNT_ALIGNED (add64 n 8)"
    unfolding a using COUNT_ALIGNED [of "n + 8"] assms by auto
  then show "16 \<le> COUNT_ALIGNED (add64 n 8)" using assms dvd_imp_le by fastforce
qed

lemma Init_ok:
  assumes "0 < base" and "0 < COUNT_ALIGNED n" and "base + COUNT_ALIGNED n < 2 ^ 64"
  shows "\<exists>mc'. Init base n mc = Inr (True, mc') \<and> cache_ok mc' [Unused (COUNT_ALIGNED n)]
     \<and> mem_base mc' = base \<and> mc_size mc' = COUNT_ALIGNED n"
proof -
  let ?n = "COUNT_ALIGNED n" and ?mc = "mc\<lparr>mem_base := base, mc_size := COUNT_ALIGNED n, first_free := base\<rparr>"
  have d: "16 dvd ?n" by (simp add: COUNT_ALIGNED_def Let_def minus_mod_eq_mult_div)
  then have n: "16 \<le> ?n" using assms(2) by (rule dvd_imp_le)
  have s: "set_CHUNK_NEXT base 0 ?mc = Inr (?mc\<lparr>mc_mem := st (mc_mem mc) base 0\<rparr>)"
      "set_CHUNK_SIZE base ?n (?mc\<lparr>mc_mem := st (mc_mem mc) base 0\<rparr>) = Inr (?mc\<lparr>mc_mem := st (st (mc_mem mc) base 0) (base + 8) ?n\<rparr>)"
    using n assms by (auto simp: set_CHUNK_SIZE_def set_CHUNK_NEXT_def inside_def)
  then show ?thesis using assms n d by (auto simp: Init_def Let_def cache_ok_def block_ok_def)
qed

lemma Alloc_ok:
  assumes "cache_ok mc bs" and "0 < n" and "n + 24 \<le> 2 ^ 64"
  shows "case first_fit (COUNT_ALIGNED (add64 n 8)) (mem_base mc) bs of
       None \<Rightarrow> Alloc n mc = Some (Inr (0, mc))
     | Some (p, cs) \<Rightarrow> \<exists>mc'. Alloc n mc = Some (Inr (p + 8, mc')) \<and> changed (free_area (mem_base mc) bs) mc mc' \<and> cache_ok mc' cs"
proof -
  note l = alloc_loop_ok [of mc "[]" "first_free mc" bs, OF _ _ _ _ request_size(2,3) [OF assms(2,3)]]
  show ?thesis
    using l assms(1,2) first_fit_spec first_fit_coalesced
    by (fastforce simp: cache_ok_def Alloc_def changed_block split: option.splits simp: changed_def)
qed

lemma Free_ok:
  assumes "cache_ok mc (pre @ Used n # suf)"
  shows "\<exists>mc'. Free (mem_base mc + total pre + 8) mc = Some (Inr mc')
     \<and> changed (free_area (mem_base mc) (give_back pre n suf)) mc mc' \<and> cache_ok mc' (give_back pre n suf)"
proof -
  let ?p = "mem_base mc + total pre"
  have ok: "block_ok mc" "total pre + n + total suf = mc_size mc" "coalesced (pre @ Used n # suf)" using assms by (auto simp: cache_ok_def)
  obtain g where g: "seg (mc_mem mc) (mem_base mc) pre (first_free mc) g" "seg (mc_mem mc) ?p (Used n # suf) g 0"
    using assms by (auto simp: cache_ok_def seg_append)
  then have "16 \<le> n" "seg (mc_mem mc) (?p + n) suf g 0" by auto
  then have "g = 0 \<or> ?p < g" using first_link_range [of _ "?p + n" suf g] by fastforce
  then have "free_loop mc ?p 0 (first_free mc) = Some (Inr (last_free 0 (mem_base mc) pre, g))"
    using free_loop_ok [of mc "[]" pre g] ok g(1) \<open>16 \<le> n\<close> by auto
  moreover have "(?p + 8 + 2 ^ 64 - 8) mod 2 ^ 64 = ?p" using ok by (auto simp: block_ok_def)
  ultimately have "Free (?p + 8) mc = Some (free_chunk ?p (last_free 0 (mem_base mc) pre) g mc)"
    by (simp only: Free_def Let_def option.case bind_res.simps prod.case)
  moreover obtain mc' where m: "free_chunk ?p (last_free 0 (mem_base mc) pre) g mc = Inr mc'"
      "changed (free_area (mem_base mc) (give_back pre n suf)) mc mc'"
      "seg (mc_mem mc') (mem_base mc) (give_back pre n suf) (first_free mc') 0"
    using free_chunk_ok [OF ok(1) g(1) refl g(2) ok(2)] by blast
  ultimately show ?thesis
    using ok m changed_block [OF m(2)] by (auto simp: cache_ok_def give_back_spec changed_def)
qed

text \<open>A byte of a chunk in use, behind its size, is the user's.\<close>

lemma write_ok:
  assumes "cache_ok mc bs" and "(a, k) \<in> set (used_at (mem_base mc) bs)" and "a + 8 \<le> b" "b < a + k"
  shows "cache_ok (mc\<lparr>mc_mem := (mc_mem mc)(b := v)\<rparr>) bs"
proof -
  obtain pre suf where s: "bs = pre @ Used k # suf" "a = mem_base mc + total pre" using used_at_split [OF assms(2)] by blast
  have f: "seg ((mc_mem mc)(b := v)) (mem_base mc) pre f g = seg (mc_mem mc) (mem_base mc) pre f g"
      "seg ((mc_mem mc)(b := v)) (a + k) suf f g = seg (mc_mem mc) (a + k) suf f g" for f g
    by (rule seg_frame; use assms s in auto)+
  have "ld ((mc_mem mc)(b := v)) a = ld (mc_mem mc) a" by (rule ld_cong) (use assms in auto)
  then show ?thesis using assms(1) f s by (simp add: cache_ok_def seg_append block_ok_def)
qed

section \<open>A cache in use\<close>

text \<open>
  The cache and the blocks its users hold, each with the size that was asked for. A user may ask for a
  block, give back a block it holds, and write a byte of such a block.
\<close>

inductive cstep :: "memcache \<times> (nat \<times> nat) list \<Rightarrow> memcache \<times> (nat \<times> nat) list \<Rightarrow> bool" where
  got: "n + 24 \<le> 2 ^ 64 \<Longrightarrow> Alloc n mc = Some (Inr (p, mc')) \<Longrightarrow> p \<noteq> 0 \<Longrightarrow> cstep (mc, L) (mc', (p, n) # L)"
| full: "n + 24 \<le> 2 ^ 64 \<Longrightarrow> Alloc n mc = Some (Inr (0, mc')) \<Longrightarrow> cstep (mc, L) (mc', L)"
| freed: "(p, n) \<in> set L \<Longrightarrow> Free p mc = Some (Inr mc') \<Longrightarrow> cstep (mc, L) (mc', remove1 (p, n) L)"
| wrote: "(p, n) \<in> set L \<Longrightarrow> p \<le> b \<Longrightarrow> b < p + n \<Longrightarrow> cstep (mc, L) (mc\<lparr>mc_mem := (mc_mem mc)(b := v)\<rparr>, L)"

inductive_cases cstep_cases: "cstep (mc, L) s"

text \<open>The blocks the users hold are the chunks in use.\<close>

definition held_ok :: "nat \<Rightarrow> chunk list \<Rightarrow> (nat \<times> nat) list \<Rightarrow> bool" where
  "held_ok base bs L \<longleftrightarrow> distinct (map fst L) \<and> fst ` set L = (\<lambda>(a, k). a + 8) ` set (used_at base bs)
     \<and> (\<forall>(p, n) \<in> set L. 0 < n \<and> (\<exists>k. (p - 8, k) \<in> set (used_at base bs) \<and> 8 \<le> p \<and> n + 8 \<le> k))"

lemma held_chunk:
  assumes "held_ok base bs L" and "(p, n) \<in> set L"
  obtains a k where "(a, k) \<in> set (used_at base bs)" "p = a + 8" "n + 8 \<le> k" "0 < n"
proof -
  have "\<forall>(p, n) \<in> set L. 0 < n \<and> (\<exists>k. (p - 8, k) \<in> set (used_at base bs) \<and> 8 \<le> p \<and> n + 8 \<le> k)" using assms(1) by (simp add: held_ok_def)
  then obtain k where "0 < n" "(p - 8, k) \<in> set (used_at base bs)" "8 \<le> p" "n + 8 \<le> k" using assms(2) by auto
  then show ?thesis by (intro that [of "p - 8" k]) auto
qed

lemma held_Cons:
  assumes "held_ok base bs L" and "set (used_at base cs) = insert (q, k) (set (used_at base bs))"
    and "q \<notin> fst ` set (used_at base bs)" and "n + 8 \<le> k" and "0 < n"
  shows "held_ok base cs ((q + 8, n) # L)"
  unfolding held_ok_def
proof (intro conjI ballI)
  have f: "distinct (map fst L)" "fst ` set L = (\<lambda>(a, k). a + 8) ` set (used_at base bs)" using assms(1) by (simp_all add: held_ok_def)
  then show "fst ` set ((q + 8, n) # L) = (\<lambda>(a, k). a + 8) ` set (used_at base cs)" using assms(2) by simp
  have "q + 8 \<notin> fst ` set L" unfolding f(2) using assms(3) by force
  then show "distinct (map fst ((q + 8, n) # L))" using f(1) by simp
  fix x assume x: "x \<in> set ((q + 8, n) # L)"
  obtain p m where pm: "x = (p, m)" by (cases x)
  have "0 < m \<and> (\<exists>k. (p - 8, k) \<in> set (used_at base cs) \<and> 8 \<le> p \<and> m + 8 \<le> k)"
  proof (cases "(p, m) = (q + 8, n)")
    case True
    then show ?thesis using assms(2,4,5) by auto
  next
    case False
    then have "(p, m) \<in> set L" using x pm by auto
    then obtain a j where "(a, j) \<in> set (used_at base bs)" "p = a + 8" "m + 8 \<le> j" "0 < m" by (rule held_chunk [OF assms(1)])
    then show ?thesis using assms(2) by auto
  qed
  then show "case x of (p, n) \<Rightarrow> 0 < n \<and> (\<exists>k. (p - 8, k) \<in> set (used_at base cs) \<and> 8 \<le> p \<and> n + 8 \<le> k)" using pm by simp
qed

lemma held_remove:
  assumes "held_ok base bs L" and "(q + 8, n) \<in> set L" and "set (used_at base bs) = insert (q, k) (set (used_at base cs))"
    and "q \<notin> fst ` set (used_at base cs)"
  shows "held_ok base cs (remove1 (q + 8, n) L)"
  unfolding held_ok_def
proof (intro conjI ballI)
  have f: "distinct (map fst L)" "fst ` set L = (\<lambda>(a, k). a + 8) ` set (used_at base bs)" using assms(1) by (simp_all add: held_ok_def)
  then have "distinct L" by (simp add: distinct_map)
  then have r: "set (remove1 (q + 8, n) L) = set L - {(q + 8, n)}" by (rule set_remove1_eq)
  show "distinct (map fst (remove1 (q + 8, n) L))" using f(1) r \<open>distinct L\<close> by (simp add: distinct_map inj_on_diff)
  have o: "p \<noteq> q + 8" if "(p, m) \<in> set L - {(q + 8, n)}" for p m
    using that eq_key_imp_eq_value [OF f(1), of "q + 8" m n] assms(2) by auto
  have "fst ` (set L - {(q + 8, n)}) = fst ` set L - {q + 8}" using o by force
  also have "\<dots> = (\<lambda>(a, k). a + 8) ` set (used_at base cs)" unfolding f(2) assms(3) using assms(4) by force
  finally show "fst ` set (remove1 (q + 8, n) L) = (\<lambda>(a, k). a + 8) ` set (used_at base cs)" unfolding r .
  fix x assume x: "x \<in> set (remove1 (q + 8, n) L)"
  obtain p m where pm: "x = (p, m)" by (cases x)
  then have l: "(p, m) \<in> set L - {(q + 8, n)}" using x r by simp
  then obtain a j where "(a, j) \<in> set (used_at base bs)" "p = a + 8" "m + 8 \<le> j" "0 < m" using held_chunk [OF assms(1), of p m] by blast
  then show "case x of (p, n) \<Rightarrow> 0 < n \<and> (\<exists>k. (p - 8, k) \<in> set (used_at base cs) \<and> 8 \<le> p \<and> n + 8 \<le> k)"
    using assms(3) o [OF l] pm by auto
qed

definition cinv :: "nat \<Rightarrow> nat \<Rightarrow> memcache \<times> (nat \<times> nat) list \<Rightarrow> bool" where
  "cinv base sz = (\<lambda>(mc, L). mem_base mc = base \<and> mc_size mc = sz \<and> (\<exists>bs. cache_ok mc bs \<and> held_ok base bs L))"

lemma used_not_free_start: "(p, n) \<in> set (used_at a bs) \<Longrightarrow> 0 < n \<Longrightarrow> p \<notin> free_area a bs"
  by (rule disjoint_iff [THEN iffD1, rule_format, OF used_not_free]) auto

text \<open>What a call does to a cache that satisfies the invariant.\<close>

lemma Alloc_held:
  assumes "cache_ok mc bs" and "held_ok (mem_base mc) bs L" and "n + 24 \<le> 2 ^ 64"
  shows "\<exists>p mc' cs. Alloc n mc = Some (Inr (p, mc')) \<and> changed (free_area (mem_base mc) bs) mc mc' \<and> cache_ok mc' cs
     \<and> held_ok (mem_base mc) cs (if p = 0 then L else (p, n) # L)"
proof (cases "n = 0")
  case True
  then show ?thesis using assms by (auto simp: Alloc_def intro: exI [of _ bs])
next
  case False
  let ?k = "COUNT_ALIGNED (add64 n 8)"
  note a = Alloc_ok [OF assms(1) _ assms(3)]
  show ?thesis
  proof (cases "first_fit ?k (mem_base mc) bs")
    case None
    then show ?thesis using a False assms by (auto intro: exI [of _ bs])
  next
    case (Some r)
    obtain q cs where r: "first_fit ?k (mem_base mc) bs = Some (q, cs)" using Some by (cases r) auto
    obtain mc' where m: "Alloc n mc = Some (Inr (q + 8, mc'))" "changed (free_area (mem_base mc) bs) mc mc'" "cache_ok mc' cs"
      using a False r by auto
    have k: "16 \<le> ?k" "n + 8 \<le> ?k" using request_size False assms(3) by auto
    then have "q \<in> free_area (mem_base mc) bs" using first_fit_spec [OF r] by auto
    then have "q \<notin> fst ` set (used_at (mem_base mc) bs)"
      using used_not_free_start used_at_size assms(1) by (force simp: cache_ok_def)
    then have "held_ok (mem_base mc) cs ((q + 8, n) # L)"
      using held_Cons [OF assms(2)] first_fit_spec [OF r] k False by auto
    then show ?thesis using m by auto
  qed
qed

lemma Free_held:
  assumes "cache_ok mc bs" and "held_ok (mem_base mc) bs L" and "(p, n) \<in> set L"
  shows "\<exists>mc' cs. Free p mc = Some (Inr mc') \<and> changed (free_area (mem_base mc) cs) mc mc' \<and> cache_ok mc' cs
     \<and> held_ok (mem_base mc) cs (remove1 (p, n) L)"
proof -
  obtain a k where c: "(a, k) \<in> set (used_at (mem_base mc) bs)" "p = a + 8" using held_chunk [OF assms(2,3)] by blast
  obtain pre suf where s: "bs = pre @ Used k # suf" "a = mem_base mc + total pre" using used_at_split [OF c(1)] by blast
  let ?cs = "give_back pre k suf"
  have k: "16 \<le> k" using used_at_size c(1) assms(1) by (auto simp: cache_ok_def)
  obtain mc' where m: "Free p mc = Some (Inr mc')" "changed (free_area (mem_base mc) ?cs) mc mc'" "cache_ok mc' ?cs"
    using Free_ok [of mc pre k suf] assms(1) s c(2) by auto
  have u: "used_at (mem_base mc) ?cs = used_at (mem_base mc) pre @ used_at (a + k) suf" using s(2) by (simp add: give_back_spec)
  have "(a, j) \<notin> set (used_at (mem_base mc) ?cs)" for j
  proof
    assume j: "(a, j) \<in> set (used_at (mem_base mc) ?cs)"
    have "16 \<le> j" using used_at_size [of "mc_mem mc'" "mem_base mc'" ?cs] j m(2,3) by (auto simp: cache_ok_def changed_def)
    then show False
      using j u s(2) k used_at_range [of a j "a + k" suf] used_at_range [of a j "mem_base mc" pre] by auto
  qed
  then have "a \<notin> fst ` set (used_at (mem_base mc) ?cs)" by force
  moreover have "set (used_at (mem_base mc) bs) = insert (a, k) (set (used_at (mem_base mc) ?cs))" using u s by auto
  ultimately have "held_ok (mem_base mc) ?cs (remove1 (p, n) L)"
    using held_remove [OF assms(2), of a n k ?cs] assms(3) c(2) by auto
  then show ?thesis using m by blast
qed

lemma cstep_inv: "cstep s s' \<Longrightarrow> cinv base sz s \<Longrightarrow> cinv base sz s'"
proof (induction rule: cstep.induct)
  case (got n mc p mc' L)
  then obtain bs where "cache_ok mc bs" "held_ok (mem_base mc) bs L" by (auto simp: cinv_def)
  from Alloc_held [OF this got.hyps(1)] show ?case using got by (auto simp: cinv_def changed_def)
next
  case (full n mc mc' L)
  then obtain bs where "cache_ok mc bs" "held_ok (mem_base mc) bs L" by (auto simp: cinv_def)
  from Alloc_held [OF this full.hyps(1)] show ?case using full by (auto simp: cinv_def changed_def)
next
  case (freed p n L mc mc')
  then obtain bs where "cache_ok mc bs" "held_ok (mem_base mc) bs L" by (auto simp: cinv_def)
  from Free_held [OF this freed.hyps(1)] show ?case using freed by (auto simp: cinv_def changed_def)
next
  case (wrote p n L b mc v)
  then obtain bs where bs: "cache_ok mc bs" "held_ok base bs L" "mem_base mc = base" "mc_size mc = sz" by (auto simp: cinv_def)
  then obtain a k where "(a, k) \<in> set (used_at base bs)" "p = a + 8" "n + 8 \<le> k" using held_chunk wrote.hyps(1) by blast
  then have "cache_ok (mc\<lparr>mc_mem := (mc_mem mc)(b := v)\<rparr>) bs" using write_ok [OF bs(1)] bs(3) wrote.hyps by auto
  then show ?case using bs by (auto simp: cinv_def)
qed

lemma cinv_reachable:
  assumes "0 < base" and "0 < COUNT_ALIGNED n" and "base + COUNT_ALIGNED n < 2 ^ 64" and "Init base n mc0 = Inr (ok, mc1)"
    and "cstep\<^sup>*\<^sup>* (mc1, []) s"
  shows "cinv base (COUNT_ALIGNED n) s"
  using assms(5)
proof (induction rule: rtranclp_induct)
  case base
  have "cache_ok mc1 [Unused (COUNT_ALIGNED n)]" "mem_base mc1 = base" "mc_size mc1 = COUNT_ALIGNED n"
    using Init_ok [OF assms(1-3), of mc0] assms(4) by auto
  moreover have "held_ok base [Unused (COUNT_ALIGNED n)] []" by (simp add: held_ok_def)
  ultimately show ?case unfolding cinv_def by blast
qed (rule cstep_inv)

lemma held_range:
  assumes "cache_ok mc bs" and "held_ok (mem_base mc) bs L" and "(p, n) \<in> set L"
  shows "mem_base mc + 8 \<le> p \<and> p + n \<le> mem_base mc + mc_size mc"
proof -
  obtain a k where "(a, k) \<in> set (used_at (mem_base mc) bs)" "p = a + 8" "n + 8 \<le> k" by (rule held_chunk [OF assms(2,3)])
  then show ?thesis using used_at_range [of a k "mem_base mc" bs] assms(1) by (auto simp: cache_ok_def)
qed

lemma held_apart:
  assumes "cache_ok mc bs" and "held_ok (mem_base mc) bs L" and "(p, n) \<in> set L" and "(q, k) \<in> set L"
  shows "(p, n) = (q, k) \<or> p + n \<le> q \<or> q + k \<le> p"
proof -
  obtain a i where a: "(a, i) \<in> set (used_at (mem_base mc) bs)" "p = a + 8" "n + 8 \<le> i" by (rule held_chunk [OF assms(2,3)])
  obtain b j where b: "(b, j) \<in> set (used_at (mem_base mc) bs)" "q = b + 8" "k + 8 \<le> j" by (rule held_chunk [OF assms(2,4)])
  have "(a, i) = (b, j) \<or> a + i \<le> b \<or> b + j \<le> a"
    using used_at_apart [OF _ a(1) b(1)] assms(1) unfolding cache_ok_def by blast
  moreover have "p = q \<Longrightarrow> n = k" using eq_key_imp_eq_value [of L p n k] assms(2-4) by (auto simp: held_ok_def)
  ultimately show ?thesis using a b by auto
qed

text \<open>The calls write only to bytes that belong to no block.\<close>

lemma held_unchanged:
  assumes "held_ok base bs L" and "changed (free_area base bs) mc mc'" and "(p, n) \<in> set L" and "p \<le> b" "b < p + n"
  shows "mc_mem mc' b = mc_mem mc b"
proof -
  obtain a k where "(a, k) \<in> set (used_at base bs)" "p = a + 8" "n + 8 \<le> k" by (rule held_chunk [OF assms(1,3)])
  then have "b \<notin> free_area base bs" using used_not_free [of a k base bs] assms(4,5) by (auto simp: disjoint_iff)
  then show ?thesis using assms(2) by (simp add: changed_def)
qed

lemma Alloc_keeps:
  assumes "cache_ok mc bs" and "held_ok (mem_base mc) bs L" and "n + 24 \<le> 2 ^ 64"
  shows "\<exists>p mc'. Alloc n mc = Some (Inr (p, mc')) \<and> (\<forall>(q, k) \<in> set L. \<forall>b. q \<le> b \<and> b < q + k \<longrightarrow> mc_mem mc' b = mc_mem mc b)"
  using Alloc_held [OF assms] held_unchanged [OF assms(2)] by blast

lemma Free_keeps:
  assumes "cache_ok mc bs" and "held_ok (mem_base mc) bs L" and "(p, n) \<in> set L"
  shows "\<exists>mc'. Free p mc = Some (Inr mc') \<and> (\<forall>(q, k) \<in> set L - {(p, n)}. \<forall>b. q \<le> b \<and> b < q + k \<longrightarrow> mc_mem mc' b = mc_mem mc b)"
proof -
  obtain mc' cs where m: "Free p mc = Some (Inr mc')" "changed (free_area (mem_base mc) cs) mc mc'" "held_ok (mem_base mc) cs (remove1 (p, n) L)"
    using Free_held [OF assms] by blast
  have "distinct L" using assms(2) by (simp add: held_ok_def distinct_map)
  then have "set (remove1 (p, n) L) = set L - {(p, n)}" by (rule set_remove1_eq)
  then show ?thesis using m(1) held_unchanged [OF m(3,2)] by blast
qed

lemma aligned_bound: "16 dvd n \<Longrightarrow> n < 2 ^ 64 \<Longrightarrow> n + 16 \<le> (2 :: nat) ^ 64"
  by (elim dvdE) simp

lemma COUNT_ALIGNED_id: "16 dvd n \<Longrightarrow> n + 15 < 2 ^ 64 \<Longrightarrow> COUNT_ALIGNED n = n"
  by (auto simp: COUNT_ALIGNED_def elim!: dvdE)

lemma coalesced_free: "coalesced bs \<Longrightarrow> used_at a bs = [] \<Longrightarrow> bs = [] \<or> (\<exists>k. bs = [Unused k])"
proof (induction bs arbitrary: a)
  case (Cons b bs)
  then show ?case by (cases b; cases bs) (auto simp: coalesced_Cons)
qed simp

text \<open>The sum in a request wraps: the chunk for nearly \<open>2 ^ 64\<close> bytes has room for eight.\<close>

lemma huge_request_wraps: "2 ^ 64 - 8 < n \<Longrightarrow> n < 2 ^ 64 \<Longrightarrow> Alloc n mc = Alloc 1 mc"
proof -
  assume n: "2 ^ 64 - 8 < n" "n < 2 ^ 64"
  then obtain i where i: "n = 2 ^ 64 - 8 + i" "0 < i" "i < 8" using less_imp_add_positive [OF n(1)] by auto
  then have "i \<in> {1, 2, 3, 4, 5, 6, 7}" by auto
  then have "COUNT_ALIGNED (add64 n 8) = 16" using i(1) by (auto simp: COUNT_ALIGNED_def add64_def)
  then show "Alloc n mc = Alloc 1 mc" using n by (simp add: Alloc_def COUNT_ALIGNED_def add64_def)
qed

text \<open>A cache of 64 bytes at address 4096, from which a block of ten bytes is taken and given back.\<close>

lemma sample_sizes: "COUNT_ALIGNED 64 = 64" "COUNT_ALIGNED 18 = 32"
  by (simp_all add: COUNT_ALIGNED_def add64_def)

lemma sample_init:
  obtains mc1 where "Init 4096 64 \<lparr>mc_mem = (\<lambda>_. 0), mem_base = 0, mc_size = 0, first_free = 0, mc_freed = []\<rparr> = Inr (True, mc1)"
    "cache_ok mc1 [Unused 64]" "mem_base mc1 = 4096"
  using Init_ok [of 4096 64] by (auto simp: sample_sizes)

lemma sample_run:
  obtains mc1 mc2 mc3 where "Init 4096 64 \<lparr>mc_mem = (\<lambda>_. 0), mem_base = 0, mc_size = 0, first_free = 0, mc_freed = []\<rparr> = Inr (True, mc1)"
    "cstep (mc1, []) (mc2, [(4104, 10)])" "cstep (mc2, [(4104, 10)]) (mc3, [])"
proof -
  obtain mc1 where m1: "Init 4096 64 \<lparr>mc_mem = (\<lambda>_. 0), mem_base = 0, mc_size = 0, first_free = 0, mc_freed = []\<rparr> = Inr (True, mc1)"
    "cache_ok mc1 [Unused 64]" "mem_base mc1 = 4096" by (rule sample_init)
  obtain mc2 where m2: "Alloc 10 mc1 = Some (Inr (4104, mc2))" "cache_ok mc2 [Used 32, Unused 32]" "mem_base mc2 = 4096"
    using Alloc_ok [OF m1(2), of 10] m1(3) by (auto simp: sample_sizes changed_def)
  obtain mc3 where m3: "Free 4104 mc2 = Some (Inr mc3)" using Free_ok [of mc2 "[]" 32 "[Unused 32]"] m2 by auto
  show ?thesis using m1(1) cstep.got [OF _ m2(1), of "[]"] cstep.freed [OF _ m3, of 10 "[(4104, 10)]"] by (intro that) auto
qed

section \<open>Properties\<close>

text \<open>C5. The code of the memory cache implements first fit on the sequence of chunks. For a cache whose
  memory holds the chunks \<open>bs\<close>, \<open>Alloc\<close> returns: it hands out the first free chunk that is large enough,
  cut to size, or a null pointer when there is none. \<open>Free\<close> of a chunk in use returns and joins the chunk
  with its free neighbours. Both write only bytes of free chunks.\<close>

theorem cache_refines_chunks:
  assumes "cache_ok mc bs"
  shows "(\<forall>n. 0 < n \<and> n + 24 \<le> 2 ^ 64 \<longrightarrow>
       (case first_fit (COUNT_ALIGNED (add64 n 8)) (mem_base mc) bs of
          None \<Rightarrow> Alloc n mc = Some (Inr (0, mc))
        | Some (p, cs) \<Rightarrow> \<exists>mc'. Alloc n mc = Some (Inr (p + 8, mc')) \<and> cache_ok mc' cs \<and> changed (free_area (mem_base mc) bs) mc mc'))
   \<and> (\<forall>pre n suf. bs = pre @ Used n # suf \<longrightarrow>
       (\<exists>mc'. Free (mem_base mc + total pre + 8) mc = Some (Inr mc') \<and> cache_ok mc' (give_back pre n suf)
          \<and> changed (free_area (mem_base mc) (give_back pre n suf)) mc mc'))"
proof (intro conjI allI impI)
  fix n :: nat assume "0 < n \<and> n + 24 \<le> 2 ^ 64"
  then show "case first_fit (COUNT_ALIGNED (add64 n 8)) (mem_base mc) bs of
      None \<Rightarrow> Alloc n mc = Some (Inr (0, mc))
    | Some (p, cs) \<Rightarrow> \<exists>mc'. Alloc n mc = Some (Inr (p + 8, mc')) \<and> cache_ok mc' cs \<and> changed (free_area (mem_base mc) bs) mc mc'"
    using Alloc_ok [OF assms, of n] by (auto split: option.splits)
qed (use Free_ok [of mc] assms in blast)

theorem cache_refines_chunks_witness:
  "\<exists>mc mc'. cache_ok mc [Unused 64] \<and> mem_base mc = 4096 \<and> Alloc 10 mc = Some (Inr (4104, mc')) \<and> cache_ok mc' [Used 32, Unused 32]"
proof (rule sample_init)
  fix mc assume "cache_ok mc [Unused 64]" "mem_base mc = 4096"
  with cache_refines_chunks [OF this(1), THEN conjunct1, rule_format, of 10] show ?thesis by (auto simp: sample_sizes)
qed





end
