(* ===== verification/Mxml.thy ===== *)
theory Mxml
  imports Prelude
begin

text \<open>
  The tree of the XML library (src/mxml/mxml-node.c, mxml-search.c, mxml-attr.c, mxml-get.c, mxml-set.c):
  nodes on a heap, linked to their parent, their neighbours and their first and last child.
  The theory gives the heap its meaning as a forest, an ordered list of children for every node, and proves
  that the operations on the pointers are the operations on those lists, that deletion frees
  exactly a subtree, and that the walk over the tree visits it in document order.

  Real and custom nodes, user data and the variants with a format string are left out.
\<close>

section \<open>Nodes\<close>

type_synonym ptr = "nat option"

datatype mxml_value =
    MXML_ELEMENT "string option" "(string \<times> string option) list"
  | MXML_INTEGER int
  | MXML_OPAQUE string
  | MXML_TEXT int string

record mxml_node =
  m_next :: ptr
  m_prev :: ptr
  m_parent :: ptr
  m_child :: ptr
  m_last :: ptr
  m_value :: mxml_value
  m_ref :: int

text \<open>The heap; an address that holds no node is free memory.\<close>

type_synonym xheap = "nat \<rightharpoonup> mxml_node"

definition node_at :: "xheap \<Rightarrow> nat \<Rightarrow> mxml_node res" where
  "node_at h p = (case h p of None \<Rightarrow> Inl Dangling | Some x \<Rightarrow> Inr x)"

definition upd_node :: "nat \<Rightarrow> (mxml_node \<Rightarrow> mxml_node) \<Rightarrow> xheap \<Rightarrow> xheap res" where
  "upd_node p f h = bind_res (node_at h p) (\<lambda>x. Inr (h(p \<mapsto> f x)))"

fun is_element :: "mxml_value \<Rightarrow> bool" where
  "is_element (MXML_ELEMENT _ _) = True"
| "is_element _ = False"

fun element_name :: "mxml_value \<Rightarrow> string option" where
  "element_name (MXML_ELEMENT n _) = n"
| "element_name _ = None"

section \<open>Building and cutting trees\<close>

definition mxmlRemove :: "ptr \<Rightarrow> xheap \<Rightarrow> xheap res" where
  "mxmlRemove node h = (case node of None \<Rightarrow> Inr h | Some n \<Rightarrow>
     bind_res (node_at h n) (\<lambda>x. case m_parent x of None \<Rightarrow> Inr h | Some par \<Rightarrow>
     bind_res (case m_prev x of Some p \<Rightarrow> upd_node p (\<lambda>y. y\<lparr>m_next := m_next x\<rparr>) h
               | None \<Rightarrow> upd_node par (\<lambda>y. y\<lparr>m_child := m_next x\<rparr>) h) (\<lambda>h.
     bind_res (node_at h n) (\<lambda>x.
     bind_res (case m_next x of Some q \<Rightarrow> upd_node q (\<lambda>y. y\<lparr>m_prev := m_prev x\<rparr>) h
               | None \<Rightarrow> upd_node par (\<lambda>y. y\<lparr>m_last := m_prev x\<rparr>) h) (\<lambda>h.
     upd_node n (\<lambda>y. y\<lparr>m_parent := None, m_prev := None, m_next := None\<rparr>) h)))))"

datatype where_t = MXML_ADD_BEFORE | MXML_ADD_AFTER

text \<open>The four places of \<^verbatim>\<open>mxmlAdd\<close>: first, before a child, last, after a child.\<close>

definition add_first :: "nat \<Rightarrow> nat \<Rightarrow> xheap \<Rightarrow> xheap res" where
  "add_first parent node h =
     bind_res (node_at h parent) (\<lambda>y.
     bind_res (upd_node node (\<lambda>x. x\<lparr>m_next := m_child y\<rparr>) h) (\<lambda>h.
     bind_res (case m_child y of Some c \<Rightarrow> upd_node c (\<lambda>z. z\<lparr>m_prev := Some node\<rparr>) h
               | None \<Rightarrow> upd_node parent (\<lambda>z. z\<lparr>m_last := Some node\<rparr>) h) (\<lambda>h.
     upd_node parent (\<lambda>z. z\<lparr>m_child := Some node\<rparr>) h)))"

definition add_before :: "nat \<Rightarrow> nat \<Rightarrow> nat \<Rightarrow> xheap \<Rightarrow> xheap res" where
  "add_before parent child node h =
     bind_res (node_at h child) (\<lambda>c.
     bind_res (upd_node node (\<lambda>x. x\<lparr>m_next := Some child, m_prev := m_prev c\<rparr>) h) (\<lambda>h.
     bind_res (case m_prev c of Some p \<Rightarrow> upd_node p (\<lambda>z. z\<lparr>m_next := Some node\<rparr>) h
               | None \<Rightarrow> upd_node parent (\<lambda>z. z\<lparr>m_child := Some node\<rparr>) h) (\<lambda>h.
     upd_node child (\<lambda>z. z\<lparr>m_prev := Some node\<rparr>) h)))"

definition add_last :: "nat \<Rightarrow> nat \<Rightarrow> xheap \<Rightarrow> xheap res" where
  "add_last parent node h =
     bind_res (node_at h parent) (\<lambda>y.
     bind_res (upd_node node (\<lambda>x. x\<lparr>m_parent := Some parent, m_prev := m_last y\<rparr>) h) (\<lambda>h.
     bind_res (case m_last y of Some c \<Rightarrow> upd_node c (\<lambda>z. z\<lparr>m_next := Some node\<rparr>) h
               | None \<Rightarrow> upd_node parent (\<lambda>z. z\<lparr>m_child := Some node\<rparr>) h) (\<lambda>h.
     upd_node parent (\<lambda>z. z\<lparr>m_last := Some node\<rparr>) h)))"

definition add_after :: "nat \<Rightarrow> nat \<Rightarrow> nat \<Rightarrow> xheap \<Rightarrow> xheap res" where
  "add_after parent child node h =
     bind_res (node_at h child) (\<lambda>c.
     bind_res (upd_node node (\<lambda>x. x\<lparr>m_prev := Some child, m_next := m_next c\<rparr>) h) (\<lambda>h.
     bind_res (case m_next c of Some q \<Rightarrow> upd_node q (\<lambda>z. z\<lparr>m_prev := Some node\<rparr>) h
               | None \<Rightarrow> upd_node parent (\<lambda>z. z\<lparr>m_last := Some node\<rparr>) h) (\<lambda>h.
     upd_node child (\<lambda>z. z\<lparr>m_next := Some node\<rparr>) h)))"

definition mxmlAdd :: "ptr \<Rightarrow> where_t \<Rightarrow> ptr \<Rightarrow> ptr \<Rightarrow> xheap \<Rightarrow> xheap res" where
  "mxmlAdd parent pos child node h = (case (parent, node) of
     (Some par, Some n) \<Rightarrow>
       bind_res (node_at h n) (\<lambda>x.
       bind_res (if m_parent x = None then Inr h else mxmlRemove node h) (\<lambda>h.
       bind_res (upd_node n (\<lambda>x. x\<lparr>m_parent := Some par\<rparr>) h) (\<lambda>h.
       bind_res (node_at h par) (\<lambda>y.
       case pos of
         MXML_ADD_BEFORE \<Rightarrow> (case child of None \<Rightarrow> add_first par n h | Some c \<Rightarrow>
           if child = m_child y then add_first par n h
           else bind_res (node_at h c) (\<lambda>z. if m_parent z \<noteq> Some par then add_first par n h else add_before par c n h))
       | MXML_ADD_AFTER \<Rightarrow> (case child of None \<Rightarrow> add_last par n h | Some c \<Rightarrow>
           if child = m_last y then add_last par n h
           else bind_res (node_at h c) (\<lambda>z. if m_parent z \<noteq> Some par then add_last par n h else add_after par c n h))))))
   | _ \<Rightarrow> Inr h)"

text \<open>\<open>mem\<close> is the address that \<^verbatim>\<open>calloc\<close> returns, None for a null pointer.\<close>

definition mxml_new :: "nat option \<Rightarrow> ptr \<Rightarrow> mxml_value \<Rightarrow> xheap \<Rightarrow> (ptr \<times> xheap) res" where
  "mxml_new mem parent type h = (case mem of None \<Rightarrow> Inr (None, h) | Some a \<Rightarrow>
     let h = h(a \<mapsto> \<lparr>m_next = None, m_prev = None, m_parent = None, m_child = None, m_last = None, m_value = type, m_ref = 1\<rparr>)
     in bind_res (if parent = None then Inr h else mxmlAdd parent MXML_ADD_AFTER None (Some a) h) (\<lambda>h. Inr (Some a, h)))"

definition new_value :: "nat option \<Rightarrow> ptr \<Rightarrow> mxml_value \<Rightarrow> mxml_value \<Rightarrow> xheap \<Rightarrow> (ptr \<times> xheap) res" where
  "new_value mem parent type v h =
     bind_res (mxml_new mem parent type h) (\<lambda>(node, h). case node of None \<Rightarrow> Inr (None, h)
     | Some n \<Rightarrow> bind_res (upd_node n (\<lambda>x. x\<lparr>m_value := v\<rparr>) h) (\<lambda>h. Inr (node, h)))"

definition mxmlNewElement :: "nat option \<Rightarrow> ptr \<Rightarrow> string option \<Rightarrow> xheap \<Rightarrow> (ptr \<times> xheap) res" where
  "mxmlNewElement mem parent name h = (case name of None \<Rightarrow> Inr (None, h)
     | Some s \<Rightarrow> new_value mem parent (MXML_ELEMENT None []) (MXML_ELEMENT (Some s) []) h)"

definition mxmlNewCDATA :: "nat option \<Rightarrow> ptr \<Rightarrow> string option \<Rightarrow> xheap \<Rightarrow> (ptr \<times> xheap) res" where
  "mxmlNewCDATA mem parent data h = (case data of None \<Rightarrow> Inr (None, h)
     | Some s \<Rightarrow> new_value mem parent (MXML_ELEMENT None []) (MXML_ELEMENT (Some (''![CDATA['' @ s @ '']]'')) []) h)"

definition mxmlNewInteger :: "nat option \<Rightarrow> ptr \<Rightarrow> int \<Rightarrow> xheap \<Rightarrow> (ptr \<times> xheap) res" where
  "mxmlNewInteger mem parent i h = new_value mem parent (MXML_INTEGER 0) (MXML_INTEGER i) h"

definition mxmlNewOpaque :: "nat option \<Rightarrow> ptr \<Rightarrow> string option \<Rightarrow> xheap \<Rightarrow> (ptr \<times> xheap) res" where
  "mxmlNewOpaque mem parent opaque h = (case opaque of None \<Rightarrow> Inr (None, h)
     | Some s \<Rightarrow> new_value mem parent (MXML_OPAQUE []) (MXML_OPAQUE s) h)"

definition mxmlNewText :: "nat option \<Rightarrow> ptr \<Rightarrow> int \<Rightarrow> string option \<Rightarrow> xheap \<Rightarrow> (ptr \<times> xheap) res" where
  "mxmlNewText mem parent ws str h = (case str of None \<Rightarrow> Inr (None, h)
     | Some s \<Rightarrow> new_value mem parent (MXML_TEXT 0 []) (MXML_TEXT ws s) h)"

definition mxmlNewXML :: "nat option \<Rightarrow> string option \<Rightarrow> xheap \<Rightarrow> (ptr \<times> xheap) res" where
  "mxmlNewXML mem version h = mxmlNewElement mem None
     (Some (take 1023 (''?xml version='' @ CHR 0x22 # (case version of None \<Rightarrow> ''1.0'' | Some v \<Rightarrow> v) @ CHR 0x22 # '' encoding='' @
        CHR 0x22 # ''utf-8'' @ CHR 0x22 # ''?''))) h"

text \<open>Deletion calls itself for every child; the first argument bounds the depth of the calls.\<close>

fun mxmlDelete :: "nat \<Rightarrow> ptr \<Rightarrow> xheap \<Rightarrow> xheap res"
  and delete_children :: "nat \<Rightarrow> nat \<Rightarrow> xheap \<Rightarrow> xheap res" where
  "mxmlDelete 0 node h = Inl NoFuel"
| "mxmlDelete (Suc k) node h = (case node of None \<Rightarrow> Inr h | Some n \<Rightarrow>
     bind_res (mxmlRemove node h) (\<lambda>h. bind_res (delete_children k n h) (\<lambda>h.
     bind_res (node_at h n) (\<lambda>_. Inr (h(n := None))))))"
| "delete_children 0 n h = Inl NoFuel"
| "delete_children (Suc k) n h = bind_res (node_at h n) (\<lambda>x. case m_child x of None \<Rightarrow> Inr h
     | Some c \<Rightarrow> bind_res (mxmlDelete k (Some c) h) (delete_children k n))"

definition mxmlRetain :: "ptr \<Rightarrow> xheap \<Rightarrow> (int \<times> xheap) res" where
  "mxmlRetain node h = (case node of None \<Rightarrow> Inr (-1, h) | Some n \<Rightarrow>
     bind_res (node_at h n) (\<lambda>x. Inr (m_ref x + 1, h(n \<mapsto> x\<lparr>m_ref := m_ref x + 1\<rparr>))))"

definition mxmlRelease :: "nat \<Rightarrow> ptr \<Rightarrow> xheap \<Rightarrow> (int \<times> xheap) res" where
  "mxmlRelease fuel node h = (case node of None \<Rightarrow> Inr (-1, h) | Some n \<Rightarrow>
     bind_res (node_at h n) (\<lambda>x. let h = h(n \<mapsto> x\<lparr>m_ref := m_ref x - 1\<rparr>) in
     if m_ref x - 1 \<le> 0 then bind_res (mxmlDelete fuel node h) (\<lambda>h. Inr (0, h))
     else Inr (m_ref x - 1, h)))"

definition mxmlGetRefCount :: "ptr \<Rightarrow> xheap \<Rightarrow> int res" where
  "mxmlGetRefCount node h = (case node of None \<Rightarrow> Inr 0 | Some n \<Rightarrow> bind_res (node_at h n) (\<lambda>x. Inr (m_ref x)))"

section \<open>Attributes\<close>

definition mxmlElementGetAttr :: "ptr \<Rightarrow> string option \<Rightarrow> xheap \<Rightarrow> string option res" where
  "mxmlElementGetAttr node name h = (case node of None \<Rightarrow> Inr None | Some n \<Rightarrow>
     bind_res (node_at h n) (\<lambda>x. case (m_value x, name) of
       (MXML_ELEMENT _ attrs, Some s) \<Rightarrow> Inr (case map_of attrs s of None \<Rightarrow> None | Some v \<Rightarrow> v)
     | _ \<Rightarrow> Inr None))"

fun del_attr :: "string \<Rightarrow> (string \<times> string option) list \<Rightarrow> (string \<times> string option) list" where
  "del_attr s [] = []"
| "del_attr s ((k, v) # as) = (if k = s then as else (k, v) # del_attr s as)"

definition mxmlElementDeleteAttr :: "ptr \<Rightarrow> string option \<Rightarrow> xheap \<Rightarrow> xheap res" where
  "mxmlElementDeleteAttr node name h = (case node of None \<Rightarrow> Inr h | Some n \<Rightarrow>
     bind_res (node_at h n) (\<lambda>x. case (m_value x, name) of
       (MXML_ELEMENT nm attrs, Some s) \<Rightarrow> Inr (h(n \<mapsto> x\<lparr>m_value := MXML_ELEMENT nm (del_attr s attrs)\<rparr>))
     | _ \<Rightarrow> Inr h))"

fun mxml_set_attr :: "string \<Rightarrow> string option \<Rightarrow> (string \<times> string option) list \<Rightarrow> (string \<times> string option) list" where
  "mxml_set_attr s v [] = [(s, v)]"
| "mxml_set_attr s v ((k, u) # as) = (if k = s then (k, v) # as else (k, u) # mxml_set_attr s v as)"

definition mxmlElementSetAttr :: "ptr \<Rightarrow> string option \<Rightarrow> string option \<Rightarrow> xheap \<Rightarrow> xheap res" where
  "mxmlElementSetAttr node name v h = (case node of None \<Rightarrow> Inr h | Some n \<Rightarrow>
     bind_res (node_at h n) (\<lambda>x. case (m_value x, name) of
       (MXML_ELEMENT nm attrs, Some s) \<Rightarrow> Inr (h(n \<mapsto> x\<lparr>m_value := MXML_ELEMENT nm (mxml_set_attr s v attrs)\<rparr>))
     | _ \<Rightarrow> Inr h))"

section \<open>Searching\<close>

datatype descend_t = MXML_NO_DESCEND | MXML_DESCEND | MXML_DESCEND_FIRST

text \<open>The way up from a node without a next one. On a heap with a cycle it would not end.\<close>

partial_function (option) walk_up :: "xheap \<Rightarrow> ptr \<Rightarrow> nat \<Rightarrow> ptr res option" where
  "walk_up h topn n = (case node_at h n of Inl f \<Rightarrow> Some (Inl f) | Inr x \<Rightarrow>
     if m_next x \<noteq> None then Some (Inr (m_next x))
     else (case m_parent x of None \<Rightarrow> Some (Inr None)
       | Some p \<Rightarrow> if Some p = topn then Some (Inr None) else walk_up h topn p))"

definition mxmlWalkNext :: "ptr \<Rightarrow> ptr \<Rightarrow> descend_t \<Rightarrow> xheap \<Rightarrow> ptr res option" where
  "mxmlWalkNext node topn descend h = (case node of None \<Rightarrow> Some (Inr None) | Some n \<Rightarrow>
     (case node_at h n of Inl f \<Rightarrow> Some (Inl f) | Inr x \<Rightarrow>
       if m_child x \<noteq> None \<and> descend \<noteq> MXML_NO_DESCEND then Some (Inr (m_child x))
       else if node = topn then Some (Inr None)
       else if m_next x \<noteq> None then Some (Inr (m_next x))
       else case m_parent x of None \<Rightarrow> Some (Inr None)
         | Some p \<Rightarrow> if Some p \<noteq> topn then walk_up h topn p else Some (Inr None)))"

text \<open>The way down to the last node of a subtree.\<close>

partial_function (option) walk_down :: "xheap \<Rightarrow> nat \<Rightarrow> ptr res option" where
  "walk_down h n = (case node_at h n of Inl f \<Rightarrow> Some (Inl f) | Inr x \<Rightarrow>
     (case m_last x of None \<Rightarrow> Some (Inr (Some n)) | Some c \<Rightarrow> walk_down h c))"

definition mxmlWalkPrev :: "ptr \<Rightarrow> ptr \<Rightarrow> descend_t \<Rightarrow> xheap \<Rightarrow> ptr res option" where
  "mxmlWalkPrev node topn descend h = (case node of None \<Rightarrow> Some (Inr None) | Some n \<Rightarrow>
     if node = topn then Some (Inr None)
     else case node_at h n of Inl f \<Rightarrow> Some (Inl f) | Inr x \<Rightarrow>
       (case m_prev x of
          Some q \<Rightarrow> (case node_at h q of Inl f \<Rightarrow> Some (Inl f) | Inr y \<Rightarrow>
            (case m_last y of Some c \<Rightarrow> if descend \<noteq> MXML_NO_DESCEND then walk_down h c else Some (Inr (Some q))
             | None \<Rightarrow> Some (Inr (Some q))))
        | None \<Rightarrow> if m_parent x \<noteq> topn then Some (Inr (m_parent x)) else Some (Inr None)))"

text \<open>The test of a node; without an attribute name only the name of the element counts.\<close>

definition node_matches :: "string option \<Rightarrow> string option \<Rightarrow> string option \<Rightarrow> mxml_node \<Rightarrow> bool" where
  "node_matches name attr v x = (case m_value x of
     MXML_ELEMENT (Some nm) attrs \<Rightarrow> (name = None \<or> name = Some nm) \<and>
       (case attr of None \<Rightarrow> True
        | Some s \<Rightarrow> (case map_of attrs s of Some (Some temp) \<Rightarrow> v = None \<or> v = Some temp | _ \<Rightarrow> False))
   | _ \<Rightarrow> False)"

partial_function (option) find_loop ::
  "ptr \<Rightarrow> string option \<Rightarrow> string option \<Rightarrow> string option \<Rightarrow> descend_t \<Rightarrow> xheap \<Rightarrow> ptr \<Rightarrow> ptr res option" where
  "find_loop topn name attr v descend h node = (case node of None \<Rightarrow> Some (Inr None) | Some n \<Rightarrow>
     (case node_at h n of Inl f \<Rightarrow> Some (Inl f) | Inr x \<Rightarrow>
       if node_matches name attr v x then Some (Inr (Some n))
       else if descend = MXML_DESCEND
       then (case mxmlWalkNext node topn MXML_DESCEND h of None \<Rightarrow> None | Some (Inl f) \<Rightarrow> Some (Inl f)
             | Some (Inr q) \<Rightarrow> find_loop topn name attr v descend h q)
       else find_loop topn name attr v descend h (m_next x)))"

definition mxmlFindElement ::
  "ptr \<Rightarrow> ptr \<Rightarrow> string option \<Rightarrow> string option \<Rightarrow> string option \<Rightarrow> descend_t \<Rightarrow> xheap \<Rightarrow> ptr res option" where
  "mxmlFindElement node topn name attr v descend h =
     (if node = None \<or> topn = None \<or> (attr = None \<and> v \<noteq> None) then Some (Inr None)
      else case mxmlWalkNext node topn descend h of None \<Rightarrow> None | Some (Inl f) \<Rightarrow> Some (Inl f)
           | Some (Inr q) \<Rightarrow> find_loop topn name attr v descend h q)"

text \<open>The steps of a path such as \<^verbatim>\<open>foo/*/bar\<close>; an element name has at most 255 characters.\<close>

function find_path :: "ptr \<Rightarrow> string \<Rightarrow> xheap \<Rightarrow> ptr res option" where
  "find_path node path h = (if path = [] then Some (Inr node) else
     let wild = (take 2 path = ''*/''); path = (if wild then drop 2 path else path);
         descend = (if wild then MXML_DESCEND else MXML_DESCEND_FIRST);
         element = takeWhile (\<lambda>c. c \<noteq> CHR ''/'') path; rest = drop (length element) path
     in if element = [] \<or> length element \<ge> 256 then Some (Inr None)
        else case mxmlFindElement node node (Some element) None None descend h of None \<Rightarrow> None | Some (Inl f) \<Rightarrow> Some (Inl f)
             | Some (Inr None) \<Rightarrow> Some (Inr None)
             | Some (Inr (Some n)) \<Rightarrow> find_path (Some n) (if rest = [] then rest else tl rest) h)"
  by pat_completeness auto
termination
proof (relation "measure (\<lambda>(node, path, h). length path)", goal_cases)
  case (2 node path h wild p d element r a b n)
  have "length p \<le> length path" using 2 by auto
  moreover have "length element \<le> length p" using 2(5) length_takeWhile_le [of _ p] by simp
  moreover have "0 < length element" using 2(7) by auto
  moreover have "length r = length p - length element" using 2(6) by simp
  moreover have "length (if r = [] then r else tl r) \<le> length r" by simp
  ultimately have "length (if r = [] then r else tl r) < length path" by linarith
  then show ?case by simp
qed simp

declare find_path.simps [simp del]

definition mxmlFindPath :: "ptr \<Rightarrow> string option \<Rightarrow> xheap \<Rightarrow> ptr res option" where
  "mxmlFindPath topn path h = (case (topn, path) of
     (Some t, Some s) \<Rightarrow> if s = [] then Some (Inr None)
       else (case find_path topn s h of
         Some (Inr (Some n)) \<Rightarrow> Some (bind_res (node_at h n) (\<lambda>x. case m_child x of None \<Rightarrow> Inr (Some n)
           | Some c \<Rightarrow> bind_res (node_at h c) (\<lambda>y. Inr (if is_element (m_value y) then Some n else Some c))))
       | r \<Rightarrow> r)
   | _ \<Rightarrow> Some (Inr None))"

section \<open>Reading and setting values\<close>

text \<open>A field of a node, nothing for a null pointer.\<close>

definition get_link :: "(mxml_node \<Rightarrow> ptr) \<Rightarrow> ptr \<Rightarrow> xheap \<Rightarrow> ptr res" where
  "get_link f node h = (case node of None \<Rightarrow> Inr None | Some n \<Rightarrow> bind_res (node_at h n) (\<lambda>x. Inr (f x)))"

definition mxmlGetNextSibling :: "ptr \<Rightarrow> xheap \<Rightarrow> ptr res" where
  "mxmlGetNextSibling = get_link m_next"

definition mxmlGetPrevSibling :: "ptr \<Rightarrow> xheap \<Rightarrow> ptr res" where
  "mxmlGetPrevSibling = get_link m_prev"

definition mxmlGetParent :: "ptr \<Rightarrow> xheap \<Rightarrow> ptr res" where
  "mxmlGetParent = get_link m_parent"

definition mxmlGetFirstChild :: "ptr \<Rightarrow> xheap \<Rightarrow> ptr res" where
  "mxmlGetFirstChild = get_link (\<lambda>x. if is_element (m_value x) then m_child x else None)"

definition mxmlGetLastChild :: "ptr \<Rightarrow> xheap \<Rightarrow> ptr res" where
  "mxmlGetLastChild = get_link (\<lambda>x. if is_element (m_value x) then m_last x else None)"

definition mxmlGetElement :: "ptr \<Rightarrow> xheap \<Rightarrow> string option res" where
  "mxmlGetElement node h = (case node of None \<Rightarrow> Inr None | Some n \<Rightarrow> bind_res (node_at h n) (\<lambda>x. Inr (element_name (m_value x))))"

text \<open>The name of an element is used without a test for a null pointer.\<close>

definition is_cdata :: "mxml_value \<Rightarrow> bool res" where
  "is_cdata v = (case v of MXML_ELEMENT None _ \<Rightarrow> Inl NullDeref
     | MXML_ELEMENT (Some s) _ \<Rightarrow> Inr (take 8 s = ''![CDATA['') | _ \<Rightarrow> Inr False)"

definition mxmlGetCDATA :: "ptr \<Rightarrow> xheap \<Rightarrow> string option res" where
  "mxmlGetCDATA node h = (case node of None \<Rightarrow> Inr None | Some n \<Rightarrow>
     bind_res (node_at h n) (\<lambda>x. bind_res (is_cdata (m_value x)) (\<lambda>c.
     Inr (if c then map_option (drop 8) (element_name (m_value x)) else None))))"

text \<open>The value of a node or, for an element, of its first child.\<close>

definition value_of :: "(mxml_value \<Rightarrow> 'a option) \<Rightarrow> ptr \<Rightarrow> xheap \<Rightarrow> 'a option res" where
  "value_of f node h = (case node of None \<Rightarrow> Inr None | Some n \<Rightarrow>
     bind_res (node_at h n) (\<lambda>x. case f (m_value x) of Some v \<Rightarrow> Inr (Some v)
     | None \<Rightarrow> (case (is_element (m_value x), m_child x) of
         (True, Some c) \<Rightarrow> bind_res (node_at h c) (\<lambda>y. Inr (f (m_value y)))
       | _ \<Rightarrow> Inr None)))"

fun as_integer :: "mxml_value \<Rightarrow> int option" where
  "as_integer (MXML_INTEGER i) = Some i"
| "as_integer _ = None"

fun as_opaque :: "mxml_value \<Rightarrow> string option" where
  "as_opaque (MXML_OPAQUE s) = Some s"
| "as_opaque _ = None"

fun as_text :: "mxml_value \<Rightarrow> (int \<times> string) option" where
  "as_text (MXML_TEXT ws s) = Some (ws, s)"
| "as_text _ = None"

definition mxmlGetInteger :: "ptr \<Rightarrow> xheap \<Rightarrow> int res" where
  "mxmlGetInteger node h = bind_res (value_of as_integer node h) (\<lambda>v. Inr (case v of None \<Rightarrow> 0 | Some i \<Rightarrow> i))"

definition mxmlGetOpaque :: "ptr \<Rightarrow> xheap \<Rightarrow> string option res" where
  "mxmlGetOpaque = value_of as_opaque"

text \<open>The text and what is stored through the pointer \<^verbatim>\<open>whitespace\<close>.\<close>

definition mxmlGetText :: "ptr \<Rightarrow> xheap \<Rightarrow> (string option \<times> int) res" where
  "mxmlGetText node h = bind_res (value_of as_text node h) (\<lambda>v.
     Inr (case v of None \<Rightarrow> (None, 0) | Some (ws, s) \<Rightarrow> (Some s, ws)))"

text \<open>The node whose value is set: the first child of an element if that child has a value of the kind.\<close>

definition set_value :: "(mxml_value \<Rightarrow> 'a option) \<Rightarrow> mxml_value \<Rightarrow> ptr \<Rightarrow> xheap \<Rightarrow> (int \<times> xheap) res" where
  "set_value f v node h = (case node of None \<Rightarrow> Inr (-1, h) | Some n \<Rightarrow>
     bind_res (node_at h n) (\<lambda>x.
     bind_res (case (is_element (m_value x), m_child x) of
         (True, Some c) \<Rightarrow> bind_res (node_at h c) (\<lambda>y. Inr (if f (m_value y) \<noteq> None then c else n))
       | _ \<Rightarrow> Inr n) (\<lambda>n.
     bind_res (node_at h n) (\<lambda>x. if f (m_value x) = None then Inr (-1, h) else Inr (0, h(n \<mapsto> x\<lparr>m_value := v\<rparr>))))))"

definition mxmlSetInteger :: "ptr \<Rightarrow> int \<Rightarrow> xheap \<Rightarrow> (int \<times> xheap) res" where
  "mxmlSetInteger node i h = set_value as_integer (MXML_INTEGER i) node h"

definition mxmlSetOpaque :: "ptr \<Rightarrow> string option \<Rightarrow> xheap \<Rightarrow> (int \<times> xheap) res" where
  "mxmlSetOpaque node str h = (case str of
     Some s \<Rightarrow> set_value as_opaque (MXML_OPAQUE s) node h
   | None \<Rightarrow> bind_res (value_of as_opaque node h) (\<lambda>_. Inr (-1, h)))"

definition mxmlSetText :: "ptr \<Rightarrow> int \<Rightarrow> string option \<Rightarrow> xheap \<Rightarrow> (int \<times> xheap) res" where
  "mxmlSetText node ws str h = (case str of
     Some s \<Rightarrow> set_value as_text (MXML_TEXT ws s) node h
   | None \<Rightarrow> bind_res (value_of as_text node h) (\<lambda>_. Inr (-1, h)))"

definition mxmlSetElement :: "ptr \<Rightarrow> string option \<Rightarrow> xheap \<Rightarrow> (int \<times> xheap) res" where
  "mxmlSetElement node name h = (case node of None \<Rightarrow> Inr (-1, h) | Some n \<Rightarrow>
     bind_res (node_at h n) (\<lambda>x. case (m_value x, name) of
       (MXML_ELEMENT _ attrs, Some s) \<Rightarrow> Inr (0, h(n \<mapsto> x\<lparr>m_value := MXML_ELEMENT (Some s) attrs\<rparr>))
     | _ \<Rightarrow> Inr (-1, h)))"

definition mxmlSetCDATA :: "ptr \<Rightarrow> string option \<Rightarrow> xheap \<Rightarrow> (int \<times> xheap) res" where
  "mxmlSetCDATA node data h = (case node of None \<Rightarrow> Inr (-1, h) | Some n \<Rightarrow>
     bind_res (node_at h n) (\<lambda>x.
     bind_res (if \<not> is_element (m_value x) then Inr n else
        bind_res (is_cdata (m_value x)) (\<lambda>c. case m_child x of
          Some q \<Rightarrow> if c then Inr n else bind_res (node_at h q) (\<lambda>y. bind_res (is_cdata (m_value y)) (\<lambda>d. Inr (if d then q else n)))
        | None \<Rightarrow> Inr n)) (\<lambda>n.
     bind_res (node_at h n) (\<lambda>x. case (m_value x, data) of
       (MXML_ELEMENT _ attrs, Some s) \<Rightarrow> bind_res (is_cdata (m_value x)) (\<lambda>c.
          if c then Inr (0, h(n \<mapsto> x\<lparr>m_value := MXML_ELEMENT (Some (''![CDATA['' @ s @ '']]'')) attrs\<rparr>)) else Inr (-1, h))
     | _ \<Rightarrow> Inr (-1, h)))))"

section \<open>The forest in the heap\<close>

text \<open>The first and the last entry of a list and the entries next to an entry, as pointers.\<close>

definition first :: "nat list \<Rightarrow> ptr" where
  "first xs = (if xs = [] then None else Some (hd xs))"

primrec after :: "nat list \<Rightarrow> nat \<Rightarrow> ptr" where
  "after [] p = None"
| "after (x # xs) p = (if x = p then first xs else after xs p)"

abbreviation final :: "nat list \<Rightarrow> ptr" where
  "final xs \<equiv> first (rev xs)"

abbreviation before :: "nat list \<Rightarrow> nat \<Rightarrow> ptr" where
  "before xs p \<equiv> after (rev xs) p"

lemma first_simps [simp]: "first [] = None" "first (x # xs) = Some x"
  "first (xs @ ys) = (if xs = [] then first ys else first xs)"
  by (auto simp: first_def)

lemma after_notin [simp]: "p \<notin> set xs \<Longrightarrow> after xs p = None"
  by (induction xs) auto

lemma after_append: "after (xs @ ys) p = (if p \<in> set xs then (if after xs p = None then first ys else after xs p) else after ys p)"
  by (induction xs) (auto simp: first_def)

lemma after_last: "distinct xs \<Longrightarrow> p \<in> set xs \<Longrightarrow> after xs p = None \<longleftrightarrow> p = last xs"
proof (induction xs)
  case (Cons x xs)
  then show ?case by (cases xs) (auto simp: first_def)
qed simp

lemma after_splice:
  assumes "distinct (as @ n # bs)"
  shows "after (as @ n # bs) p = (if p = n then first bs else if as \<noteq> [] \<and> p = last as then Some n else after (as @ bs) p)"
  using assms after_last [of as p] by (auto simp: after_append)

lemma after_join: "distinct (as @ bs) \<Longrightarrow> as \<noteq> [] \<Longrightarrow> after (as @ bs) (last as) = first bs"
  using after_last [of as "last as"] by (simp add: after_append)

text \<open>
  The heap holds the forest in which node \<open>p\<close> has the children \<open>K p\<close>, in this order: every pointer of
  every node is the one that the lists of children say.
\<close>

definition forest :: "xheap \<Rightarrow> (nat \<Rightarrow> nat list) \<Rightarrow> bool" where
  "forest h K \<longleftrightarrow>
     (\<forall>p x. h p = Some x \<longrightarrow> m_child x = first (K p) \<and> m_last x = final (K p)
        \<and> (m_parent x = None \<longrightarrow> m_next x = None \<and> m_prev x = None)
        \<and> (\<forall>q. m_parent x = Some q \<longrightarrow> p \<in> set (K q) \<and> m_next x = after (K q) p \<and> m_prev x = before (K q) p))
   \<and> (\<forall>q. distinct (K q)) \<and> (\<forall>q p. p \<in> set (K q) \<longrightarrow> q \<in> dom h \<and> (\<exists>x. h p = Some x \<and> m_parent x = Some q))"

lemma forest_node:
  assumes "forest h K" and "h p = Some x"
  shows "m_child x = first (K p)" "m_last x = final (K p)" "m_parent x = None \<Longrightarrow> m_next x = None \<and> m_prev x = None"
    "m_parent x = Some q \<Longrightarrow> p \<in> set (K q) \<and> m_next x = after (K q) p \<and> m_prev x = before (K q) p"
  using assms unfolding forest_def by blast+

lemma forest_kid: "forest h K \<Longrightarrow> p \<in> set (K q) \<Longrightarrow> q \<in> dom h \<and> (\<exists>x. h p = Some x \<and> m_parent x = Some q)"
  "forest h K \<Longrightarrow> distinct (K q)"
  unfolding forest_def by auto

lemma forestI:
  assumes "\<And>p x. h p = Some x \<Longrightarrow> m_child x = first (K p) \<and> m_last x = final (K p)"
    and "\<And>p x. h p = Some x \<Longrightarrow> m_parent x = None \<Longrightarrow> m_next x = None \<and> m_prev x = None"
    and "\<And>p x q. h p = Some x \<Longrightarrow> m_parent x = Some q \<Longrightarrow> p \<in> set (K q) \<and> m_next x = after (K q) p \<and> m_prev x = before (K q) p"
    and "\<And>q. distinct (K q)" and "\<And>q p. p \<in> set (K q) \<Longrightarrow> q \<in> dom h \<and> (\<exists>x. h p = Some x \<and> m_parent x = Some q)"
  shows "forest h K"
  unfolding forest_def using assms by blast

text \<open>The link from the nodes \<open>as\<close> to what follows them, and from \<open>bs\<close> to what is before them, under \<open>par\<close>.\<close>

definition set_next :: "nat \<Rightarrow> nat list \<Rightarrow> ptr \<Rightarrow> xheap \<Rightarrow> xheap" where
  "set_next par as v h = (\<lambda>p. if as = [] \<and> p = par then map_option (\<lambda>y. y\<lparr>m_child := v\<rparr>) (h p)
     else if as \<noteq> [] \<and> p = last as then map_option (\<lambda>y. y\<lparr>m_next := v\<rparr>) (h p) else h p)"

definition set_prev :: "nat \<Rightarrow> nat list \<Rightarrow> ptr \<Rightarrow> xheap \<Rightarrow> xheap" where
  "set_prev par bs v h = (\<lambda>p. if bs = [] \<and> p = par then map_option (\<lambda>y. y\<lparr>m_last := v\<rparr>) (h p)
     else if bs \<noteq> [] \<and> p = hd bs then map_option (\<lambda>y. y\<lparr>m_prev := v\<rparr>) (h p) else h p)"

definition splice_in :: "nat \<Rightarrow> nat list \<Rightarrow> nat list \<Rightarrow> nat \<Rightarrow> xheap \<Rightarrow> xheap" where
  "splice_in par as bs n h = set_prev par bs (Some n) (set_next par as (Some n)
     (\<lambda>p. if p = n then map_option (\<lambda>y. y\<lparr>m_parent := Some par, m_prev := final as, m_next := first bs\<rparr>) (h p) else h p))"

definition splice_out :: "nat \<Rightarrow> nat list \<Rightarrow> nat list \<Rightarrow> nat \<Rightarrow> xheap \<Rightarrow> xheap" where
  "splice_out par as bs n h =
     (\<lambda>p. if p = n then map_option (\<lambda>y. y\<lparr>m_parent := None, m_prev := None, m_next := None\<rparr>) (h p)
          else set_prev par bs (final as) (set_next par as (first bs) h) p)"

text \<open>What both do to a node, field by field.\<close>

definition relinked :: "nat \<Rightarrow> nat list \<Rightarrow> nat list \<Rightarrow> nat \<Rightarrow> ptr \<times> ptr \<times> ptr \<Rightarrow> ptr \<Rightarrow> ptr \<Rightarrow> nat \<Rightarrow> mxml_node \<Rightarrow> mxml_node" where
  "relinked par as bs n self nx pv p y = y\<lparr>
     m_child := if as = [] \<and> p = par then nx else m_child y,
     m_last := if bs = [] \<and> p = par then pv else m_last y,
     m_next := if p = n then fst (snd self) else if as \<noteq> [] \<and> p = last as then nx else m_next y,
     m_prev := if p = n then snd (snd self) else if bs \<noteq> [] \<and> p = hd bs then pv else m_prev y,
     m_parent := if p = n then fst self else m_parent y\<rparr>"

lemma relinked_fields [simp]:
  "m_parent (relinked par as bs n self nx pv p y) = (if p = n then fst self else m_parent y)"
  "m_child (relinked par as bs n self nx pv p y) = (if as = [] \<and> p = par then nx else m_child y)"
  "m_last (relinked par as bs n self nx pv p y) = (if bs = [] \<and> p = par then pv else m_last y)"
  "m_next (relinked par as bs n self nx pv p y) = (if p = n then fst (snd self) else if as \<noteq> [] \<and> p = last as then nx else m_next y)"
  "m_prev (relinked par as bs n self nx pv p y) = (if p = n then snd (snd self) else if bs \<noteq> [] \<and> p = hd bs then pv else m_prev y)"
  "m_value (relinked par as bs n self nx pv p y) = m_value y" "m_ref (relinked par as bs n self nx pv p y) = m_ref y"
  by (simp_all add: relinked_def)

lemma splice_in_at:
  assumes "n \<notin> set as" "n \<notin> set bs" "n \<noteq> par"
  shows "splice_in par as bs n h p = map_option (relinked par as bs n (Some par, first bs, final as) (Some n) (Some n) p) (h p)"
  using assms by (cases "h p"; cases "as = []"; cases "bs = []") (auto simp: splice_in_def set_next_def set_prev_def relinked_def)

lemma splice_out_at:
  assumes "n \<notin> set as" "n \<notin> set bs" "n \<noteq> par"
  shows "splice_out par as bs n h p = map_option (relinked par as bs n (None, None, None) (first bs) (final as) p) (h p)"
  using assms by (cases "h p"; cases "as = []"; cases "bs = []") (auto simp: splice_out_def set_next_def set_prev_def relinked_def)

lemma forest_parent_unique: "forest h K \<Longrightarrow> p \<in> set (K q) \<Longrightarrow> p \<in> set (K r) \<Longrightarrow> q = r"
  using forest_kid(1) [of h K p q] forest_kid(1) [of h K p r] by auto

lemma forest_splice_in:
  assumes "forest h K" and "h n = Some x" and "m_parent x = None" and "par \<in> dom h" and "n \<noteq> par" and "K par = as @ bs"
  shows "forest (splice_in par as bs n h) (K(par := as @ n # bs))"
proof -
  have nk: "n \<notin> set (K q)" for q using forest_kid(1) [OF assms(1), of n q] assms(2,3) by auto
  have d: "distinct (as @ n # bs)" using forest_kid(2) [OF assms(1), of par] nk [of par] assms(6) by auto
  then have dr: "distinct (rev bs @ n # rev as)" by auto
  note af = after_splice [OF d] after_splice [OF dr]
  have at: "splice_in par as bs n h p = map_option (relinked par as bs n (Some par, first bs, final as) (Some n) (Some n) p) (h p)" for p
    by (rule splice_in_at) (use d assms in auto)
  have u: "p \<in> set (K q) \<Longrightarrow> q \<noteq> par \<Longrightarrow> p \<notin> set as \<and> p \<notin> set bs" for p q
    using forest_parent_unique [OF assms(1), of p q par] assms(6) by auto
  show ?thesis
  proof (rule forestI)
    fix p z assume "splice_in par as bs n h p = Some z"
    then obtain y where y: "h p = Some y" "z = relinked par as bs n (Some par, first bs, final as) (Some n) (Some n) p y" unfolding at by auto
    note nd = forest_node [OF assms(1) y(1)]
    show "m_child z = first ((K(par := as @ n # bs)) p) \<and> m_last z = final ((K(par := as @ n # bs)) p)"
      unfolding y(2) using nd(1,2) assms(6) by (cases "p = par") simp_all
    show "m_next z = None \<and> m_prev z = None" if "m_parent z = None"
    proof -
      have "p \<noteq> n" "m_parent y = None" using that y(2) by (auto split: if_splits)
      moreover have "p \<notin> set as" "p \<notin> set bs" using forest_kid(1) [OF assms(1), of p par] assms(6) y(1) \<open>m_parent y = None\<close> by auto
      ultimately have "\<not> (as \<noteq> [] \<and> p = last as)" "\<not> (bs \<noteq> [] \<and> p = hd bs)" "p \<noteq> n" by auto
      then show ?thesis using nd(3) \<open>m_parent y = None\<close> unfolding y(2) by auto
    qed
    fix q assume q: "m_parent z = Some q"
    show "p \<in> set ((K(par := as @ n # bs)) q) \<and> m_next z = after ((K(par := as @ n # bs)) q) p \<and> m_prev z = before ((K(par := as @ n # bs)) q) p"
    proof (cases "p = n")
      case True
      then show ?thesis using q y(2) by (simp add: af)
    next
      case False
      then have "m_parent y = Some q" using q y(2) by auto
      note nq = nd(4) [OF this]
      show ?thesis
      proof (cases "q = par")
        case True
        then show ?thesis using nq False assms(6) unfolding y(2) by (simp add: af last_rev)
      next
        case q: False
        then have "\<not> (as \<noteq> [] \<and> p = last as)" "\<not> (bs \<noteq> [] \<and> p = hd bs)" using u [of p q] nq by auto
        then show ?thesis using nq False q unfolding y(2) by auto
      qed
    qed
  next
    show "distinct ((K(par := as @ n # bs)) q)" for q using d forest_kid(2) [OF assms(1)] by simp
  next
    fix q p assume p: "p \<in> set ((K(par := as @ n # bs)) q)"
    have dm: "dom (splice_in par as bs n h) = dom h" by (auto simp: dom_def at)
    have "p = n \<and> q = par \<or> p \<in> set (K q)" using p assms(6) by (cases "q = par") auto
    then show "q \<in> dom (splice_in par as bs n h) \<and> (\<exists>x. splice_in par as bs n h p = Some x \<and> m_parent x = Some q)"
    proof
      assume "p = n \<and> q = par"
      then show ?thesis using assms(2,4) unfolding dm at by simp
    next
      assume k: "p \<in> set (K q)"
      then have "p \<noteq> n" using nk by auto
      then show ?thesis using forest_kid(1) [OF assms(1) k] unfolding dm at by auto
    qed
  qed
qed

lemma forest_splice_out:
  assumes "forest h K" and "K par = as @ n # bs" and "n \<noteq> par"
  shows "forest (splice_out par as bs n h) (K(par := as @ bs))"
proof -
  have d: "distinct (as @ n # bs)" using forest_kid(2) [OF assms(1), of par] assms(2) by auto
  then have dr: "distinct (rev bs @ n # rev as)" by auto
  note af = after_splice [OF d] after_splice [OF dr]
  let ?f = "relinked par as bs n (None, None, None) (first bs) (final as)"
  have at: "splice_out par as bs n h p = map_option (?f p) (h p)" for p by (rule splice_out_at) (use d assms in auto)
  have u: "p \<in> set (K q) \<Longrightarrow> q \<noteq> par \<Longrightarrow> p \<notin> set as \<and> p \<notin> set bs \<and> p \<noteq> n" for p q
    using forest_parent_unique [OF assms(1), of p q par] assms(2) by auto
  have pn: "\<exists>x. h n = Some x \<and> m_parent x = Some par" using forest_kid(1) [OF assms(1), of n par] assms(2) by auto
  show ?thesis
  proof (rule forestI)
    fix p z assume "splice_out par as bs n h p = Some z"
    then obtain y where y: "h p = Some y" "z = ?f p y" unfolding at by auto
    note nd = forest_node [OF assms(1) y(1)]
    show "m_child z = first ((K(par := as @ bs)) p) \<and> m_last z = final ((K(par := as @ bs)) p)"
      unfolding y(2) using nd(1,2) assms(2) by (cases "p = par") simp_all
    show "m_next z = None \<and> m_prev z = None" if "m_parent z = None"
    proof (cases "p = n")
      case False
      then have "m_parent y = None" using that y(2) by auto
      moreover have "p \<notin> set as" "p \<notin> set bs" using forest_kid(1) [OF assms(1), of p par] assms(2) y(1) \<open>m_parent y = None\<close> by auto
      ultimately have "\<not> (as \<noteq> [] \<and> p = last as)" "\<not> (bs \<noteq> [] \<and> p = hd bs)" by auto
      then show ?thesis using nd(3) \<open>m_parent y = None\<close> False unfolding y(2) by auto
    qed (use y(2) in simp)
    fix q assume q: "m_parent z = Some q"
    then have pn: "p \<noteq> n" "m_parent y = Some q" using y(2) by (auto split: if_splits)
    note nq = nd(4) [OF pn(2)]
    show "p \<in> set ((K(par := as @ bs)) q) \<and> m_next z = after ((K(par := as @ bs)) q) p \<and> m_prev z = before ((K(par := as @ bs)) q) p"
    proof (cases "q = par")
      case True
      then have nk: "p \<in> set (as @ bs)" "m_next y = after (as @ n # bs) p" "m_prev y = after (rev bs @ n # rev as) p"
        using nq pn(1) assms(2) by auto
      have "distinct (as @ bs)" "distinct (rev bs @ rev as)" using d by auto
      note j = this [THEN after_join]
      have "(if as \<noteq> [] \<and> p = last as then first bs else m_next y) = after (as @ bs) p"
        using j(1) nk(2) pn(1) by (cases "as \<noteq> [] \<and> p = last as") (auto simp: af)
      moreover have "(if bs \<noteq> [] \<and> p = hd bs then final as else m_prev y) = after (rev bs @ rev as) p"
        using j(2) nk(3) pn(1) by (cases "bs \<noteq> [] \<and> p = hd bs") (auto simp: af last_rev)
      ultimately show ?thesis using True nk(1) pn(1) unfolding y(2) by simp
    next
      case False
      then have "\<not> (as \<noteq> [] \<and> p = last as)" "\<not> (bs \<noteq> [] \<and> p = hd bs)" using u [of p q] nq by auto
      then show ?thesis using nq False pn(1) unfolding y(2) by auto
    qed
  next
    show "distinct ((K(par := as @ bs)) q)" for q using d forest_kid(2) [OF assms(1)] by simp
  next
    fix q p assume p: "p \<in> set ((K(par := as @ bs)) q)"
    have dm: "dom (splice_out par as bs n h) = dom h" by (auto simp: dom_def at)
    have k: "p \<in> set (K q) \<and> p \<noteq> n"
    proof (cases "q = par")
      case True
      then show ?thesis using p assms(2) d by auto
    next
      case False
      then show ?thesis using p u [of p q] by simp
    qed
    show "q \<in> dom (splice_out par as bs n h) \<and> (\<exists>x. splice_out par as bs n h p = Some x \<and> m_parent x = Some q)"
      using forest_kid(1) [OF assms(1), of p q] k unfolding dm at by auto
  qed
qed

section \<open>The operations on the forest\<close>

text \<open>The specification: taking a node out of its list of children, and putting it in a list.\<close>

definition detach :: "nat \<Rightarrow> (nat \<Rightarrow> nat list) \<Rightarrow> nat \<Rightarrow> nat list" where
  "detach n K = (\<lambda>q. remove1 n (K q))"

fun put_before :: "nat \<Rightarrow> nat \<Rightarrow> nat list \<Rightarrow> nat list" where
  "put_before c n [] = [n]"
| "put_before c n (x # xs) = (if x = c then n # x # xs else x # put_before c n xs)"

definition insert_at :: "where_t \<Rightarrow> ptr \<Rightarrow> nat \<Rightarrow> nat list \<Rightarrow> nat list" where
  "insert_at pos child n xs = (case pos of
     MXML_ADD_BEFORE \<Rightarrow> (case child of Some c \<Rightarrow> if c \<in> set xs then put_before c n xs else n # xs | None \<Rightarrow> n # xs)
   | MXML_ADD_AFTER \<Rightarrow> (case child of Some c \<Rightarrow> if c \<in> set xs then rev (put_before c n (rev xs)) else xs @ [n] | None \<Rightarrow> xs @ [n]))"

lemma put_before_append: "c \<notin> set as \<Longrightarrow> put_before c n (as @ c # bs) = as @ n # c # bs"
  by (induction as) auto

text \<open>The nodes, their values and counts are the same.\<close>

definition same_data :: "xheap \<Rightarrow> xheap \<Rightarrow> bool" where
  "same_data h h' \<longleftrightarrow> (\<forall>p. map_option m_value (h' p) = map_option m_value (h p) \<and> map_option m_ref (h' p) = map_option m_ref (h p))"

lemma same_data_refl [simp]: "same_data h h"
  by (simp add: same_data_def)

lemma same_data_trans: "same_data h h' \<Longrightarrow> same_data h' h'' \<Longrightarrow> same_data h h''"
  by (simp add: same_data_def)

lemma same_data_dom: "same_data h h' \<Longrightarrow> dom h' = dom h"
  unfolding same_data_def dom_def by (metis (no_types, lifting) map_option_is_None)

lemma splice_same_data:
  assumes "n \<notin> set as" "n \<notin> set bs" "n \<noteq> par"
  shows "same_data h (splice_in par as bs n h)" "same_data h (splice_out par as bs n h)"
  unfolding same_data_def using splice_in_at [OF assms] splice_out_at [OF assms] by (simp_all add: option.map_comp o_def)

lemma upd_node_eq: "h p = Some x \<Longrightarrow> upd_node p f h = Inr (h(p \<mapsto> f x))"
  by (simp add: upd_node_def node_at_def)

lemma final_eq: "final as = (if as = [] then None else Some (last as))"
  by (simp add: first_def hd_rev)

lemma upd_next:
  assumes "par \<in> dom h" and "set as \<subseteq> dom h"
  shows "(case final as of Some p \<Rightarrow> upd_node p (\<lambda>y. y\<lparr>m_next := v\<rparr>) h | None \<Rightarrow> upd_node par (\<lambda>y. y\<lparr>m_child := v\<rparr>) h) = Inr (set_next par as v h)"
proof -
  have "last as \<in> dom h" if "as \<noteq> []" using subsetD [OF assms(2) last_in_set [OF that]] .
  then show ?thesis using assms(1) by (auto simp: final_eq upd_node_eq set_next_def fun_eq_iff)
qed

lemma upd_prev:
  assumes "par \<in> dom h" and "set bs \<subseteq> dom h"
  shows "(case first bs of Some p \<Rightarrow> upd_node p (\<lambda>y. y\<lparr>m_prev := v\<rparr>) h | None \<Rightarrow> upd_node par (\<lambda>y. y\<lparr>m_last := v\<rparr>) h) = Inr (set_prev par bs v h)"
proof -
  have "hd bs \<in> dom h" if "bs \<noteq> []" using subsetD [OF assms(2) list.set_sel(1) [OF that]] .
  then show ?thesis using assms(1) by (auto simp: first_def upd_node_eq set_prev_def fun_eq_iff)
qed

lemma dom_set [simp]: "dom (set_next par as v h) = dom h" "dom (set_prev par as v h) = dom h"
  by (auto simp: set_next_def set_prev_def dom_def)

lemma forest_list:
  assumes "forest h K" and "K par = as @ n # bs"
  obtains x where "h n = Some x" "m_parent x = Some par" "m_next x = first bs" "m_prev x = final as"
    "par \<in> dom h" "set as \<subseteq> dom h" "set bs \<subseteq> dom h" "distinct (as @ n # bs)"
proof -
  have d: "distinct (as @ n # bs)" using forest_kid(2) [OF assms(1), of par] assms(2) by simp
  then have dr: "distinct (rev bs @ n # rev as)" by auto
  have k: "q \<in> set (as @ n # bs) \<Longrightarrow> par \<in> dom h \<and> (\<exists>x. h q = Some x \<and> m_parent x = Some par)" for q
    using forest_kid(1) [OF assms(1), of q par] assms(2) by simp
  obtain x where x: "h n = Some x" "m_parent x = Some par" using k [of n] by auto
  have "m_next x = first bs" "m_prev x = final as"
    using forest_node(4) [OF assms(1) x] assms(2) after_splice [OF d, of n] after_splice [OF dr, of n] by auto
  moreover have "set as \<subseteq> dom h" "set bs \<subseteq> dom h" using k by (auto simp: dom_def)
  ultimately show ?thesis using that x k [of n] d by auto
qed

lemma mxmlRemove_splice:
  assumes "forest h K" and "K par = as @ n # bs" and "n \<noteq> par"
  shows "mxmlRemove (Some n) h = Inr (splice_out par as bs n h)"
proof -
  obtain x where x: "h n = Some x" "m_parent x = Some par" "m_next x = first bs" "m_prev x = final as"
    "par \<in> dom h" "set as \<subseteq> dom h" "set bs \<subseteq> dom h" "distinct (as @ n # bs)" by (rule forest_list [OF assms(1,2)])
  let ?h1 = "set_next par as (first bs) h"
  let ?h2 = "set_prev par bs (final as) ?h1"
  have n1: "?h1 n = Some x" "?h2 n = Some x" using x(1,8) assms(3) by (auto simp: set_next_def set_prev_def)
  have s: "splice_out par as bs n h = ?h2(n \<mapsto> x\<lparr>m_parent := None, m_prev := None, m_next := None\<rparr>)"
    using x(1) by (auto simp: splice_out_def)
  have "(case m_prev x of Some p \<Rightarrow> upd_node p (\<lambda>y. y\<lparr>m_next := m_next x\<rparr>) h | None \<Rightarrow> upd_node par (\<lambda>y. y\<lparr>m_child := m_next x\<rparr>) h) = Inr ?h1"
    unfolding x(3,4) by (rule upd_next [OF x(5,6)])
  moreover have "(case m_next x of Some q \<Rightarrow> upd_node q (\<lambda>y. y\<lparr>m_prev := m_prev x\<rparr>) ?h1 | None \<Rightarrow> upd_node par (\<lambda>y. y\<lparr>m_last := m_prev x\<rparr>) ?h1) = Inr ?h2"
    unfolding x(3,4) by (rule upd_prev) (use x in auto)
  ultimately show ?thesis using x(1,2) n1 upd_node_eq [of ?h2 n x] by (simp add: mxmlRemove_def node_at_def s)
qed

lemma detach_eq: "forest h K \<Longrightarrow> K par = as @ n # bs \<Longrightarrow> detach n K = K(par := as @ bs)"
proof (rule ext)
  fix q assume f: "forest h K" "K par = as @ n # bs"
  have d: "distinct (as @ n # bs)" using forest_kid(2) [OF f(1), of par] f(2) by simp
  have "q \<noteq> par \<Longrightarrow> n \<notin> set (K q)" using forest_parent_unique [OF f(1), of n q par] f(2) by auto
  then show "detach n K q = (K(par := as @ bs)) q" using f(2) d by (auto simp: detach_def remove1_append remove1_idem)
qed

text \<open>Removing a node; without a parent nothing happens.\<close>

lemma mxmlRemove_forest:
  assumes "forest h K" and "h n = Some x" and "n \<notin> set (K n)"
  shows "\<exists>h'. mxmlRemove (Some n) h = Inr h' \<and> forest h' (detach n K) \<and> same_data h h' \<and> map_option m_parent (h' n) = Some None"
proof (cases "m_parent x")
  case None
  then have "n \<notin> set (K q)" for q using forest_kid(1) [OF assms(1), of n q] assms(2) by auto
  then have "detach n K = K" by (auto simp: detach_def remove1_idem)
  then show ?thesis using None assms by (simp add: mxmlRemove_def node_at_def)
next
  case (Some par)
  then have k: "n \<in> set (K par)" using forest_node(4) [OF assms(1,2)] by auto
  then obtain as bs where s: "K par = as @ n # bs" by (meson split_list)
  have np: "n \<noteq> par" using k assms(3) by auto
  have d: "n \<notin> set as" "n \<notin> set bs" using forest_kid(2) [OF assms(1), of par] s by auto
  show ?thesis
    using mxmlRemove_splice [OF assms(1) s np] forest_splice_out [OF assms(1) s np] detach_eq [OF assms(1) s]
      splice_same_data(2) [OF d np] splice_out_at [OF d np, of h n] assms(2) by auto
qed

text \<open>The four places of \<^verbatim>\<open>mxmlAdd\<close> are one operation: the node goes between \<open>as\<close> and \<open>bs\<close>.\<close>

lemma splice_in_eq: "h n = Some x \<Longrightarrow> splice_in par as bs n h =
    set_prev par bs (Some n) (set_next par as (Some n) (h(n \<mapsto> x\<lparr>m_parent := Some par, m_prev := final as, m_next := first bs\<rparr>)))"
  by (auto simp: splice_in_def intro!: arg_cong [of _ _ "set_prev par bs (Some n)"] arg_cong [of _ _ "set_next par as (Some n)"])

lemma set_next_prev: "set_next par as v (set_prev par bs w h) = set_prev par bs w (set_next par as v h)"
proof (rule ext)
  show "set_next par as v (set_prev par bs w h) p = set_prev par bs w (set_next par as v h) p" for p
    by (cases "h p"; cases "as = []"; cases "bs = []") (auto simp: set_next_def set_prev_def)
qed

lemma upd_next_at:
  assumes "par \<in> dom h" and "set as \<subseteq> dom h"
  shows "as = [] \<Longrightarrow> upd_node par (\<lambda>y. y\<lparr>m_child := v\<rparr>) h = Inr (set_next par as v h)"
    "as \<noteq> [] \<Longrightarrow> upd_node (last as) (\<lambda>y. y\<lparr>m_next := v\<rparr>) h = Inr (set_next par as v h)"
  using upd_next [OF assms, of v] by (auto simp: final_eq)

lemma upd_prev_at:
  assumes "par \<in> dom h" and "set bs \<subseteq> dom h"
  shows "bs = [] \<Longrightarrow> upd_node par (\<lambda>y. y\<lparr>m_last := v\<rparr>) h = Inr (set_prev par bs v h)"
    "bs \<noteq> [] \<Longrightarrow> upd_node (hd bs) (\<lambda>y. y\<lparr>m_prev := v\<rparr>) h = Inr (set_prev par bs v h)"
  using upd_prev [OF assms, of v] by (auto simp: first_def)

lemma add_splice:
  assumes f: "forest h K" and x: "h n = Some x" "m_parent x = None" and par: "par \<in> dom h" "n \<noteq> par" and K: "K par = as @ bs"
  defines "hp \<equiv> h(n \<mapsto> x\<lparr>m_parent := Some par\<rparr>)"
  shows "as = [] \<Longrightarrow> add_first par n hp = Inr (splice_in par as bs n h)"
    "bs = [] \<Longrightarrow> add_last par n hp = Inr (splice_in par as bs n h)"
    "bs = c # cs \<Longrightarrow> add_before par c n hp = Inr (splice_in par as bs n h)"
    "as = cs @ [c] \<Longrightarrow> add_after par c n hp = Inr (splice_in par as bs n h)"
proof -
  obtain y where y: "h par = Some y" "m_child y = first (as @ bs)" "m_last y = final (as @ bs)"
    using par(1) forest_node(1,2) [OF f] K by fastforce
  have root: "m_prev x = None" "m_next x = None" using forest_node(3) [OF f x] by auto
  have nk: "n \<notin> set (as @ bs)" using forest_kid(1) [OF f, of n par] x K by auto
  have kd: "set as \<subseteq> dom h" "set bs \<subseteq> dom h" using forest_kid(1) [OF f, of _ par] K by (auto simp: dom_def)
  define hn where "hn = h(n \<mapsto> x\<lparr>m_parent := Some par, m_prev := final as, m_next := first bs\<rparr>)"
  have dn: "par \<in> dom hn" "set as \<subseteq> dom hn" "set bs \<subseteq> dom hn" using par(1) kd by (auto simp: hn_def)
  note un = upd_next [OF dn(1,2), of "Some n"] and up = upd_prev [OF dn(1,3), of "Some n"]
  have eq: "splice_in par as bs n h = set_prev par bs (Some n) (set_next par as (Some n) hn)"
    using splice_in_eq [of h n x par as bs, OF x(1)] by (simp add: hn_def)
  have par': "node_at hp par = Inr y" using y(1) par(2) by (simp add: node_at_def hp_def)
  have self: "upd_node n g hp = Inr hn" if "g (x\<lparr>m_parent := Some par\<rparr>) = x\<lparr>m_parent := Some par, m_prev := final as, m_next := first bs\<rparr>" for g
    using that by (simp add: upd_node_eq hp_def hn_def)
  have kid: "node_at hp c = Inr z" if "c \<in> set (as @ bs)" "h c = Some z" for c z using that nk by (auto simp: node_at_def hp_def)
  show "add_first par n hp = Inr (splice_in par as bs n h)" if a: "as = []"
  proof -
    have "upd_node n (\<lambda>x. x\<lparr>m_next := m_child y\<rparr>) hp = Inr hn" by (rule self) (use y(2) a root in simp)
    then show ?thesis
      unfolding eq using up y(2) upd_next_at(1) [of par "set_prev par bs (Some n) hn" as "Some n"] dn a
      by (simp add: add_first_def par' set_next_prev)
  qed
  show "add_last par n hp = Inr (splice_in par as bs n h)" if b: "bs = []"
  proof -
    have "upd_node n (\<lambda>x. x\<lparr>m_parent := Some par, m_prev := m_last y\<rparr>) hp = Inr hn" by (rule self) (use y(3) b root in simp)
    then show ?thesis
      unfolding eq using un y(3) upd_prev_at(1) [of par "set_next par as (Some n) hn" bs "Some n"] dn b
      by (simp add: add_last_def par')
  qed
  show "add_before par c n hp = Inr (splice_in par as bs n h)" if b: "bs = c # cs"
  proof -
    obtain z where z: "h c = Some z" "m_prev z = final as" using forest_list [OF f, of par as c cs] K b by metis
    have "upd_node n (\<lambda>x. x\<lparr>m_next := Some c, m_prev := m_prev z\<rparr>) hp = Inr hn" by (rule self) (use z(2) b in simp)
    then show ?thesis
      unfolding eq using un z kid [of c z] upd_prev_at(2) [of par "set_next par as (Some n) hn" bs "Some n"] dn b
      by (simp add: add_before_def)
  qed
  show "add_after par c n hp = Inr (splice_in par as bs n h)" if a: "as = cs @ [c]"
  proof -
    obtain z where z: "h c = Some z" "m_next z = first bs" using forest_list [OF f, of par cs c bs] K a by (metis append.assoc append_Cons append_Nil)
    have "upd_node n (\<lambda>x. x\<lparr>m_prev := Some c, m_next := m_next z\<rparr>) hp = Inr hn" by (rule self) (use z(2) a in simp)
    then show ?thesis
      unfolding eq using up z kid [of c z] upd_next_at(2) [of par "set_prev par bs (Some n) hn" as "Some n"] dn a
      by (simp add: add_after_def set_next_prev)
  qed
qed

definition add_kid :: "nat \<Rightarrow> where_t \<Rightarrow> ptr \<Rightarrow> nat \<Rightarrow> (nat \<Rightarrow> nat list) \<Rightarrow> nat \<Rightarrow> nat list" where
  "add_kid par pos child n K = (detach n K)(par := insert_at pos child n (detach n K par))"

text \<open>The switch of \<^verbatim>\<open>mxmlAdd\<close>, on the node that has been given its parent.\<close>

definition add_at :: "nat \<Rightarrow> where_t \<Rightarrow> ptr \<Rightarrow> nat \<Rightarrow> xheap \<Rightarrow> xheap res" where
  "add_at par pos child n h = bind_res (node_at h par) (\<lambda>y. case pos of
     MXML_ADD_BEFORE \<Rightarrow> (case child of None \<Rightarrow> add_first par n h | Some c \<Rightarrow>
       if child = m_child y then add_first par n h
       else bind_res (node_at h c) (\<lambda>z. if m_parent z \<noteq> Some par then add_first par n h else add_before par c n h))
   | MXML_ADD_AFTER \<Rightarrow> (case child of None \<Rightarrow> add_last par n h | Some c \<Rightarrow>
       if child = m_last y then add_last par n h
       else bind_res (node_at h c) (\<lambda>z. if m_parent z \<noteq> Some par then add_last par n h else add_after par c n h)))"

lemma add_at_splice:
  assumes f: "forest h K" and x: "h n = Some x" "m_parent x = None" and par: "par \<in> dom h" "n \<noteq> par"
    and child: "\<And>c. child = Some c \<Longrightarrow> c \<in> dom h \<and> c \<noteq> n"
  shows "\<exists>as bs. K par = as @ bs \<and> insert_at pos child n (K par) = as @ n # bs
     \<and> add_at par pos child n (h(n \<mapsto> x\<lparr>m_parent := Some par\<rparr>)) = Inr (splice_in par as bs n h)"
proof -
  let ?hp = "h(n \<mapsto> x\<lparr>m_parent := Some par\<rparr>)"
  obtain y where y: "node_at ?hp par = Inr y" "m_child y = first (K par)" "m_last y = final (K par)"
    using par forest_node(1,2) [OF f] by (auto simp: node_at_def)
  note sp = add_splice [OF f x par]
  have inn: "\<exists>z. node_at ?hp c = Inr z \<and> (m_parent z = Some par \<longleftrightarrow> c \<in> set (K par))" if ch: "child = Some c" for c
  proof -
    obtain z where "h c = Some z" "c \<noteq> n" using child [OF ch] by auto
    then show ?thesis using forest_node(4) [OF f, of c z par] forest_kid(1) [OF f, of c par] by (auto simp: node_at_def)
  qed
  have hd_in: "Some c = first (K par) \<Longrightarrow> put_before c n (K par) = n # K par" for c by (cases "K par") auto
  show ?thesis
  proof (cases pos)
    case MXML_ADD_BEFORE
    show ?thesis
    proof (cases "\<exists>c. child = Some c \<and> c \<in> set (K par) \<and> Some c \<noteq> first (K par)")
      case True
      then obtain c as cs where c: "child = Some c" "Some c \<noteq> first (K par)" "K par = as @ c # cs" "c \<notin> set as"
        using split_list_first by fastforce
      then show ?thesis
        using inn [OF c(1)] y sp(3) [of as "c # cs" c cs] MXML_ADD_BEFORE
        by (intro exI [of _ as] exI [of _ "c # cs"]) (auto simp: add_at_def insert_at_def put_before_append)
    next
      case False
      then show ?thesis
        using inn y sp(1) [of "[]" "K par"] MXML_ADD_BEFORE hd_in
        by (intro exI [of _ "[]"] exI [of _ "K par"]) (cases child; fastforce simp: add_at_def insert_at_def)
    qed
  next
    case MXML_ADD_AFTER
    show ?thesis
    proof (cases "\<exists>c. child = Some c \<and> c \<in> set (K par) \<and> Some c \<noteq> final (K par)")
      case True
      then obtain c as cs where c: "child = Some c" "Some c \<noteq> final (K par)" "K par = as @ c # cs" "c \<notin> set cs"
        using split_list_last by fastforce
      then show ?thesis
        using inn [OF c(1)] y sp(4) [of "as @ [c]" cs as c] MXML_ADD_AFTER
        by (intro exI [of _ "as @ [c]"] exI [of _ cs]) (auto simp: add_at_def insert_at_def put_before_append)
    next
      case False
      have "Some c = final (K par) \<Longrightarrow> rev (put_before c n (rev (K par))) = K par @ [n]" for c by (cases "K par" rule: rev_cases) auto
      with False show ?thesis
        using inn y sp(2) [of "K par" "[]"] MXML_ADD_AFTER
        by (intro exI [of _ "K par"] exI [of _ "[]"]) (cases child; fastforce simp: add_at_def insert_at_def)
    qed
  qed
qed

lemma mxmlAdd_forest:
  assumes "forest h K" and "n \<in> dom h" "par \<in> dom h" "n \<noteq> par" "n \<notin> set (K n)"
    and "\<And>c. child = Some c \<Longrightarrow> c \<in> dom h \<and> c \<noteq> n"
  shows "\<exists>h'. mxmlAdd (Some par) pos child (Some n) h = Inr h' \<and> forest h' (add_kid par pos child n K) \<and> same_data h h'"
proof -
  obtain x where x: "h n = Some x" using assms(2) by auto
  obtain h1 where h1: "mxmlRemove (Some n) h = Inr h1" "forest h1 (detach n K)" "same_data h h1" "map_option m_parent (h1 n) = Some None"
    using mxmlRemove_forest [OF assms(1) x assms(5)] by blast
  then obtain x1 where x1: "h1 n = Some x1" "m_parent x1 = None" by auto
  have rm: "(if m_parent x = None then Inr h else mxmlRemove (Some n) h) = Inr h1"
    using h1(1) x by (auto simp: mxmlRemove_def node_at_def)
  have dm: "dom h1 = dom h" using h1(3) by (rule same_data_dom)
  obtain as bs where s: "detach n K par = as @ bs" "insert_at pos child n (detach n K par) = as @ n # bs"
      "add_at par pos child n (h1(n \<mapsto> x1\<lparr>m_parent := Some par\<rparr>)) = Inr (splice_in par as bs n h1)"
    using add_at_splice [OF h1(2) x1, of par child pos] assms(3,4,6) dm by auto
  have nk: "n \<notin> set as" "n \<notin> set bs"
    using forest_kid(1) [OF h1(2), of n par] x1 s(1) by auto
  have "mxmlAdd (Some par) pos child (Some n) h = Inr (splice_in par as bs n h1)"
    using x rm x1(1) s(3) by (simp add: mxmlAdd_def node_at_def [of h] upd_node_eq add_at_def)
  moreover have "forest (splice_in par as bs n h1) (add_kid par pos child n K)"
    using forest_splice_in [OF h1(2) x1 _ assms(4) s(1)] assms(3) dm s(2) by (simp add: add_kid_def)
  moreover have "same_data h (splice_in par as bs n h1)"
    using same_data_trans [OF h1(3) splice_same_data(1) [OF nk assms(4)]] .
  ultimately show ?thesis by blast
qed

section \<open>New nodes\<close>

lemma forest_leaf: "forest h K \<Longrightarrow> a \<notin> dom h \<Longrightarrow> K a = [] \<and> (\<forall>q. a \<notin> set (K q))"
  using forest_kid(1) [of h K] by (metis domI ex_in_conv set_empty)

lemma forest_new:
  assumes "forest h K" and "a \<notin> dom h"
  shows "forest (h(a \<mapsto> \<lparr>m_next = None, m_prev = None, m_parent = None, m_child = None, m_last = None, m_value = v, m_ref = 1\<rparr>)) K"
proof -
  have a: "K a = []" "a \<notin> set (K q)" for q using forest_leaf [OF assms] by auto
  show ?thesis
  proof (rule forestI)
    show "distinct (K q)" for q by (rule forest_kid(2) [OF assms(1)])
  qed (use forest_node [OF assms(1)] forest_kid(1) [OF assms(1)] a in \<open>auto split: if_splits\<close>)
qed

definition links :: "mxml_node \<Rightarrow> ptr \<times> ptr \<times> ptr \<times> ptr \<times> ptr" where
  "links x = (m_next x, m_prev x, m_parent x, m_child x, m_last x)"

lemma forest_links:
  assumes "forest h K" and "\<And>p. map_option links (h' p) = map_option links (h p)"
  shows "forest h' K"
proof -
  have old: "\<exists>x. h p = Some x \<and> links x = links x'" if "h' p = Some x'" for p x' using assms(2) [of p] that by (cases "h p") auto
  have new: "\<exists>x'. h' p = Some x' \<and> links x = links x'" if "h p = Some x" for p x using assms(2) [of p] that by (cases "h' p") auto
  show ?thesis
  proof (rule forestI)
    show "distinct (K q)" for q by (rule forest_kid(2) [OF assms(1)])
    show "q \<in> dom h' \<and> (\<exists>x. h' p = Some x \<and> m_parent x = Some q)" if "p \<in> set (K q)" for p q
      using forest_kid(1) [OF assms(1) that] new by (fastforce simp: links_def)
    fix p x' assume "h' p = Some x'"
    then obtain x where x: "h p = Some x" "links x = links x'" using old by blast
    note nd = forest_node [OF assms(1) x(1)]
    show "m_child x' = first (K p) \<and> m_last x' = final (K p)" using nd(1,2) x(2) by (simp add: links_def)
    show "m_next x' = None \<and> m_prev x' = None" if "m_parent x' = None" using nd(3) x(2) that by (simp add: links_def)
    show "p \<in> set (K q) \<and> m_next x' = after (K q) p \<and> m_prev x' = before (K q) p" if "m_parent x' = Some q" for q
      using nd(4) [of q] x(2) that by (simp add: links_def)
  qed
qed

lemma forest_data:
  assumes "forest h K" and "h a = Some x"
  shows "forest (h(a \<mapsto> x\<lparr>m_value := v\<rparr>)) K" "forest (h(a \<mapsto> x\<lparr>m_ref := r\<rparr>)) K"
  by (rule forest_links [OF assms(1)]; use assms(2) in \<open>simp add: links_def\<close>)+

text \<open>A new node becomes the last child of its parent.\<close>

lemma new_value_forest:
  assumes "forest h K" and "a \<notin> dom h" and "\<And>p. parent = Some p \<Longrightarrow> p \<in> dom h"
  shows "\<exists>h' x. new_value (Some a) parent t v h = Inr (Some a, h')
     \<and> forest h' (case parent of None \<Rightarrow> K | Some p \<Rightarrow> K(p := K p @ [a])) \<and> h' a = Some x \<and> m_value x = v
     \<and> dom h' = insert a (dom h) \<and> (\<forall>p \<in> dom h. map_option m_value (h' p) = map_option m_value (h p))"
proof -
  let ?b = "\<lparr>m_next = None, m_prev = None, m_parent = None, m_child = None, m_last = None, m_value = t, m_ref = 1\<rparr>"
  note f = forest_new [OF assms(1,2), of t] and lf = forest_leaf [OF assms(1,2)]
  obtain h1 where h1: "mxml_new (Some a) parent t h = Inr (Some a, h1)" "same_data (h(a \<mapsto> ?b)) h1"
      "forest h1 (case parent of None \<Rightarrow> K | Some p \<Rightarrow> K(p := K p @ [a]))"
  proof (cases parent)
    case None
    then show ?thesis using that f by (simp add: mxml_new_def)
  next
    case (Some p)
    have "detach a K = K" using lf by (auto simp: detach_def remove1_idem)
    then have "add_kid p MXML_ADD_AFTER None a K = K(p := K p @ [a])" by (simp add: add_kid_def insert_at_def)
    moreover obtain h1 where "mxmlAdd (Some p) MXML_ADD_AFTER None (Some a) (h(a \<mapsto> ?b)) = Inr h1"
        "forest h1 (add_kid p MXML_ADD_AFTER None a K)" "same_data (h(a \<mapsto> ?b)) h1"
      using mxmlAdd_forest [OF f, of a p None MXML_ADD_AFTER] assms(2,3) Some lf by fastforce
    ultimately show ?thesis using that [of h1] Some by (simp add: mxml_new_def)
  qed
  have dm: "dom h1 = insert a (dom h)" using same_data_dom [OF h1(2)] by simp
  then obtain x where x: "h1 a = Some x" by auto
  let ?h' = "h1(a \<mapsto> x\<lparr>m_value := v\<rparr>)"
  have "forest ?h' (case parent of None \<Rightarrow> K | Some p \<Rightarrow> K(p := K p @ [a]))"
    by (rule forest_data(1) [OF h1(3) x])
  moreover have "new_value (Some a) parent t v h = Inr (Some a, ?h')" using h1(1) x by (simp add: new_value_def upd_node_eq)
  moreover have "\<forall>p \<in> dom h. map_option m_value (?h' p) = map_option m_value (h p)"
    using h1(2) assms(2) by (auto simp: same_data_def split: if_splits)
  ultimately show ?thesis using dm by auto
qed

section \<open>Deletion\<close>

definition edges :: "(nat \<Rightarrow> nat list) \<Rightarrow> (nat \<times> nat) set" where
  "edges K = {(p, q). q \<in> set (K p)}"

definition desc :: "(nat \<Rightarrow> nat list) \<Rightarrow> nat \<Rightarrow> nat set" where
  "desc K n = {q. (n, q) \<in> (edges K)\<^sup>*}"

definition prune :: "nat set \<Rightarrow> (nat \<Rightarrow> nat list) \<Rightarrow> nat \<Rightarrow> nat list" where
  "prune D K = (\<lambda>q. if q \<in> D then [] else filter (\<lambda>p. p \<notin> D) (K q))"

text \<open>A tree has no cycles and is finite.\<close>

definition tree_heap :: "xheap \<Rightarrow> (nat \<Rightarrow> nat list) \<Rightarrow> bool" where
  "tree_heap h K \<longleftrightarrow> forest h K \<and> acyclic (edges K) \<and> finite (dom h)"

lemma desc_self [simp]: "n \<in> desc K n"
  by (simp add: desc_def)

lemma desc_kid: "c \<in> set (K n) \<Longrightarrow> desc K c \<subseteq> desc K n"
  by (auto simp: desc_def edges_def intro: converse_rtrancl_into_rtrancl)

lemma desc_closed: "q \<in> desc K n \<Longrightarrow> p \<in> set (K q) \<Longrightarrow> p \<in> desc K n"
  by (auto simp: desc_def edges_def intro: rtrancl.rtrancl_into_rtrancl)

lemma desc_no_kids: "K n = [] \<Longrightarrow> desc K n = {n}"
  by (auto simp: desc_def edges_def elim: converse_rtranclE)

lemma acyclic_kid:
  assumes "acyclic (edges K)" and "c \<in> set (K n)"
  shows "n \<notin> desc K c"
proof
  assume "n \<in> desc K c"
  then have "(n, n) \<in> (edges K)\<^sup>+" using assms(2) by (auto simp: desc_def edges_def intro: rtrancl_into_trancl2)
  then show False using assms(1) by (simp add: acyclic_def)
qed

lemma acyclic_self: "acyclic (edges K) \<Longrightarrow> n \<notin> set (K n)"
  using acyclic_kid [of K n n] by auto

lemma desc_dom: "forest h K \<Longrightarrow> n \<in> dom h \<Longrightarrow> desc K n \<subseteq> dom h"
proof
  fix q assume f: "forest h K" "n \<in> dom h" and "q \<in> desc K n"
  then have "(n, q) \<in> (edges K)\<^sup>*" by (simp add: desc_def)
  then show "q \<in> dom h"
  proof (induction rule: rtrancl_induct)
    case (step y z)
    then show ?case using forest_kid(1) [OF f(1), of z y] by (auto simp: edges_def)
  qed (rule f(2))
qed

lemma desc_prune:
  assumes "\<And>q p. q \<in> D \<Longrightarrow> p \<in> set (K q) \<Longrightarrow> p \<in> D" and "n \<notin> D"
  shows "desc (prune D K) n = desc K n - D"
proof -
  have "(n, q) \<in> (edges K)\<^sup>* \<Longrightarrow> q \<notin> D \<longrightarrow> (n, q) \<in> (edges (prune D K))\<^sup>*" for q
  proof (induction rule: rtrancl_induct)
    case (step y z)
    show ?case
    proof
      assume "z \<notin> D"
      then have "y \<notin> D" using assms(1) step.hyps(2) by (auto simp: edges_def)
      then show "(n, z) \<in> (edges (prune D K))\<^sup>*"
        using step \<open>z \<notin> D\<close> by (auto simp: edges_def prune_def intro: rtrancl.rtrancl_into_rtrancl)
    qed
  qed simp
  moreover have "(n, q) \<in> (edges (prune D K))\<^sup>* \<Longrightarrow> (n, q) \<in> (edges K)\<^sup>* \<and> q \<notin> D" for q
  proof (induction rule: rtrancl_induct)
    case (step y z)
    then show ?case by (auto simp: edges_def prune_def intro: rtrancl.rtrancl_into_rtrancl split: if_splits)
  qed (use assms(2) in simp)
  ultimately show ?thesis by (auto simp: desc_def)
qed

lemma acyclic_sub: "acyclic (edges K) \<Longrightarrow> (\<And>q. set (L q) \<subseteq> set (K q)) \<Longrightarrow> acyclic (edges L)"
  by (rule acyclic_subset [of "edges K"]) (auto simp: edges_def)

lemma desc_detach:
  assumes "acyclic (edges K)" and "\<And>q. distinct (K q)"
  shows "desc (detach n K) n = desc K n"
proof -
  have e: "(p, q) \<in> edges (detach n K) \<longleftrightarrow> (p, q) \<in> edges K \<and> q \<noteq> n" for p q using assms(2) by (auto simp: edges_def detach_def)
  have "(n, q) \<in> (edges K)\<^sup>* \<Longrightarrow> (n, q) \<in> (edges (detach n K))\<^sup>*" for q
  proof (induction rule: rtrancl_induct)
    case (step y z)
    have "z \<noteq> n" using step.hyps assms(1) by (auto simp: acyclic_def dest: rtrancl_into_trancl1)
    then show ?case using step e by (auto intro: rtrancl.rtrancl_into_rtrancl)
  qed simp
  moreover have "(edges (detach n K))\<^sup>* \<subseteq> (edges K)\<^sup>*" by (rule rtrancl_mono) (use e in auto)
  ultimately show ?thesis by (auto simp: desc_def)
qed

lemma forest_free:
  assumes "forest h K" and "K n = []" and "\<And>q. n \<notin> set (K q)"
  shows "forest (h(n := None)) K"
  by (rule forestI) (use forest_node [OF assms(1)] forest_kid [OF assms(1)] assms(2,3) in \<open>auto split: if_splits\<close>)

text \<open>The nodes of \<open>D\<close> are gone and the others have kept their data.\<close>

definition freed_only :: "nat set \<Rightarrow> xheap \<Rightarrow> xheap \<Rightarrow> bool" where
  "freed_only D h h' \<longleftrightarrow> dom h' = dom h - D
     \<and> (\<forall>p. p \<notin> D \<longrightarrow> map_option m_value (h' p) = map_option m_value (h p) \<and> map_option m_ref (h' p) = map_option m_ref (h p))"

lemma freed_only_trans: "freed_only D h h' \<Longrightarrow> freed_only E h' h'' \<Longrightarrow> freed_only (D \<union> E) h h''"
  by (auto simp: freed_only_def)

lemma prune_prune: "prune E (prune D K) = prune (D \<union> E) K"
  by (auto simp: prune_def intro!: filter_cong)

lemma tree_heap_prune: "tree_heap h K \<Longrightarrow> forest h' (prune D K) \<Longrightarrow> freed_only E h h' \<Longrightarrow> tree_heap h' (prune D K)"
  unfolding tree_heap_def freed_only_def by (auto simp: prune_def intro: acyclic_sub [of K] split: if_splits)

definition deletes :: "nat \<Rightarrow> bool" where
  "deletes k \<longleftrightarrow> (\<forall>h K n. tree_heap h K \<longrightarrow> n \<in> dom h \<longrightarrow> 2 * card (desc K n) \<le> k \<longrightarrow>
     (\<exists>h'. mxmlDelete k (Some n) h = Inr h' \<and> forest h' (prune (desc K n) K) \<and> freed_only (desc K n) h h'))"

definition deletes_kids :: "nat \<Rightarrow> bool" where
  "deletes_kids k \<longleftrightarrow> (\<forall>h K n. tree_heap h K \<longrightarrow> n \<in> dom h \<longrightarrow> (\<forall>q. n \<notin> set (K q)) \<longrightarrow> 2 * card (desc K n) \<le> Suc k \<longrightarrow>
     (\<exists>h'. delete_children k n h = Inr h' \<and> forest h' (prune (desc K n - {n}) K) \<and> freed_only (desc K n - {n}) h h'))"

lemma finite_desc: "tree_heap h K \<Longrightarrow> n \<in> dom h \<Longrightarrow> finite (desc K n)"
  using desc_dom [of h K n] by (auto simp: tree_heap_def intro: finite_subset)

lemma prune_none: "(\<And>q. set (K q) \<inter> D = {}) \<Longrightarrow> (\<And>q. q \<in> D \<Longrightarrow> K q = []) \<Longrightarrow> prune D K = K"
  by (rule ext) (auto simp: prune_def filter_id_conv)

lemma deletes_step:
  assumes "deletes_kids k"
  shows "deletes (Suc k)"
  unfolding deletes_def
proof (intro allI impI)
  fix h K n assume t: "tree_heap h K" and n: "n \<in> dom h" and c: "2 * card (desc K n) \<le> Suc k"
  have f: "forest h K" "acyclic (edges K)" "\<And>q. distinct (K q)" using t forest_kid(2) by (auto simp: tree_heap_def)
  obtain x where x: "h n = Some x" using n by auto
  obtain h1 where h1: "mxmlRemove (Some n) h = Inr h1" "forest h1 (detach n K)" "same_data h h1" "map_option m_parent (h1 n) = Some None"
    using mxmlRemove_forest [OF f(1) x acyclic_self [OF f(2)]] by blast
  have d: "desc (detach n K) n = desc K n" by (rule desc_detach [OF f(2,3)])
  have t1: "tree_heap h1 (detach n K)"
    using h1(2) t same_data_dom [OF h1(3)] acyclic_sub [OF f(2), of "detach n K"] by (auto simp: tree_heap_def detach_def set_remove1_subset)
  have nk: "n \<notin> set (detach n K q)" for q using f(3) by (auto simp: detach_def)
  obtain h2 where h2: "delete_children k n h1 = Inr h2" "forest h2 (prune (desc K n - {n}) (detach n K))" "freed_only (desc K n - {n}) h1 h2"
    using assms [unfolded deletes_kids_def, rule_format, OF t1 _ nk] c d n same_data_dom [OF h1(3)] by auto
  have p: "prune (desc K n - {n}) (detach n K) = prune (desc K n) K"
  proof
    fix q
    have "q \<noteq> n \<Longrightarrow> filter (\<lambda>p. p \<in> desc K n \<longrightarrow> p = n) (remove1 n (K q)) = filter (\<lambda>p. p \<notin> desc K n) (K q)"
      using f(3) [of q] by (auto simp: distinct_remove1_removeAll removeAll_filter_not_eq intro!: filter_cong)
    moreover have "filter (\<lambda>p. p \<in> desc K n \<longrightarrow> p = n) (remove1 n (K n)) = []"
      using desc_closed [of n K n] f(3) [of n] by (auto simp: filter_empty_conv)
    ultimately show "prune (desc K n - {n}) (detach n K) q = prune (desc K n) K q"
      by (cases "q = n") (auto simp: prune_def detach_def)
  qed
  have "forest (h2(n := None)) (prune (desc K n) K)"
    by (rule forest_free) (use h2(2) p in \<open>auto simp: prune_def\<close>)
  moreover have "n \<in> dom h2" using h2(3) n same_data_dom [OF h1(3)] by (auto simp: freed_only_def)
  moreover have "freed_only (desc K n) h (h2(n := None))"
    using h2(3) h1(3) same_data_dom [OF h1(3)] desc_self [of n K] unfolding freed_only_def same_data_def by auto
  ultimately show "\<exists>h'. mxmlDelete (Suc k) (Some n) h = Inr h' \<and> forest h' (prune (desc K n) K) \<and> freed_only (desc K n) h h'"
    using h1(1) h2(1) by (auto simp: node_at_def)
qed

lemma deletes_kids_step:
  assumes "deletes k" and "deletes_kids k"
  shows "deletes_kids (Suc k)"
  unfolding deletes_kids_def
proof (intro allI impI)
  fix h K n assume t: "tree_heap h K" and n: "n \<in> dom h" and r: "\<forall>q. n \<notin> set (K q)" and c: "2 * card (desc K n) \<le> Suc (Suc k)"
  have f: "forest h K" "acyclic (edges K)" using t by (auto simp: tree_heap_def)
  obtain x where x: "h n = Some x" "m_child x = first (K n)" using n forest_node(1) [OF f(1)] by auto
  show "\<exists>h'. delete_children (Suc k) n h = Inr h' \<and> forest h' (prune (desc K n - {n}) K) \<and> freed_only (desc K n - {n}) h h'"
  proof (cases "K n")
    case Nil
    then have "desc K n = {n}" by (rule desc_no_kids)
    then show ?thesis using x Nil f(1) by (simp add: node_at_def prune_def freed_only_def)
  next
    case (Cons q qs)
    then have q: "q \<in> set (K n)" by simp
    let ?D = "desc K q"
    have dq: "?D \<subseteq> desc K n - {n}" using desc_kid [of q K n, OF q] acyclic_kid [OF f(2) q] by auto
    have fin: "finite (desc K n)" by (rule finite_desc [OF t n])
    have "card ?D \<le> card (desc K n - {n})" by (rule card_mono) (use fin dq in auto)
    then have cq: "2 * card ?D \<le> k" using c fin by (simp add: card_Diff_singleton)
    obtain h1 where h1: "mxmlDelete k (Some q) h = Inr h1" "forest h1 (prune ?D K)" "freed_only ?D h h1"
      using assms(1) [unfolded deletes_def, rule_format, OF t _ cq] forest_kid(1) [OF f(1) q] by auto
    have t1: "tree_heap h1 (prune ?D K)" by (rule tree_heap_prune [OF t h1(2,3)])
    have d1: "desc (prune ?D K) n = desc K n - ?D" by (rule desc_prune) (use dq desc_closed in auto)
    have n1: "n \<in> dom h1" using h1(3) n dq by (auto simp: freed_only_def)
    have "card (desc K n - ?D) < card (desc K n)" by (rule psubset_card_mono) (use fin dq desc_self [of q K] in blast)+
    then have c1: "2 * card (desc (prune ?D K) n) \<le> Suc k" using c d1 by simp
    have r1: "n \<notin> set (prune ?D K p)" for p using r by (simp add: prune_def)
    obtain h2 where h2: "delete_children k n h1 = Inr h2" "forest h2 (prune (desc K n - ?D - {n}) (prune ?D K))" "freed_only (desc K n - ?D - {n}) h1 h2"
      using assms(2) [unfolded deletes_kids_def, rule_format, OF t1 n1 r1 c1] unfolding d1 by blast
    have u: "?D \<union> (desc K n - ?D - {n}) = desc K n - {n}" using dq by auto
    show ?thesis
      using h1(1) h2(1,2) freed_only_trans [OF h1(3) h2(3)] x Cons unfolding prune_prune u by (simp add: node_at_def)
  qed
qed

text \<open>Deletion ends, frees exactly the subtree, and leaves the forest without it.\<close>

lemma mxmlDelete_frees:
  assumes "tree_heap h K" and "n \<in> dom h" and "2 * card (desc K n) \<le> fuel"
  shows "\<exists>h'. mxmlDelete fuel (Some n) h = Inr h' \<and> forest h' (prune (desc K n) K) \<and> freed_only (desc K n) h h'"
proof -
  have "deletes k \<and> deletes_kids k" for k
  proof (induction k)
    case 0
    have "card (desc K n) \<noteq> 0" if "tree_heap h K" "n \<in> dom h" for h K n
      using finite_desc [OF that] desc_self [of n K] unfolding card_eq_0_iff by blast
    then have "\<not> 2 * card (desc K n) \<le> Suc 0" if "tree_heap h K" "n \<in> dom h" for h K n using that by fastforce
    then show ?case unfolding deletes_def deletes_kids_def by (meson le_SucI)
  next
    case (Suc k)
    then show ?case using deletes_step deletes_kids_step by blast
  qed
  then show ?thesis using assms by (simp add: deletes_def)
qed

section \<open>Searching among the children\<close>

definition matching :: "xheap \<Rightarrow> string option \<Rightarrow> string option \<Rightarrow> string option \<Rightarrow> nat \<Rightarrow> bool" where
  "matching h name attr v p \<longleftrightarrow> (case h p of None \<Rightarrow> False | Some x \<Rightarrow> node_matches name attr v x)"

lemma forest_next:
  assumes "forest h K" and "K par = xs @ c # ys"
  obtains x where "h c = Some x" "m_next x = first ys" "m_parent x = Some par"
  using forest_list [OF assms] by metis

lemma find_loop_siblings:
  assumes "forest h K" and "d \<noteq> MXML_DESCEND" and "K par = xs @ ys"
  shows "find_loop t name attr v d h (first ys) = Some (Inr (first (filter (matching h name attr v) ys)))"
  using assms(3)
proof (induction ys arbitrary: xs)
  case Nil
  then show ?case by (simp add: find_loop.simps)
next
  case (Cons y ys)
  obtain x where x: "h y = Some x" "m_next x = first ys" by (rule forest_next [OF assms(1) Cons.prems])
  have "find_loop t name attr v d h (first ys) = Some (Inr (first (filter (matching h name attr v) ys)))"
    by (rule Cons.IH [of "xs @ [y]"]) (use Cons.prems in simp)
  moreover have "matching h name attr v y = node_matches name attr v x" using x(1) by (simp add: matching_def)
  ultimately show ?case
    using x assms(2) find_loop.simps [of t name attr v d h "Some y"]
    by (cases "node_matches name attr v x") (simp_all add: node_at_def)
qed

lemma find_first_child:
  assumes "forest h K" and "p \<in> dom h" and "attr \<noteq> None \<or> v = None"
  shows "mxmlFindElement (Some p) (Some p) name attr v MXML_DESCEND_FIRST h = Some (Inr (first (filter (matching h name attr v) (K p))))"
proof -
  obtain x where x: "h p = Some x" "m_child x = first (K p)" using assms(2) forest_node(1) [OF assms(1)] by auto
  show ?thesis
    using find_loop_siblings [OF assms(1), of MXML_DESCEND_FIRST p "[]" "K p" "Some p" name attr v] x assms(3)
    by (cases "K p") (auto simp: mxmlFindElement_def mxmlWalkNext_def node_at_def find_loop.simps [of _ _ _ _ _ _ None])
qed

lemma find_next_child:
  assumes "forest h K" and "K p = xs @ c # ys" and "c \<noteq> p" and "attr \<noteq> None \<or> v = None"
  shows "mxmlFindElement (Some c) (Some p) name attr v MXML_NO_DESCEND h = Some (Inr (first (filter (matching h name attr v) ys)))"
proof -
  obtain x where x: "h c = Some x" "m_next x = first ys" "m_parent x = Some p" by (rule forest_next [OF assms(1,2)])
  show ?thesis
    using find_loop_siblings [OF assms(1), of MXML_NO_DESCEND p "xs @ [c]" ys "Some p" name attr v] x assms
    by (cases ys) (auto simp: mxmlFindElement_def mxmlWalkNext_def node_at_def find_loop.simps [of _ _ _ _ _ _ None])
qed

section \<open>Walking the tree\<close>

text \<open>The nodes of a subtree in document order: a node before its children.\<close>

inductive preorder :: "(nat \<Rightarrow> nat list) \<Rightarrow> nat \<Rightarrow> nat list \<Rightarrow> bool" for K where
  node: "list_all2 (preorder K) (K p) xss \<Longrightarrow> preorder K p (p # concat xss)"

inductive_cases preorder_cases: "preorder K p xs"

lemma preorder_start: "preorder K p xs \<Longrightarrow> \<exists>ys. xs = p # ys"
  by (auto elim: preorder_cases)

text \<open>What the walk finds behind the last node of the subtree of \<open>n\<close>.\<close>

definition leave :: "xheap \<Rightarrow> ptr \<Rightarrow> nat \<Rightarrow> ptr res option" where
  "leave h t n = (if Some n = t then Some (Inr None) else walk_up h t n)"

lemma walk_leaf:
  assumes "h n = Some x"
  shows "m_child x = None \<Longrightarrow> mxmlWalkNext (Some n) t MXML_DESCEND h = leave h t n"
    "m_child x = Some c \<Longrightarrow> mxmlWalkNext (Some n) t MXML_DESCEND h = Some (Inr (Some c))"
  using assms walk_up.simps [of h t n] by (auto simp: mxmlWalkNext_def leave_def node_at_def split: option.splits)

lemma leave_kid:
  assumes "forest h K" and "K n = cs @ c # ds" and "Some c \<noteq> t"
  shows "leave h t c = (if ds = [] then leave h t n else Some (Inr (first ds)))"
proof -
  obtain x where x: "h c = Some x" "m_next x = first ds" "m_parent x = Some n" by (rule forest_next [OF assms(1,2)])
  then show ?thesis using assms(3) walk_up.simps [of h t c] by (auto simp: leave_def node_at_def first_def)
qed

lemma split_concat:
  assumes "concat xss = as @ p # bs"
  obtains yss ys zss as' bs' where "xss = yss @ ys # zss" "ys = as' @ p # bs'" "bs = bs' @ concat zss" "as = concat yss @ as'"
  using assms
proof (induction xss arbitrary: as thesis)
  case (Cons xs xss)
  consider us where "xs = as @ p # us" "bs = us @ concat xss" | us where "as = xs @ us" "concat xss = us @ p # bs"
    using Cons.prems(2) by (auto simp: append_eq_append_conv2 append_eq_Cons_conv)
  then show ?case
  proof cases
    case 1
    then show ?thesis using Cons.prems(1) [of "[]" xs xss as us] by simp
  next
    case 2
    show ?thesis by (rule Cons.IH [OF _ 2(2)]) (use 2(1) Cons.prems(1) in \<open>metis append_Cons concat.simps(2) append.assoc\<close>)
  qed
qed simp

lemma list_all2_split: "list_all2 P xs (yss @ ys # zss) \<Longrightarrow> \<exists>cs c ds. xs = cs @ c # ds \<and> P c ys \<and> list_all2 P ds zss"
  by (auto simp: list_all2_append2 list_all2_Cons2)

lemma walk_preorder:
  assumes "forest h K"
  shows "preorder K n xs \<Longrightarrow> n \<in> dom h \<Longrightarrow> t \<notin> Some ` set (tl xs) \<Longrightarrow> xs = as @ p # bs \<Longrightarrow>
     mxmlWalkNext (Some p) t MXML_DESCEND h = (if bs = [] then leave h t n else Some (Inr (first bs)))"
proof (induction arbitrary: as bs rule: preorder.induct)
  case (node n xss)
  obtain x where x: "h n = Some x" "m_child x = first (K n)" using node.prems(1) forest_node(1) [OF assms] by auto
  show ?case
  proof (cases as)
    case Nil
    then have p: "p = n" "bs = concat xss" using node.prems(3) by auto
    show ?thesis
    proof (cases "K n")
      case Nil
      then have "xss = []" using node.IH by simp
      then show ?thesis using p walk_leaf(1) [of h n x t, OF x(1)] x(2) Nil by simp
    next
      case (Cons c cs)
      then obtain ys yss where ys: "xss = ys # yss" "preorder K c ys" using node.IH by (auto simp: list_all2_Cons1)
      obtain zs where "ys = c # zs" using preorder_start [OF ys(2)] by blast
      then show ?thesis using p walk_leaf(2) [of h n x c t, OF x(1)] x(2) Cons ys(1) by simp
    qed
  next
    case (Cons _ as0)
    then have "concat xss = as0 @ p # bs" using node.prems(3) by simp
    then obtain yss ys zss as' bs' where s: "xss = yss @ ys # zss" "ys = as' @ p # bs'" "bs = bs' @ concat zss" by (rule split_concat)
    obtain cs c ds where k: "K n = cs @ c # ds" "preorder K c ys" "c \<in> dom h \<longrightarrow> t \<notin> Some ` set (tl ys) \<longrightarrow> (\<forall>as bs. ys = as @ p # bs \<longrightarrow>
          mxmlWalkNext (Some p) t MXML_DESCEND h = (if bs = [] then leave h t c else Some (Inr (first bs))))"
        "list_all2 (preorder K) ds zss"
      using list_all2_split [OF node.IH [unfolded s(1)]] by (blast intro: list_all2_mono)
    have c: "c \<in> dom h" using forest_kid(1) [OF assms, of c n] k(1) by auto
    have sub: "set ys \<subseteq> set (concat xss)" using s(1) by auto
    obtain ys0 where y0: "ys = c # ys0" using preorder_start [OF k(2)] by blast
    have t: "t \<notin> Some ` set (tl ys)" "Some c \<noteq> t" using node.prems(2) sub y0 by auto
    have w: "mxmlWalkNext (Some p) t MXML_DESCEND h = (if bs' = [] then leave h t c else Some (Inr (first bs')))"
      using k(3) c t(1) s(2) by blast
    have "leave h t c = (if concat zss = [] then leave h t n else Some (Inr (first (concat zss))))"
    proof (cases ds)
      case Nil
      then show ?thesis using leave_kid [OF assms k(1) t(2)] k(4) by simp
    next
      case (Cons d ds')
      then obtain zs zss' where z: "zss = zs # zss'" "preorder K d zs" using k(4) by (auto simp: list_all2_Cons1)
      then show ?thesis using leave_kid [OF assms k(1) t(2)] preorder_start [OF z(2)] Cons by auto
    qed
    then show ?thesis using w s(3) by simp
  qed
qed

lemma concat_desc: "list_all2 (\<lambda>c ys. preorder K c ys \<and> set ys = desc K c) cs xss \<Longrightarrow> set (concat xss) = (\<Union>c \<in> set cs. desc K c)"
  by (induction rule: list_all2_induct) auto

lemma desc_unfold: "desc K n = insert n (\<Union>c \<in> set (K n). desc K c)"
  by (auto simp: desc_def edges_def elim: converse_rtranclE intro: converse_rtrancl_into_rtrancl)

lemma preorder_set: "preorder K n xs \<Longrightarrow> set xs = desc K n"
proof (induction rule: preorder.induct)
  case (node n xss)
  then show ?case using concat_desc [OF node.IH] desc_unfold [of K n] by simp
qed

text \<open>The subtrees of two children have no node in common.\<close>

lemma desc_parent:
  assumes "forest h K" and "q \<in> desc K c" and "q \<in> set (K r)" and "q \<noteq> c"
  shows "r \<in> desc K c"
proof -
  have "(c, q) \<in> (edges K)\<^sup>*" using assms(2) by (simp add: desc_def)
  then obtain y where "(c, y) \<in> (edges K)\<^sup>*" "q \<in> set (K y)" using assms(4) by (cases rule: rtranclE) (auto simp: edges_def)
  then show ?thesis using forest_parent_unique [OF assms(1,3)] by (auto simp: desc_def)
qed

lemma desc_apart:
  assumes "forest h K" "acyclic (edges K)" and "c \<in> set (K n)" "d \<in> set (K n)" "c \<noteq> d"
  shows "desc K c \<inter> desc K d = {}"
proof -
  have "q \<in> desc K d \<longrightarrow> False" if "(c, q) \<in> (edges K)\<^sup>*" for q
    using that
  proof (induction rule: rtrancl_induct)
    case base
    show ?case using desc_parent [OF assms(1) _ assms(3), of d] acyclic_kid [OF assms(2,4)] assms(5) by auto
  next
    case (step y z)
    show ?case
    proof
      assume z: "z \<in> desc K d"
      show False
      proof (cases "z = d")
        case True
        then have "y = n" using step.hyps(2) forest_parent_unique [OF assms(1), of d y n] assms(4) by (auto simp: edges_def)
        then show False using step.hyps(1) acyclic_kid [OF assms(2,3)] by (simp add: desc_def)
      next
        case False
        then show False using desc_parent [OF assms(1) z, of y] step by (auto simp: edges_def)
      qed
    qed
  qed
  then show ?thesis by (auto simp: desc_def)
qed

lemma distinct_concat_desc:
  assumes "list_all2 (\<lambda>c ys. preorder K c ys \<and> distinct ys) cs xss" and "distinct cs"
    and "\<And>c d. c \<in> set cs \<Longrightarrow> d \<in> set cs \<Longrightarrow> c \<noteq> d \<Longrightarrow> desc K c \<inter> desc K d = {}"
  shows "distinct (concat xss) \<and> set (concat xss) = (\<Union>c \<in> set cs. desc K c)"
  using assms
proof (induction rule: list_all2_induct)
  case (Cons c cs ys yss)
  have "desc K c \<inter> desc K d = {}" if "d \<in> set cs" for d by (rule Cons.prems(2)) (use that Cons.prems(1) in auto)
  then have "desc K c \<inter> (\<Union>d \<in> set cs. desc K d) = {}" by blast
  moreover have "distinct (concat yss) \<and> set (concat yss) = (\<Union>d \<in> set cs. desc K d)" using Cons.IH Cons.prems by auto
  ultimately show ?case using Cons.hyps(1) preorder_set by fastforce
qed simp

lemma preorder_exists:
  assumes "tree_heap h K"
  shows "n \<in> dom h \<Longrightarrow> \<exists>xs. preorder K n xs \<and> distinct xs"
proof (induction "card (desc K n)" arbitrary: n rule: less_induct)
  case less
  have f: "forest h K" "acyclic (edges K)" using assms by (auto simp: tree_heap_def)
  have "\<exists>ys. preorder K c ys \<and> distinct ys" if c: "c \<in> set (K n)" for c
  proof (rule less.hyps)
    have "desc K c \<subset> desc K n" using desc_kid [of c K n, OF c] acyclic_kid [OF f(2) c] desc_self [of n K] by blast
    then show "card (desc K c) < card (desc K n)" by (rule psubset_card_mono [OF finite_desc [OF assms less.prems]])
  qed (use forest_kid(1) [OF f(1) c] in auto)
  then obtain g where g: "\<And>c. c \<in> set (K n) \<Longrightarrow> preorder K c (g c) \<and> distinct (g c)" by metis
  then have l: "list_all2 (\<lambda>c ys. preorder K c ys \<and> distinct ys) (K n) (map g (K n))" by (simp add: list_all2_conv_all_nth)
  have "distinct (concat (map g (K n))) \<and> set (concat (map g (K n))) = (\<Union>c \<in> set (K n). desc K c)"
    by (rule distinct_concat_desc [OF l forest_kid(2) [OF f(1)] desc_apart [OF f]])
  moreover have "n \<notin> (\<Union>c \<in> set (K n). desc K c)" using acyclic_kid [OF f(2)] by auto
  moreover have "preorder K n (n # concat (map g (K n)))" by (rule preorder.node) (use g in \<open>simp add: list_all2_conv_all_nth\<close>)
  ultimately show ?case by auto
qed

text \<open>A search that descends finds the first match behind the node in document order.\<close>

lemma find_descend:
  assumes "forest h K" and "preorder K t xs" and "distinct xs" and "t \<in> dom h" and "attr \<noteq> None \<or> v = None" and "xs = as @ p # bs"
  shows "mxmlWalkNext (Some p) (Some t) MXML_DESCEND h = Some (Inr (first bs))"
    "mxmlFindElement (Some p) (Some t) name attr v MXML_DESCEND h = Some (Inr (first (filter (matching h name attr v) bs)))"
proof -
  have tl: "Some t \<notin> Some ` set (tl xs)" using preorder_start [OF assms(2)] assms(3) by auto
  have w: "mxmlWalkNext (Some p) (Some t) MXML_DESCEND h = Some (Inr (first bs))" if "xs = as @ p # bs" for as p bs
    using walk_preorder [OF assms(1,2,4) tl that] by (simp add: leave_def first_def)
  then show "mxmlWalkNext (Some p) (Some t) MXML_DESCEND h = Some (Inr (first bs))" using assms(6) .
  have "xs = cs @ ds \<Longrightarrow> cs \<noteq> [] \<Longrightarrow> find_loop (Some t) name attr v MXML_DESCEND h (first ds) = Some (Inr (first (filter (matching h name attr v) ds)))" for cs ds
  proof (induction ds arbitrary: cs)
    case Nil
    then show ?case by (simp add: find_loop.simps)
  next
    case (Cons d ds)
    have "d \<in> dom h" using preorder_set [OF assms(2)] desc_dom [OF assms(1,4)] Cons.prems(1) by auto
    then obtain x where x: "h d = Some x" by auto
    have m: "matching h name attr v d = node_matches name attr v x" using x by (simp add: matching_def)
    show ?case
      using Cons.IH [of "cs @ [d]"] Cons.prems(1) x m w [OF Cons.prems(1)] find_loop.simps [of "Some t" name attr v MXML_DESCEND h "Some d"]
      by (cases "node_matches name attr v x") (simp_all add: node_at_def)
  qed
  from this [of "as @ [p]" bs] show "mxmlFindElement (Some p) (Some t) name attr v MXML_DESCEND h = Some (Inr (first (filter (matching h name attr v) bs)))"
    using w [OF assms(6)] assms(5,6) by (auto simp: mxmlFindElement_def)
qed

lemma add_kid_acyclic:
  assumes "acyclic (edges K)" and "\<And>q. distinct (K q)" and "par \<notin> desc K n"
  shows "acyclic (edges (add_kid par pos child n K))"
proof -
  have put: "set (put_before c n ys) = insert n (set ys)" for c ys by (induction ys) auto
  have "set (insert_at pos child n ys) = insert n (set ys)" for ys by (auto simp: insert_at_def put split: where_t.splits option.splits)
  then have "edges (add_kid par pos child n K) \<subseteq> insert (par, n) (edges (detach n K))" by (auto simp: edges_def add_kid_def split: if_splits)
  moreover have "par \<notin> desc (detach n K) n" using desc_detach [OF assms(1,2), of n] assms(3) by simp
  moreover have "acyclic (edges (detach n K))" by (rule acyclic_sub [OF assms(1)]) (simp add: detach_def set_remove1_subset)
  ultimately show ?thesis by (auto simp: acyclic_insert desc_def intro: acyclic_subset)
qed

text \<open>A tree of two nodes, the second the child of the first, and a third node apart.\<close>

definition sample_node :: "ptr \<Rightarrow> ptr \<Rightarrow> string \<Rightarrow> mxml_node" where
  "sample_node par kid s = \<lparr>m_next = None, m_prev = None, m_parent = par, m_child = kid, m_last = kid, m_value = MXML_ELEMENT (Some s) [], m_ref = 1\<rparr>"

definition sample_heap :: xheap where
  "sample_heap = [10 \<mapsto> sample_node None (Some 20) ''a'', 20 \<mapsto> sample_node (Some 10) None ''b'', 30 \<mapsto> sample_node None None ''c'']"

definition sample_kids :: "nat \<Rightarrow> nat list" where
  "sample_kids = (\<lambda>_. [])(10 := [20])"

lemma sample_tree: "tree_heap sample_heap sample_kids"
proof -
  have "edges sample_kids = {(10, 20)}" by (auto simp: edges_def sample_kids_def split: if_splits)
  moreover have "forest sample_heap sample_kids"
    by (rule forestI) (auto simp: sample_heap_def sample_kids_def sample_node_def split: if_splits)
  moreover have "acyclic ({} :: (nat \<times> nat) set)" by (simp add: acyclic_def)
  ultimately show ?thesis by (auto simp: tree_heap_def acyclic_insert sample_heap_def)
qed

lemma sample_desc: "desc sample_kids 10 = {10, 20}" "desc sample_kids 30 = {30}" "desc sample_kids 20 = {20}"
proof -
  show c: "desc sample_kids 30 = {30}" "desc sample_kids 20 = {20}" by (rule desc_no_kids; simp add: sample_kids_def)+
  show "desc sample_kids 10 = {10, 20}" using desc_unfold [of sample_kids 10] c(2) by (simp add: sample_kids_def)
qed

section \<open>Properties\<close>

text \<open>C7. Adding a node to a tree, in any of the four places \<open>mxmlAdd\<close> knows, returns and moves exactly
  that node with its subtree in the ordered lists of children: out of the list it was in and into the
  list of its new parent. The heap stays a tree and no data changes. The new parent must not be
  inside the subtree that is moved.\<close>

theorem Add_moves:
  assumes "tree_heap h K" and "n \<in> dom h" "par \<in> dom h" "par \<notin> desc K n" and "child = None \<or> child = Some c \<and> c \<in> dom h \<and> c \<noteq> n"
  shows "\<exists>h'. mxmlAdd (Some par) pos child (Some n) h = Inr h' \<and> tree_heap h' (add_kid par pos child n K) \<and> same_data h h'"
proof -
  have f: "forest h K" "acyclic (edges K)" using assms(1) by (auto simp: tree_heap_def)
  have "n \<noteq> par" using assms(4) by auto
  then obtain h' where h': "mxmlAdd (Some par) pos child (Some n) h = Inr h'" "forest h' (add_kid par pos child n K)" "same_data h h'"
    using mxmlAdd_forest [OF f(1) assms(2,3) _ acyclic_self [OF f(2)]] assms(5) by blast
  moreover have "acyclic (edges (add_kid par pos child n K))" using add_kid_acyclic [OF f(2) forest_kid(2) [OF f(1)] assms(4)] .
  ultimately show ?thesis using assms(1) same_data_dom [OF h'(3)] by (auto simp: tree_heap_def)
qed

theorem Add_moves_witness:
  "\<exists>h'. mxmlAdd (Some 10) MXML_ADD_BEFORE (Some 20) (Some 30) sample_heap = Inr h' \<and> tree_heap h' (sample_kids(10 := [30, 20]))"
proof -
  have "add_kid 10 MXML_ADD_BEFORE (Some 20) 30 sample_kids = sample_kids(10 := [30, 20])"
    by (auto simp: add_kid_def detach_def insert_at_def sample_kids_def)
  then show ?thesis
    using Add_moves [OF sample_tree, of 30 10 "Some 20" 20 MXML_ADD_BEFORE] by (auto simp: sample_heap_def sample_desc)
qed

text \<open>C6. Deleting a node of a tree ends and uses no freed memory. It frees exactly the nodes of the subtree; the
  other nodes stay a tree, with the subtree cut out, and keep their data.\<close>

theorem Delete_frees_subtree:
  assumes "tree_heap h K" and "n \<in> dom h"
  shows "\<exists>h'. mxmlDelete (2 * card (desc K n)) (Some n) h = Inr h' \<and> tree_heap h' (prune (desc K n) K) \<and> freed_only (desc K n) h h'"
  using mxmlDelete_frees [OF assms order_refl] tree_heap_prune [OF assms(1)] by blast

theorem Delete_frees_subtree_witness: "\<exists>h'. mxmlDelete 4 (Some 10) sample_heap = Inr h' \<and> dom h' = {30}"
proof -
  have "dom sample_heap - {10, 20} = {30}" by (auto simp: sample_heap_def)
  then show ?thesis using Delete_frees_subtree [OF sample_tree, of 10] by (auto simp: sample_heap_def sample_desc freed_only_def)
qed

text \<open>C8. The walk over a tree, and the search that descends, visit its nodes in document order: there is one
  order of all nodes of the tree, a node before its children and the children in their order, such that from
  each node the walk goes to the next one and the search to the next one that matches.\<close>

theorem walk_in_order:
  assumes "tree_heap h K" and "t \<in> dom h"
  shows "\<exists>xs. preorder K t xs \<and> distinct xs \<and> set xs = desc K t \<and> (\<forall>as p bs. xs = as @ p # bs \<longrightarrow>
     mxmlWalkNext (Some p) (Some t) MXML_DESCEND h = Some (Inr (first bs))
     \<and> (\<forall>name. mxmlFindElement (Some p) (Some t) name None None MXML_DESCEND h = Some (Inr (first (filter (matching h name None None) bs)))))"
proof -
  obtain xs where xs: "preorder K t xs" "distinct xs" using preorder_exists [OF assms] by blast
  have f: "forest h K" using assms(1) by (simp add: tree_heap_def)
  show ?thesis
    using xs preorder_set [OF xs(1)] find_descend [OF f xs assms(2), of None None] by (intro exI [of _ xs]) simp
qed

theorem walk_in_order_witness: "\<exists>p. mxmlWalkNext (Some p) (Some 10) MXML_DESCEND sample_heap = Some (Inr None) \<and> p \<in> {10, 20}"
proof -
  obtain xs where xs: "set xs = {10, 20}" "\<And>as p bs. xs = as @ p # bs \<Longrightarrow> mxmlWalkNext (Some p) (Some 10) MXML_DESCEND sample_heap = Some (Inr (first bs))"
    using walk_in_order [OF sample_tree, of 10] sample_desc by (auto simp: sample_heap_def)
  then have "xs \<noteq> []" by auto
  then have "xs = butlast xs @ [last xs]" "last xs \<in> {10, 20}" using xs(1) last_in_set [of xs] by auto
  then show ?thesis using xs(2) [of "butlast xs" "last xs" "[]"] by auto
qed

end
