(* ===== verification/Entities.thy ===== *)
theory Entities
  imports Prelude "HOL-Library.List_Lexorder"
begin

text \<open>
  The named entities of the XML library (src/mxml/mxml-entity.c): the table of names and the binary
  search in it, and the proof that the search finds exactly the entries of the table.
\<close>

section \<open>The code\<close>

text \<open>\<^verbatim>\<open>strcmp\<close> on strings without a null character: the difference of the first characters that differ.\<close>

fun strcmp :: "string \<Rightarrow> string \<Rightarrow> int" where
  "strcmp [] [] = 0"
| "strcmp [] (d # ds) = - int (of_char d)"
| "strcmp (c # cs) [] = int (of_char c)"
| "strcmp (c # cs) (d # ds) = (if c = d then strcmp cs ds else int (of_char c) - int (of_char d))"

definition entities :: "(string \<times> int) list" where
  "entities = [
     (''AElig'', 198), (''Aacute'', 193), (''Acirc'', 194), (''Agrave'', 192), (''Alpha'', 913), (''Aring'', 197),
     (''Atilde'', 195), (''Auml'', 196), (''Beta'', 914), (''Ccedil'', 199), (''Chi'', 935), (''Dagger'', 8225),
     (''Delta'', 916), (''Dstrok'', 208), (''ETH'', 208), (''Eacute'', 201), (''Ecirc'', 202), (''Egrave'', 200),
     (''Epsilon'', 917), (''Eta'', 919), (''Euml'', 203), (''Gamma'', 915), (''Iacute'', 205), (''Icirc'', 206),
     (''Igrave'', 204), (''Iota'', 921), (''Iuml'', 207), (''Kappa'', 922), (''Lambda'', 923), (''Mu'', 924),
     (''Ntilde'', 209), (''Nu'', 925), (''OElig'', 338), (''Oacute'', 211), (''Ocirc'', 212), (''Ograve'', 210),
     (''Omega'', 937), (''Omicron'', 927), (''Oslash'', 216), (''Otilde'', 213), (''Ouml'', 214), (''Phi'', 934),
     (''Pi'', 928), (''Prime'', 8243), (''Psi'', 936), (''Rho'', 929), (''Scaron'', 352), (''Sigma'', 931),
     (''THORN'', 222), (''Tau'', 932), (''Theta'', 920), (''Uacute'', 218), (''Ucirc'', 219), (''Ugrave'', 217),
     (''Upsilon'', 933), (''Uuml'', 220), (''Xi'', 926), (''Yacute'', 221), (''Yuml'', 376), (''Zeta'', 918),
     (''aacute'', 225), (''acirc'', 226), (''acute'', 180), (''aelig'', 230), (''agrave'', 224), (''alefsym'', 8501),
     (''alpha'', 945), (''and'', 8743), (''ang'', 8736), (''aring'', 229), (''asymp'', 8776), (''atilde'', 227),
     (''auml'', 228), (''bdquo'', 8222), (''beta'', 946), (''brkbar'', 166), (''brvbar'', 166), (''bull'', 8226),
     (''cap'', 8745), (''ccedil'', 231), (''cedil'', 184), (''cent'', 162), (''chi'', 967), (''circ'', 710),
     (''clubs'', 9827), (''cong'', 8773), (''copy'', 169), (''crarr'', 8629), (''cup'', 8746), (''curren'', 164),
     (''dArr'', 8659), (''dagger'', 8224), (''darr'', 8595), (''deg'', 176), (''delta'', 948), (''diams'', 9830),
     (''die'', 168), (''divide'', 247), (''eacute'', 233), (''ecirc'', 234), (''egrave'', 232), (''empty'', 8709),
     (''emsp'', 8195), (''ensp'', 8194), (''epsilon'', 949), (''equiv'', 8801), (''eta'', 951), (''eth'', 240),
     (''euml'', 235), (''euro'', 8364), (''exist'', 8707), (''fnof'', 402), (''forall'', 8704), (''frac12'', 189),
     (''frac14'', 188), (''frac34'', 190), (''frasl'', 8260), (''gamma'', 947), (''ge'', 8805), (''hArr'', 8660),
     (''harr'', 8596), (''hearts'', 9829), (''hellip'', 8230), (''hibar'', 175), (''iacute'', 237), (''icirc'', 238),
     (''iexcl'', 161), (''igrave'', 236), (''image'', 8465), (''infin'', 8734), (''int'', 8747), (''iota'', 953),
     (''iquest'', 191), (''isin'', 8712), (''iuml'', 239), (''kappa'', 954), (''lArr'', 8656), (''lambda'', 955),
     (''lang'', 9001), (''laquo'', 171), (''larr'', 8592), (''lceil'', 8968), (''ldquo'', 8220), (''le'', 8804),
     (''lfloor'', 8970), (''lowast'', 8727), (''loz'', 9674), (''lrm'', 8206), (''lsaquo'', 8249), (''lsquo'', 8216),
     (''macr'', 175), (''mdash'', 8212), (''micro'', 181), (''middot'', 183), (''minus'', 8722), (''mu'', 956),
     (''nabla'', 8711), (''nbsp'', 160), (''ndash'', 8211), (''ne'', 8800), (''ni'', 8715), (''not'', 172),
     (''notin'', 8713), (''nsub'', 8836), (''ntilde'', 241), (''nu'', 957), (''oacute'', 243), (''ocirc'', 244),
     (''oelig'', 339), (''ograve'', 242), (''oline'', 8254), (''omega'', 969), (''omicron'', 959), (''oplus'', 8853),
     (''or'', 8744), (''ordf'', 170), (''ordm'', 186), (''oslash'', 248), (''otilde'', 245), (''otimes'', 8855),
     (''ouml'', 246), (''para'', 182), (''part'', 8706), (''permil'', 8240), (''perp'', 8869), (''phi'', 966),
     (''pi'', 960), (''piv'', 982), (''plusmn'', 177), (''pound'', 163), (''prime'', 8242), (''prod'', 8719),
     (''prop'', 8733), (''psi'', 968), (''rArr'', 8658), (''radic'', 8730), (''rang'', 9002), (''raquo'', 187),
     (''rarr'', 8594), (''rceil'', 8969), (''rdquo'', 8221), (''real'', 8476), (''reg'', 174), (''rfloor'', 8971),
     (''rho'', 961), (''rlm'', 8207), (''rsaquo'', 8250), (''rsquo'', 8217), (''sbquo'', 8218), (''scaron'', 353),
     (''sdot'', 8901), (''sect'', 167), (''shy'', 173), (''sigma'', 963), (''sigmaf'', 962), (''sim'', 8764),
     (''spades'', 9824), (''sub'', 8834), (''sube'', 8838), (''sum'', 8721), (''sup'', 8835), (''sup1'', 185),
     (''sup2'', 178), (''sup3'', 179), (''supe'', 8839), (''szlig'', 223), (''tau'', 964), (''there4'', 8756),
     (''theta'', 952), (''thetasym'', 977), (''thinsp'', 8201), (''thorn'', 254), (''tilde'', 732), (''times'', 215),
     (''trade'', 8482), (''uArr'', 8657), (''uacute'', 250), (''uarr'', 8593), (''ucirc'', 251), (''ugrave'', 249),
     (''uml'', 168), (''upsih'', 978), (''upsilon'', 965), (''uuml'', 252), (''weierp'', 8472), (''xi'', 958),
     (''yacute'', 253), (''yen'', 165), (''yuml'', 255), (''zeta'', 950), (''zwj'', 8205), (''zwnj'', 8204)
   ]"

function entity_search :: "(string \<times> int) list \<Rightarrow> string \<Rightarrow> nat \<Rightarrow> nat \<Rightarrow> int" where
  "entity_search es name lo hi =
     (if hi - lo > 1 then
        let current = (lo + hi) div 2; diff = strcmp name (fst (es ! current))
        in if diff = 0 then snd (es ! current)
           else if diff < 0 then entity_search es name lo current else entity_search es name current hi
      else if strcmp name (fst (es ! lo)) = 0 then snd (es ! lo)
      else if strcmp name (fst (es ! hi)) = 0 then snd (es ! hi)
      else -1)"
  by pat_completeness auto
termination by (relation "measure (\<lambda>(es, name, lo, hi). hi - lo)") auto

declare entity_search.simps [simp del]

definition mxml_entity_cb :: "string \<Rightarrow> int" where
  "mxml_entity_cb name = entity_search entities name 0 (length entities - 1)"

text \<open>The callbacks are asked in turn; the library starts with the one above.\<close>

primrec mxmlEntityGetValue :: "(string \<Rightarrow> int) list \<Rightarrow> string \<Rightarrow> int" where
  "mxmlEntityGetValue [] name = -1"
| "mxmlEntityGetValue (cb # cbs) name = (if cb name \<ge> 0 then cb name else mxmlEntityGetValue cbs name)"

definition mxmlEntityAddCallback :: "(string \<Rightarrow> int) \<Rightarrow> (string \<Rightarrow> int) list \<Rightarrow> int \<times> (string \<Rightarrow> int) list" where
  "mxmlEntityAddCallback cb cbs = (if length cbs < 100 then (0, cbs @ [cb]) else (-1, cbs))"

definition mxmlEntityGetName :: "int \<Rightarrow> string option" where
  "mxmlEntityGetName v = (if v = 38 then Some ''amp'' else if v = 60 then Some ''lt''
     else if v = 62 then Some ''gt'' else if v = 34 then Some ''quot'' else None)"

section \<open>The search is a lookup\<close>

abbreviation key :: "string \<Rightarrow> nat list" where
  "key s \<equiv> map of_char s"

lemma strcmp_less: "NUL \<notin> set s \<Longrightarrow> NUL \<notin> set t \<Longrightarrow> strcmp s t < 0 \<longleftrightarrow> key s < key t"
proof (induction s t rule: strcmp.induct)
  case (2 d ds)
  then have "(of_char d :: nat) \<noteq> of_char (NUL :: char)" by auto
  then show ?case by (simp add: NUL_def)
qed (auto simp: of_char_eq_iff)

lemma strcmp_0: "NUL \<notin> set s \<Longrightarrow> NUL \<notin> set t \<Longrightarrow> strcmp s t = 0 \<longleftrightarrow> s = t"
proof (induction s t rule: strcmp.induct)
  case (2 d ds)
  then have "(of_char d :: nat) \<noteq> of_char (NUL :: char)" by auto
  then show ?case by (simp add: NUL_def)
next
  case (3 c cs)
  then have "(of_char c :: nat) \<noteq> of_char (NUL :: char)" by auto
  then show ?case by (simp add: NUL_def)
qed (auto simp: of_char_eq_iff)

definition in_order :: "(string \<times> int) list \<Rightarrow> bool" where
  "in_order es \<longleftrightarrow> sorted_wrt (\<lambda>a b. key (fst a) < key (fst b)) es \<and> (\<forall>e \<in> set es. NUL \<notin> set (fst e))"

lemma in_order_nth: "in_order es \<Longrightarrow> i < j \<Longrightarrow> j < length es \<Longrightarrow> key (fst (es ! i)) < key (fst (es ! j))"
  by (simp add: in_order_def sorted_wrt_iff_nth_less)

lemma in_order_unique:
  assumes "in_order es" and "i < length es"
  shows "map_of es (fst (es ! i)) = Some (snd (es ! i))"
proof -
  have "fst (es ! i) \<noteq> fst (es ! j)" if "i < j" "j < length es" for i j using in_order_nth [OF assms(1) that] by auto
  then have "fst (es ! i) \<noteq> fst (es ! j)" if "i \<noteq> j" "i < length es" "j < length es" for i j
    using that by (cases i j rule: linorder_cases) (force+)
  then have "distinct (map fst es)" by (simp add: distinct_conv_nth)
  then show ?thesis using assms(2) by (intro map_of_is_SomeI) auto
qed

lemma entity_search_correct:
  assumes "in_order es" and "NUL \<notin> set name"
  shows "lo \<le> hi \<Longrightarrow> hi < length es \<Longrightarrow> (\<And>i. i < length es \<Longrightarrow> fst (es ! i) = name \<Longrightarrow> lo \<le> i \<and> i \<le> hi) \<Longrightarrow>
     entity_search es name lo hi = (case map_of es name of Some v \<Rightarrow> v | None \<Rightarrow> -1)"
proof (induction "hi - lo" arbitrary: lo hi rule: less_induct)
  case less
  have nul: "NUL \<notin> set (fst (es ! i))" if "i < length es" for i using assms(1) nth_mem [OF that] by (auto simp: in_order_def)
  have cmp: "strcmp name (fst (es ! i)) = 0 \<longleftrightarrow> name = fst (es ! i)" "strcmp name (fst (es ! i)) < 0 \<longleftrightarrow> key name < key (fst (es ! i))"
    if "i < length es" for i using strcmp_0 strcmp_less assms(2) nul [OF that] by auto
  have hit: "(case map_of es name of Some v \<Rightarrow> v | None \<Rightarrow> -1) = snd (es ! i)" if "i < length es" "name = fst (es ! i)" for i
    using in_order_unique [OF assms(1) that(1)] that(2) by simp
  show ?case
  proof (cases "hi - lo > 1")
    case True
    define c where "c = (lo + hi) div 2"
    have c: "lo < c" "c < hi" "c < length es" using True less.prems(2) by (auto simp: c_def)
    consider "name = fst (es ! c)" | "key name < key (fst (es ! c))" | "key (fst (es ! c)) < key name"
      by (cases "key name" "key (fst (es ! c))" rule: linorder_cases) (auto simp: inj_map_eq_map [OF inj_of_char])
    then show ?thesis
    proof cases
      case 1
      then show ?thesis using cmp(1) [OF c(3)] hit [OF c(3)] True by (subst entity_search.simps) (simp add: c_def [symmetric])
    next
      case 2
      have "entity_search es name lo c = (case map_of es name of Some v \<Rightarrow> v | None \<Rightarrow> -1)"
      proof (rule less.hyps)
        fix i assume i: "i < length es" "fst (es ! i) = name"
        then have "\<not> c < i" using 2 in_order_nth [OF assms(1), of c i] by auto
        then show "lo \<le> i \<and> i \<le> c" using less.prems(3) [OF i] by auto
      qed (use c in auto)
      moreover have "name \<noteq> fst (es ! c)" using 2 by auto
      ultimately show ?thesis using cmp [OF c(3)] 2 True by (simp add: entity_search.simps [of es name lo hi] c_def [symmetric])
    next
      case 3
      have "entity_search es name c hi = (case map_of es name of Some v \<Rightarrow> v | None \<Rightarrow> -1)"
      proof (rule less.hyps)
        fix i assume i: "i < length es" "fst (es ! i) = name"
        then have "\<not> i < c" using 3 in_order_nth [OF assms(1), of i c] c(3) by auto
        then show "c \<le> i \<and> i \<le> hi" using less.prems(3) [OF i] by auto
      qed (use c less.prems in auto)
      moreover have "name \<noteq> fst (es ! c)" "\<not> key name < key (fst (es ! c))" using 3 by auto
      ultimately show ?thesis using cmp [OF c(3)] True by (simp add: entity_search.simps [of es name lo hi] c_def [symmetric])
    qed
  next
    case False
    have lh: "lo < length es" "hi < length es" using less.prems by auto
    have "map_of es name = None" if "name \<noteq> fst (es ! lo)" "name \<noteq> fst (es ! hi)"
    proof (rule ccontr)
      assume "map_of es name \<noteq> None"
      then obtain i where "i < length es" "fst (es ! i) = name" by (metis map_of_SomeD not_Some_eq fst_conv in_set_conv_nth)
      then have "i = lo \<or> i = hi" using less.prems(3) [of i] False by auto
      then show False using that \<open>fst (es ! i) = name\<close> by auto
    qed
    then show ?thesis
      using cmp(1) [OF lh(1)] cmp(1) [OF lh(2)] hit [OF lh(1)] hit [OF lh(2)] False by (auto simp: entity_search.simps [of es name lo hi])
  qed
qed

lemma entities_in_order: "in_order entities"
proof -
  have "successively (\<lambda>a b. key (fst a) < key (fst b)) entities" by code_simp
  then have "sorted_wrt (\<lambda>a b. key (fst a) < key (fst b)) entities" by (subst (asm) successively_conv_sorted_wrt) (auto simp: transp_def)
  moreover have "list_all (\<lambda>e. NUL \<notin> set (fst e)) entities" by code_simp
  ultimately show ?thesis by (simp add: in_order_def list_all_iff)
qed

text \<open>C9. The binary search in the table of named entities finds exactly the entries of the table: for every name it
  returns the value that the table has for it, and \<open>-1\<close> if the name is not in the table.\<close>

theorem entity_lookup:
  assumes "NUL \<notin> set name"
  shows "mxml_entity_cb name = (case map_of entities name of Some v \<Rightarrow> v | None \<Rightarrow> -1)"
proof -
  have "length entities = 252" by code_simp
  then show ?thesis unfolding mxml_entity_cb_def
    by (intro entity_search_correct [OF entities_in_order assms]) auto
qed

theorem entity_lookup_witness: "mxml_entity_cb ''hearts'' = 9829 \<and> mxml_entity_cb ''bnet'' = -1"
proof -
  have "map_of entities ''hearts'' = Some 9829" "map_of entities ''bnet'' = None" by code_simp+
  then show ?thesis using entity_lookup [of "''hearts''"] entity_lookup [of "''bnet''"] by (simp add: NUL_def)
qed

end
