(* ===== verification/Spec2Isabelle.thy ===== *)
theory Spec2Isabelle
  imports Crc Stages MemCache Mxml Entities
begin

text \<open>
  A verification library for blitzd, a server for the Battle.net protocols (src/blitzd), with the parts it shares with
  its companion daemons (src/common, src/interface), the memory cache of shald (src/shald) and the XML
  library it is built with (src/mxml).

  \<^bold>\<open>The program.\<close> A connection first sends one byte that selects a protocol. From then on its bytes are cut into packets by the size
  in a header, and every packet is handed to the request with its code. Requests read fields from a byte stream, look up
  accounts, channels and games in caches, change them, and send packets. Accounts are loaded from and saved to an SQL database. A
  login proves the knowledge of a password, either with a broken SHA-1 or with the SRP protocol.

  \<^bold>\<open>The model.\<close> A C++ object lives in a list of the record \<open>world\<close>, a pointer is an index into that list, and a deleted object leaves a hole. An operation that
  can fail or change the state is a function in the state monad \<open>'a M\<close>, whose failures are the values of \<open>fault\<close>: the use
  of a null pointer, of an object that is gone, of a place outside of an array, a division by zero, or fuel that ran out. Machine integers
  are words of their width. What is outside of the sources is a field of \<open>env\<close> (random numbers, the clock, the contents of files, the answers of the
  database, the contents of uninitialised memory by the name of the variable) or of \<open>config\<close> (the configuration, GMP, the allocator), so that every theorem holds
  for all of them.

  \<^bold>\<open>The theories\<close>, in the order of their imports:
  \<^item> \<open>Prelude\<close>: widths, bytes, little-endian words, results. \<open>Containers\<close>: the standard containers as lists with the comparison
    they are instantiated with; the locales \<open>key_equiv\<close> and \<open>strict_weak\<close> state what they need of it.
  \<^item> \<open>CText\<close> (common/utils/Memory.cpp, common/text/Parser.cpp, blitzd/cache/CacheFunc.h), \<open>Numbers\<close>
    (common/utils/NumberFormatter.cpp): comparing and splitting text, printing numbers. The separator-splitting loop yields the fields of the text.
  \<^item> \<open>ByteStream\<close> (common/utils/Stream.h): what is written is read back, for any list of fields. The locale \<open>field_codec\<close> is the
    contract of one kind of field; the five kinds are interpretations.
  \<^item> \<open>Sha\<close> (common/crypto/SHA1Hash.cpp, blitzd/crypto/BSHA1Hash.cpp): both hashes, fed in any pieces, equal a reference on the
    whole message. The locale \<open>block_hash\<close> holds the argument about blocks and padding once for both. \<open>Crc\<close> (common/crypto/Crc32.cpp): the table method
    equals the bitwise one.
  \<^item> \<open>World\<close>: the state, the monad, weakest preconditions, and the locales \<open>safe_ops\<close> and \<open>guarded_ops\<close>: what every operation of a set keeps, every
    sequence of them keeps.
  \<^item> \<open>Storage\<close> (blitzd/storage): the statements that are sent to the database. A row is read back from its statement when no text has a quotation mark; otherwise what
    follows the mark is outside of the literal. \<open>Users\<close> (blitzd/cache/UserCache.cpp): accounts, friends, the two indexes of accounts, loading. The indexes mirror each other after any operations; loading ends
    although accounts refer to each other.
  \<^item> \<open>Sessions\<close> (blitzd/core/Client.cpp, Message.cpp), \<open>Rooms\<close> (blitzd/cache/ChannelCache.cpp, GameCache.cpp): clients, messages, channels and games. No sequence of
    operations leaves a channel, a game or the pool of names with a pointer to an object that is gone; the table of tokens can keep one (\<open>stale_token\<close>). What is said in a channel is sent to its
    other members.
  \<^item> \<open>Caches\<close> (NewsCache.cpp, RealmCache.cpp, FileCache.cpp), \<open>CheckRev\<close> (CheckRevision.cpp): news, realms, files, and the interpreter of checksum formulas, which
    computes what the drawn formula says. \<open>Srp\<close> (blitzd/crypto/BnetSRP3.cpp): client and server agree on the key.
  \<^item> \<open>Packets\<close> (blitzd/packets), \<open>Commands\<close> (blitzd/core/command), \<open>Requests\<close> (blitzd/plugins): every packet, chat command and request.
  \<^item> \<open>Framing\<close> (blitzd/core/Client.cpp): from bytes to requests. The locale \<open>frame_loop\<close> is a loop that cuts its input by the sizes in headers; the loops for
    clients and for realm servers are its interpretations.
  \<^item> \<open>Safety\<close>, \<open>Server\<close>: an invariant of the whole server, a calculus for it, and its proof for every request; whatever connections send, no object that is gone
    is used. Null pointers, places outside of an array and lack of fuel are not excluded there; datagrams, which find clients by token, are not among the events. \<open>Logins\<close>: what a connection can reach: the old login, a login without an account, how much data is held back, datagrams. \<open>Stages\<close>: requests after the
    login keep the stage of every connection; every whole packet is handled, and pieces do not matter.
  \<^item> \<open>MemCache\<close> (shald/cache/MemCache.cpp): an allocator whose free list is kept in the memory it hands out, byte by byte; it implements first fit on a sequence of
    chunks, and no block that is held is touched.
  \<^item> \<open>Mxml\<close> (mxml/mxml-node.c, mxml-search.c, mxml-attr.c, mxml-get.c, mxml-set.c): nodes on a heap represent a forest; adding, removing, deleting and walking are the
    operations on ordered trees. \<open>Entities\<close> (mxml/mxml-entity.c): the binary search finds exactly the entries of the table.

  \<^bold>\<open>Bounds and fuel.\<close> Loading an account takes a fuel \<open>n\<close> for the depth of friends that load friends; \<open>loading_terminates\<close> shows that the number of accounts of the database
  that are not in memory yet is enough. The search for a numbered channel takes one step more than the map of channel names has entries, which \<open>Ensure_terminates\<close> shows to be enough. Deleting an XML node takes twice the number of
  nodes in its subtree, which \<open>Delete_frees_subtree\<close> shows to be enough. The loops of the allocator and the walks over trees are partial functions, and the theorems state that they
  return. All other loops are total functions.

  \<^bold>\<open>Assumptions of the model.\<close> The server handles its events one after the other, as its single worker thread does. A channel is never freed. In the sources it is freed when neither the map of names nor a list of a
  game holds it; nothing calls ChannelCache::Remove, and a channel that a client creates keeps its entry in the map, so only a channel of the channel file can lose both, when a
  channel spawned from one takes over a name and the list is overwritten (BNetListChannel.cpp). The server starts without such channels, as reading the channel file is not modelled; the theorems of \<open>Rooms\<close> hold for
  every state with \<open>rooms_ok\<close>. An uninitialised variable has the same contents whenever it comes into being in one run. Shift counts of 32 and
  more are taken modulo 32, as the target machines do. Allocation fails only where \<open>can_alloc\<close> or an address that is None says so.

  \<^bold>\<open>Not modelled.\<close> Reading XML text and the configuration, ladder and channel files that are read through it
  (mxml/mxml-file.c, common/text/XmlNode.cpp, blitzd/core/Cfg.cpp, blitzd/games/war3, ChannelCache::Load): they run once at start, and what they yield
  is an argument of the model. The realm daemon baald (its framing loop and its few requests are left out so far), the echo server of
  shald, and the main programs of the three daemons. Sockets, threads, locks, files, signals and the log, which are
  wrappers of the system's calls. Reference-counting pointers: an object lives as long as the entry that owns it. SQLite, zlib, GMP and libevent, which are
  bundled and only called. In the XML library: real and custom nodes, user data, indexes, and the
  variants that format their argument.
\<close>

end
